(* ===== verification/Boot_Prelude.thy ===== *)
theory Boot_Prelude
  imports Main "HOL-Library.Word" "HOL-Library.Signed_Division"
begin

text \<open>
  Shared vocabulary of the development: the machine types of the boot loader (32-bit ARM,
  \<^verbatim>\<open>char\<close> unsigned, \<^verbatim>\<open>int\<close> and \<^verbatim>\<open>long\<close> of 32 bits), memory areas as lists of bytes,
  the reads and writes the C code does on them, and the lemmas about slices of byte
  lists that every component uses.

  Conventions. A memory area is the list of its bytes. A pointer into it is the rest of
  the area from that position on (\<open>drop\<close>), so \<open>rd p i\<close> is \<^verbatim>\<open>p[i]\<close>. A function that may read
  or write outside its area, or may not return at all, has an \<open>option\<close> result, and
  \<open>None\<close> stands for "no defined result".
\<close>

unbundle bit_operations_syntax

type_synonym byte = "8 word"
type_synonym u32 = "32 word"

text \<open>\<open>buf_simps\<close>: slices of patched areas; \<open>cstr_simps\<close>: C strings.\<close>

named_theorems buf_simps
named_theorems cstr_simps

section \<open>Signed 32-bit integers\<close>

text \<open>A signed C value is an \<open>int\<close> in the range of the type; \<open>s32\<close> wraps a result into it.\<close>

definition s32 :: "int \<Rightarrow> int" where
  "s32 x = (x + 2 ^ 31) mod 2 ^ 32 - 2 ^ 31"

lemma s32_id [simp]: "- (2 ^ 31) \<le> x \<Longrightarrow> x < 2 ^ 31 \<Longrightarrow> s32 x = x"
  by (simp add: s32_def)

lemma sdiv_nonneg: "0 \<le> a \<Longrightarrow> 0 < b \<Longrightarrow> (a::int) sdiv b = a div b"
  by (simp add: signed_divide_int_def sgn_if)

lemma sint_eq_unat: "unat (x::u32) < 2 ^ 31 \<Longrightarrow> sint x = int (unat x)"
proof -
  assume "unat x < 2 ^ 31"
  then have "int (unat x) < int (2 ^ 31)"
    by (simp only: of_nat_less_iff)
  then have "uint x < 2 ^ 31"
    by simp
  then have "signed_take_bit 31 (uint x) = uint x"
    by (intro signed_take_bit_int_eq_self) (simp_all add: order_trans [of _ 0])
  then show ?thesis
    by (simp add: sint_uint)
qed

lemma unat_u32_less: "unat (x::u32) < 2 ^ 32"
proof -
  have "unat x < 2 ^ LENGTH(32)" by (rule unsigned_less)
  then show ?thesis by simp
qed

section \<open>Memory areas\<close>

text \<open>Reading one byte. Past the end of the area the value is unspecified in C; it is
  taken as a NUL there, and every access the code can make outside its area is caught by
  an explicit bound where it matters.\<close>

definition rd :: "byte list \<Rightarrow> nat \<Rightarrow> byte" where
  "rd p i = (if i < length p then p ! i else 0)"

text \<open>\<^verbatim>\<open>memcpy\<close> of \<open>new\<close> to offset \<open>off\<close> of the area.\<close>

definition patch :: "nat \<Rightarrow> byte list \<Rightarrow> byte list \<Rightarrow> byte list" where
  "patch off new p = take off p @ new @ drop (off + length new) p"

definition memcpy_at :: "nat \<Rightarrow> byte list \<Rightarrow> byte list \<Rightarrow> byte list option" where
  "memcpy_at off new p =
     (if off + length new \<le> length p then Some (patch off new p) else None)"

lemma rd_drop [simp]: "rd (drop k p) i = rd p (k + i)"
  by (auto simp: rd_def)

lemma rd_nth: "i < length p \<Longrightarrow> rd p i = p ! i"
  by (simp add: rd_def)

lemma rd_append: "rd (p @ q) i = (if i < length p then rd p i else rd q (i - length p))"
  by (auto simp: rd_def nth_append)

lemma length_patch [simp]: "off + length new \<le> length p \<Longrightarrow> length (patch off new p) = length p"
  by (simp add: patch_def)

lemma rd_patch:
  "off + length new \<le> length p \<Longrightarrow>
   rd (patch off new p) i = (if off \<le> i \<and> i < off + length new then new ! (i - off) else rd p i)"
  by (auto simp: patch_def rd_def nth_append)

lemma nth_patch:
  "off + length new \<le> length p \<Longrightarrow> i < length p \<Longrightarrow>
   patch off new p ! i = (if off \<le> i \<and> i < off + length new then new ! (i - off) else p ! i)"
  using rd_patch [of off new p i] by (simp add: rd_def split: if_splits)

lemma patch_Nil [simp]: "off \<le> length p \<Longrightarrow> patch off [] p = p"
  by (simp add: patch_def)

lemma take_patch_le [buf_simps]: "n \<le> off \<Longrightarrow> off \<le> length p \<Longrightarrow> take n (patch off new p) = take n p"
  by (simp add: patch_def min_def)

lemma drop_patch_ge [buf_simps]:
  "off + length new \<le> n \<Longrightarrow> off \<le> length p \<Longrightarrow> drop n (patch off new p) = drop n p"
  by (simp add: patch_def add.commute)

lemma take_patch_eq [buf_simps]:
  "off \<le> length p \<Longrightarrow> take (off + length new) (patch off new p) = take off p @ new"
  by (simp add: patch_def)

lemma drop_patch_eq [buf_simps]:
  "off \<le> length p \<Longrightarrow> drop off (patch off new p) = new @ drop (off + length new) p"
  by (simp add: patch_def)

lemma patch_append_left:
  "off + length new \<le> length p \<Longrightarrow> patch off new (p @ q) = patch off new p @ q"
  by (simp add: patch_def)

lemma patch_append_right:
  "length p \<le> off \<Longrightarrow> patch off new (p @ q) = p @ patch (off - length p) new q"
  by (simp add: patch_def)

lemma patch_replicate_0:
  "length new \<le> n \<Longrightarrow> patch 0 new (replicate n x) = new @ replicate (n - length new) x"
  by (simp add: patch_def)

lemma byte_list_eqI: "length p = length q \<Longrightarrow> (\<And>i. i < length p \<Longrightarrow> rd p i = rd q i) \<Longrightarrow> p = q"
  by (rule nth_equalityI) (auto simp: rd_def)

section \<open>C strings\<close>

text \<open>The string at a pointer: the bytes before the first NUL.\<close>

definition cstr :: "byte list \<Rightarrow> byte list" where
  "cstr p = takeWhile (\<lambda>b. b \<noteq> 0) p"

text \<open>A string literal of the source as bytes.\<close>

definition bytes_of :: "string \<Rightarrow> byte list" where
  "bytes_of s = map (\<lambda>c. word_of_nat (of_char c)) s"

lemma length_bytes_of [simp]: "length (bytes_of s) = length s"
  by (simp add: bytes_of_def)

lemma cstr_Nil [cstr_simps, simp]: "cstr [] = []"
  by (simp add: cstr_def)

lemma cstr_Cons [cstr_simps]: "cstr (b # p) = (if b = 0 then [] else b # cstr p)"
  by (simp add: cstr_def)

lemma cstr_append_0 [cstr_simps]: "0 \<notin> set s \<Longrightarrow> cstr (s @ 0 # p) = s"
  by (induction s) (auto simp: cstr_def)

lemma cstr_no_0 [simp]: "0 \<notin> set (cstr p)"
  by (auto simp: cstr_def dest: set_takeWhileD)

lemma cstr_id: "0 \<notin> set s \<Longrightarrow> cstr s = s"
  by (induction s) (auto simp: cstr_def)

lemma cstr_split: "0 \<in> set p \<Longrightarrow> \<exists>q. p = cstr p @ 0 # q"
  by (induction p) (auto simp: cstr_def)

text \<open>\<^verbatim>\<open>strcmp\<close> and \<^verbatim>\<open>strncmp\<close> of \<^verbatim>\<open>lib/string.c\<close>: the difference of the first differing
  bytes, kept in a \<^verbatim>\<open>signed char\<close>.\<close>

fun strcmp :: "byte list \<Rightarrow> byte list \<Rightarrow> byte" where
  "strcmp cs ct =
     (let res = rd cs 0 - rd ct 0
      in if res \<noteq> 0 \<or> rd cs 0 = 0 then res
         else case cs of [] \<Rightarrow> res | _ # cs' \<Rightarrow> strcmp cs' (tl ct))"

declare strcmp.simps [simp del]

fun strncmp :: "byte list \<Rightarrow> byte list \<Rightarrow> nat \<Rightarrow> byte" where
  "strncmp cs ct 0 = 0"
| "strncmp cs ct (Suc count) =
     (let res = rd cs 0 - rd ct 0
      in if res \<noteq> 0 \<or> rd cs 0 = 0 then res else strncmp (tl cs) (tl ct) count)"

text \<open>\<^verbatim>\<open>strstr (s, t) == s\<close>, the test the tar code makes: the search string is empty or
  matches at the very first position.\<close>

definition strstr_at_start :: "byte list \<Rightarrow> byte list \<Rightarrow> bool" where
  "strstr_at_start s t \<longleftrightarrow> length (cstr t) \<le> length (cstr s) \<and>
     take (length (cstr t)) (cstr s) = cstr t"

lemma rd_0_Cons [simp]: "rd (b # p) 0 = b"
  by (simp add: rd_def)

lemma rd_Nil [simp]: "rd [] i = 0"
  by (simp add: rd_def)

lemma rd_Suc_Cons [simp]: "rd (b # p) (Suc i) = rd p i"
  by (simp add: rd_def)

lemma strcmp_eq_0 [cstr_simps]: "strcmp cs ct = 0 \<longleftrightarrow> cstr cs = cstr ct"
proof (induction cs ct rule: strcmp.induct)
  case (1 cs ct)
  then show ?case
    by (subst strcmp.simps) (cases cs; cases ct; auto simp: cstr_Cons Let_def)
qed

lemma strncmp_eq_0 [cstr_simps]: "strncmp cs ct n = 0 \<longleftrightarrow> take n (cstr cs) = take n (cstr ct)"
proof (induction cs ct n rule: strncmp.induct)
  case (2 cs ct count)
  then show ?case
    by (cases cs; cases ct) (auto simp: cstr_Cons Let_def)
qed simp

lemma strstr_at_start_iff [cstr_simps]: "strstr_at_start s t \<longleftrightarrow> (\<exists>u. cstr s = cstr t @ u)"
  by (auto simp: strstr_at_start_def) (metis append_take_drop_id)

section \<open>Little-endian words in memory\<close>

text \<open>An \<^verbatim>\<open>unsigned int\<close> field of a structure, read and written as ARM does.\<close>

definition rd32 :: "byte list \<Rightarrow> nat \<Rightarrow> u32" where
  "rd32 p i = ucast (rd p i) OR push_bit 8 (ucast (rd p (i + 1)))
     OR push_bit 16 (ucast (rd p (i + 2))) OR push_bit 24 (ucast (rd p (i + 3)))"

definition le32 :: "u32 \<Rightarrow> byte list" where
  "le32 w = [ucast w, ucast (drop_bit 8 w), ucast (drop_bit 16 w), ucast (drop_bit 24 w)]"

lemma length_le32 [simp]: "length (le32 w) = 4"
  by (simp add: le32_def)

lemma le32_bits:
  "(ucast (ucast w :: byte) :: u32) OR push_bit 8 (ucast (ucast (drop_bit 8 w) :: byte))
     OR push_bit 16 (ucast (ucast (drop_bit 16 w) :: byte))
     OR push_bit 24 (ucast (ucast (drop_bit 24 w) :: byte)) = (w :: u32)"
proof (rule bit_word_eqI)
  fix n
  assume "n < LENGTH(32)"
  then show "bit ((ucast (ucast w :: byte) :: u32)
       OR push_bit 8 (ucast (ucast (drop_bit 8 w) :: byte))
       OR push_bit 16 (ucast (ucast (drop_bit 16 w) :: byte))
       OR push_bit 24 (ucast (ucast (drop_bit 24 w) :: byte))) n = bit w n"
    by (cases "n < 8"; cases "n < 16"; cases "n < 24")
      (auto simp: bit_or_iff bit_push_bit_iff bit_ucast_iff bit_drop_bit_eq not_less)
qed

lemma rd32_le32:
  assumes "\<And>j. j < 4 \<Longrightarrow> rd p (i + j) = le32 w ! j"
  shows "rd32 p i = w"
  using assms [of 0] assms [of 1] assms [of 2] assms [of 3]
  by (simp add: rd32_def le32_def le32_bits)

lemma rd32_patch_same: "i + 4 \<le> length p \<Longrightarrow> rd32 (patch i (le32 w) p) i = w"
  by (rule rd32_le32) (simp add: rd_patch)

lemma rd32_patch_other:
  "off + length new \<le> length p \<Longrightarrow> i + 4 \<le> off \<or> off + length new \<le> i \<Longrightarrow>
   rd32 (patch off new p) i = rd32 p i"
  by (auto simp: rd32_def rd_patch)

lemma length_4: "length xs = 4 \<Longrightarrow> \<exists>a b c d. xs = [a, b, c, d]"
  by (auto simp: length_Suc_conv numeral_eq_Suc)

lemma le32_bytes:
  "le32 (ucast (a::byte) OR push_bit 8 (ucast (b::byte)) OR push_bit 16 (ucast (c::byte))
     OR push_bit 24 (ucast (d::byte))) = [a, b, c, d]"
proof -
  have "ucast (ucast a OR push_bit 8 (ucast b) OR push_bit 16 (ucast c) OR push_bit 24 (ucast d) :: u32) = a"
    by (rule bit_word_eqI) (simp add: bit_simps)
  moreover have "ucast (drop_bit 8 (ucast a OR push_bit 8 (ucast b) OR push_bit 16 (ucast c)
      OR push_bit 24 (ucast d) :: u32)) = b"
    by (rule bit_word_eqI) (auto simp: bit_simps dest: bit_imp_le_length)
  moreover have "ucast (drop_bit 16 (ucast a OR push_bit 8 (ucast b) OR push_bit 16 (ucast c)
      OR push_bit 24 (ucast d) :: u32)) = c"
    by (rule bit_word_eqI) (auto simp: bit_simps dest: bit_imp_le_length)
  moreover have "ucast (drop_bit 24 (ucast a OR push_bit 8 (ucast b) OR push_bit 16 (ucast c)
      OR push_bit 24 (ucast d) :: u32)) = d"
    by (rule bit_word_eqI) (auto simp: bit_simps dest: bit_imp_le_length)
  ultimately show ?thesis by (simp add: le32_def)
qed

lemma rd32_le32_take:
  assumes "i + 4 \<le> length p"
  shows "le32 (rd32 p i) = take 4 (drop i p)"
proof -
  have "length (take 4 (drop i p)) = 4" using assms by simp
  then obtain a b c d where t: "take 4 (drop i p) = [a, b, c, d]" using length_4 by blast
  have "rd p (i + j) = take 4 (drop i p) ! j" if "j < 4" for j
    using assms that by (simp add: rd_nth)
  from this [of 0] this [of 1] this [of 2] this [of 3]
  have "rd p i = a" "rd p (i + 1) = b" "rd p (i + 2) = c" "rd p (i + 3) = d"
    unfolding t by simp_all
  then show ?thesis by (simp only: rd32_def le32_bytes t)
qed

end
