(* ===== verification/Vsprintf.thy ===== *)
theory Vsprintf
  imports Boot_Prelude
begin

text \<open>
  Number parsing and printing of the boot loader: \<^verbatim>\<open>lib/ctype.c\<close>, and of
  \<^verbatim>\<open>lib/vsprintf.c\<close> the routines \<^verbatim>\<open>simple_strtoul\<close>, \<^verbatim>\<open>simple_strtol\<close>, \<^verbatim>\<open>strict_strtoul\<close>,
  \<^verbatim>\<open>put_dec\<close> with its two helpers, \<^verbatim>\<open>number\<close> and \<^verbatim>\<open>sprintn\<close>. The lemmas show that the
  decimal routines print the decimal digits and that parsing inverts printing.
\<close>

section \<open>Character classes\<close>

definition ct_U :: byte where "ct_U = 0x01"
definition ct_L :: byte where "ct_L = 0x02"
definition ct_D :: byte where "ct_D = 0x04"
definition ct_C :: byte where "ct_C = 0x08"
definition ct_P :: byte where "ct_P = 0x10"
definition ct_S :: byte where "ct_S = 0x20"
definition ct_X :: byte where "ct_X = 0x40"
definition ct_SP :: byte where "ct_SP = 0x80"

lemmas ct_defs = ct_U_def ct_L_def ct_D_def ct_C_def ct_P_def ct_S_def ct_X_def ct_SP_def

text \<open>The table \<^verbatim>\<open>_ctype\<close>, in runs of equal flags.\<close>

definition ctype_table :: "byte list" where
  "ctype_table =
     replicate 9 ct_C @ replicate 5 (ct_C OR ct_S) @ replicate 18 ct_C
     @ [ct_S OR ct_SP] @ replicate 15 ct_P
     @ replicate 10 ct_D @ replicate 7 ct_P
     @ replicate 6 (ct_U OR ct_X) @ replicate 20 ct_U @ replicate 6 ct_P
     @ replicate 6 (ct_L OR ct_X) @ replicate 20 ct_L @ replicate 4 ct_P @ [ct_C]
     @ replicate 32 0
     @ [ct_S OR ct_SP] @ replicate 31 ct_P
     @ replicate 23 ct_U @ [ct_P] @ replicate 7 ct_U @ [ct_L]
     @ replicate 23 ct_L @ [ct_P] @ replicate 8 ct_L"

definition ismask :: "byte \<Rightarrow> byte" where
  "ismask c = ctype_table ! unat c"

definition isdigit :: "byte \<Rightarrow> bool" where "isdigit c \<longleftrightarrow> ismask c AND ct_D \<noteq> 0"
definition islower :: "byte \<Rightarrow> bool" where "islower c \<longleftrightarrow> ismask c AND ct_L \<noteq> 0"
definition isxdigit :: "byte \<Rightarrow> bool" where "isxdigit c \<longleftrightarrow> ismask c AND (ct_D OR ct_X) \<noteq> 0"
definition isblank :: "byte \<Rightarrow> bool" where "isblank c \<longleftrightarrow> c = 32 \<or> c = 9"
definition isascii :: "byte \<Rightarrow> bool" where "isascii c \<longleftrightarrow> c \<le> 0x7f"

definition toupper :: "byte \<Rightarrow> byte" where
  "toupper c = (if islower c then c - (97 - 65) else c)"

section \<open>Parsing\<close>

text \<open>The value of a digit character, as the expression in the loop condition has it.\<close>

definition digit_value :: "byte \<Rightarrow> u32" where
  "digit_value c =
     (if isdigit c then ucast c - 48
      else ucast (if islower c then toupper c else c) - 65 + 10)"

fun strtoul_digits :: "u32 \<Rightarrow> u32 \<Rightarrow> byte list \<Rightarrow> u32 \<times> byte list" where
  "strtoul_digits base result [] = (result, [])"
| "strtoul_digits base result (c # cp) =
     (if isxdigit c \<and> digit_value c < base
      then strtoul_digits base (result * base + digit_value c) cp
      else (result, c # cp))"

text \<open>\<^verbatim>\<open>simple_strtoul (cp, &end, base)\<close>: the value and the rest of the string.\<close>

definition simple_strtoul_end :: "byte list \<Rightarrow> u32 \<Rightarrow> u32 \<times> byte list" where
  "simple_strtoul_end cp base =
     (if rd cp 0 = 48 then
        let cp1 = drop 1 cp;
            hex = (rd cp1 0 = 120 \<and> isxdigit (rd cp1 1));
            base1 = (if hex then 16 else base);
            cp2 = (if hex then drop 1 cp1 else cp1);
            base2 = (if base1 = 0 then 8 else base1)
        in strtoul_digits base2 0 cp2
      else strtoul_digits (if base = 0 then 10 else base) 0 cp)"

definition simple_strtoul :: "byte list \<Rightarrow> u32 \<Rightarrow> u32" where
  "simple_strtoul cp base = fst (simple_strtoul_end cp base)"

definition simple_strtol :: "byte list \<Rightarrow> u32 \<Rightarrow> u32" where
  "simple_strtol cp base =
     (if rd cp 0 = 45 then - simple_strtoul (drop 1 cp) base else simple_strtoul cp base)"

text \<open>\<^verbatim>\<open>strict_strtoul\<close>: \<open>None\<close> is \<^verbatim>\<open>-EINVAL\<close>.\<close>

definition strict_strtoul :: "byte list \<Rightarrow> u32 \<Rightarrow> u32 option" where
  "strict_strtoul cp base =
     (let len = length (cstr cp) in
      if len = 0 then None
      else let (val, tail) = simple_strtoul_end cp base in
      if length tail = length cp then None
      else if rd tail 0 = 0 \<or> (len = (length cp - length tail) + 1 \<and> rd tail 0 = 10)
      then Some val else None)"

section \<open>Printing\<close>

text \<open>\<^verbatim>\<open>put_dec_trunc\<close>: least significant digit first, no leading zeros. The unsigned
  arithmetic never leaves 32 bits for the arguments below 100000 it is called with.\<close>

definition put_dec_trunc :: "nat \<Rightarrow> nat list" where
  "put_dec_trunc q0 =
     (let d1 = (q0 div 2 ^ 4) mod 16;
          d2 = (q0 div 2 ^ 8) mod 16;
          d3 = q0 div 2 ^ 12;
          e0 = 6 * (d3 + d2 + d1) + q0 mod 16;
          q = (e0 * 0xcd) div 2 ^ 11;
          d0 = e0 - 10 * q;
          e1 = q + 9 * d3 + 5 * d2 + d1
      in d0 # (if e1 = 0 then [] else
         let q = (e1 * 0xcd) div 2 ^ 11;
             d1 = e1 - 10 * q;
             e2 = q + 2 * d2
         in d1 # (if e2 = 0 \<and> d3 = 0 then [] else
            let q = (e2 * 0xd) div 2 ^ 7;
                d2 = e2 - 10 * q;
                e3 = q + 4 * d3
            in d2 # (if e3 = 0 then [] else
               let q = (e3 * 0xcd) div 2 ^ 11;
                   d3 = e3 - 10 * q
               in d3 # (if q = 0 then [] else [q])))))"

text \<open>\<^verbatim>\<open>put_dec_full\<close>: the same with the tests removed, always five digits.\<close>

definition put_dec_full :: "nat \<Rightarrow> nat list" where
  "put_dec_full q0 =
     (let d1 = (q0 div 2 ^ 4) mod 16;
          d2 = (q0 div 2 ^ 8) mod 16;
          d3 = q0 div 2 ^ 12;
          e0 = 6 * (d3 + d2 + d1) + q0 mod 16;
          qa = (e0 * 0xcd) div 2 ^ 11;
          e1 = qa + 9 * d3 + 5 * d2 + d1;
          qb = (e1 * 0xcd) div 2 ^ 11;
          e2 = qb + 2 * d2;
          qc = (e2 * 0xd) div 2 ^ 7;
          e3 = qc + 4 * d3;
          qd = (e3 * 0xcd) div 2 ^ 11
      in [e0 - 10 * qa, e1 - 10 * qb, e2 - 10 * qc, e3 - 10 * qd, qd])"

fun put_dec :: "nat \<Rightarrow> nat list" where
  "put_dec num =
     (if num < 100000 then put_dec_trunc num
      else put_dec_full (num mod 100000) @ put_dec (num div 100000))"

declare put_dec.simps [simp del]

text \<open>The digits of base 8 and 16, least significant first: mask and shift.\<close>

function put_pow2 :: "nat \<Rightarrow> nat \<Rightarrow> nat list" where
  "put_pow2 shift num =
     take_bit shift num #
       (if drop_bit shift num = 0 \<or> shift = 0 then [] else put_pow2 shift (drop_bit shift num))"
  by pat_completeness auto
termination
proof (relation "measure snd")
  fix shift num :: nat
  assume "\<not> (drop_bit shift num = 0 \<or> shift = 0)"
  then have "0 < num" and "0 < shift"
    by (auto intro: ccontr)
  then have "0 < num" and "1 < (2::nat) ^ shift"
    using one_less_power [of "2::nat" shift] by simp_all
  then show "((shift, drop_bit shift num), (shift, num)) \<in> measure snd"
    by (simp add: drop_bit_eq_div)
qed simp

declare put_pow2.simps [simp del]

record print_flags =
  pf_ZEROPAD :: bool
  pf_SIGN :: bool
  pf_PLUS :: bool
  pf_SPACE :: bool
  pf_LEFT :: bool
  pf_SMALL :: bool
  pf_SPECIAL :: bool

definition no_flags :: print_flags where
  "no_flags = \<lparr>pf_ZEROPAD = False, pf_SIGN = False, pf_PLUS = False, pf_SPACE = False,
     pf_LEFT = False, pf_SMALL = False, pf_SPECIAL = False\<rparr>"

definition digit_char :: "bool \<Rightarrow> nat \<Rightarrow> byte" where
  "digit_char small d =
     (bytes_of ''0123456789ABCDEF'' ! d) OR (if small then 0x20 else 0)"

text \<open>\<^verbatim>\<open>number\<close>: the bytes it appends to the output.\<close>

definition number :: "64 word \<Rightarrow> nat \<Rightarrow> int \<Rightarrow> int \<Rightarrow> print_flags \<Rightarrow> byte list" where
  "number num base width precision f =
     (let zeropad = (pf_ZEROPAD f \<and> \<not> pf_LEFT f);
          need_pfx = (pf_SPECIAL f \<and> base \<noteq> 10);
          neg = (pf_SIGN f \<and> sint num < 0);
          sign = (if neg then [45] else if pf_SIGN f \<and> pf_PLUS f then [43]
                  else if pf_SIGN f \<and> pf_SPACE f then [32] else []);
          n = unat (if neg then - num else num);
          width = width - int (length sign)
                 - (if need_pfx then if base = 16 then 2 else 1 else 0);
          tmp = (if n = 0 then [digit_char False 0]
                 else if base \<noteq> 10
                 then map (digit_char (pf_SMALL f)) (put_pow2 (if base = 16 then 4 else 3) n)
                 else map (digit_char False) (put_dec n));
          i = int (length tmp);
          precision = (if precision < i then i else precision);
          width = width - precision;
          lead = (if \<not> zeropad \<and> \<not> pf_LEFT f then replicate (nat width) 32 else []);
          width = (if \<not> zeropad \<and> \<not> pf_LEFT f then min width 0 else width);
          pfx = (if need_pfx
                 then 48 # (if base = 16 then [88 OR (if pf_SMALL f then 0x20 else 0)] else [])
                 else []);
          mid = (if \<not> pf_LEFT f then replicate (nat width) (if zeropad then 48 else 32) else []);
          width = (if \<not> pf_LEFT f then min width 0 else width)
      in lead @ sign @ pfx @ mid @ replicate (nat (precision - i)) 48 @ rev tmp
         @ replicate (nat width) 32)"

text \<open>\<^verbatim>\<open>sprintf (buf, "%0<w>o", v)\<close> and \<^verbatim>\<open>sprintf (buf, "%x", v)\<close> for an \<^verbatim>\<open>unsigned int\<close>.\<close>

definition sprintf_0o :: "int \<Rightarrow> u32 \<Rightarrow> byte list" where
  "sprintf_0o width v = number (ucast v) 8 width (- 1) (no_flags\<lparr>pf_ZEROPAD := True\<rparr>)"

definition sprintf_x :: "u32 \<Rightarrow> byte list" where
  "sprintf_x v = number (ucast v) 16 (- 1) (- 1) (no_flags\<lparr>pf_SMALL := True\<rparr>)"

definition sprintf_d :: "u32 \<Rightarrow> byte list" where
  "sprintf_d v = number (scast v) 10 (- 1) (- 1) (no_flags\<lparr>pf_SIGN := True\<rparr>)"

text \<open>\<^verbatim>\<open>sprintn (n, b, str)\<close>: each digit is taken from the value
  truncated to \<^verbatim>\<open>unsigned long\<close>, while the division is done on the 64-bit value.\<close>

function sprintn_digits :: "nat \<Rightarrow> nat \<Rightarrow> nat list" where
  "sprintn_digits b n =
     (n mod 2 ^ 32) mod b #
       (if n div b mod 2 ^ 60 = 0 \<or> b \<le> 1 then [] else sprintn_digits b (n div b mod 2 ^ 60))"
  by pat_completeness auto
termination
proof (relation "measure snd")
  fix b n :: nat
  assume "\<not> (n div b mod 2 ^ 60 = 0 \<or> b \<le> 1)"
  then have "1 < b" and "0 < n"
    by (auto intro: ccontr)
  then have "n div b mod 2 ^ 60 < n"
    using mod_less_eq_dividend [of "n div b" "2 ^ 60"] div_less_dividend [of b n] by linarith
  then show "((b, n div b mod 2 ^ 60), (b, n)) \<in> measure snd" by simp
qed simp

declare sprintn_digits.simps [simp del]

definition sprintn :: "int \<Rightarrow> nat \<Rightarrow> byte list" where
  "sprintn n b =
     (let neg = (b = 10 \<and> n < 0); m = nat ((if neg then - n else n) mod 2 ^ 64)
      in (if neg then [45] else []) @ rev (map (digit_char False) (sprintn_digits b m)))"

text \<open>References for the lemmas: decimal digits by repeated division, least significant
  first, and the value of a digit list, most significant first.\<close>

fun dec_digits :: "nat \<Rightarrow> nat list" where
  "dec_digits n = (if n < 10 then [n] else n mod 10 # dec_digits (n div 10))"

declare dec_digits.simps [simp del]

definition digits_value :: "nat \<Rightarrow> nat list \<Rightarrow> nat" where
  "digits_value b ds = foldl (\<lambda>a d. a * b + d) 0 ds"

section \<open>Printing decimal digits\<close>

lemma div10_205:
  assumes "x < 400" shows "x * 0xcd div 2 ^ 11 = x div (10::nat)"
proof -
  have "x * 205 div 2048 = x div (10::nat)"
  proof (rule div_nat_eqI)
    define k r where "k = x div 10" and "r = x mod 10"
    have "x = 10 * k + r" "r < 10" by (auto simp: k_def r_def)
    with assms show "2048 * (x div 10) \<le> x * 205" "x * 205 < 2048 * Suc (x div 10)"
      unfolding k_def [symmetric] by auto
  qed
  then show ?thesis by simp
qed

lemma div10_13:
  assumes "x < 69" shows "x * 0xd div 2 ^ 7 = x div (10::nat)"
proof -
  have "x * 13 div 128 = x div (10::nat)"
  proof (rule div_nat_eqI)
    define k r where "k = x div 10" and "r = x mod 10"
    have *: "x = 10 * k + r" "r < 10" by (auto simp: k_def r_def)
    with assms have "k \<le> 5 \<or> k = 6 \<and> r \<le> 8" by linarith
    with * show "128 * (x div 10) \<le> x * 13" "x * 13 < 128 * Suc (x div 10)"
      unfolding k_def [symmetric] by auto
  qed
  then show ?thesis by simp
qed

lemma bits4: fixes q :: nat
  shows "q = 4096 * (q div 2 ^ 12) + 256 * (q div 2 ^ 8 mod 16) + 16 * (q div 2 ^ 4 mod 16) + q mod 16"
proof -
  have "q div 2 ^ 8 = 16 * (q div 2 ^ 12) + q div 2 ^ 8 mod 16"
    using mult_div_mod_eq [of 16 "q div 2 ^ 8"] by (simp add: div_mult2_eq [symmetric])
  moreover have "q div 2 ^ 4 = 16 * (q div 2 ^ 8) + q div 2 ^ 4 mod 16"
    using mult_div_mod_eq [of 16 "q div 2 ^ 4"] by (simp add: div_mult2_eq [symmetric])
  moreover have "q = 16 * (q div 2 ^ 4) + q mod 16"
    using mult_div_mod_eq [of 16 q] by simp
  ultimately show ?thesis by linarith
qed
lemma put_dec_sums:
  fixes q :: nat
  assumes "q < 100000"
    and d1_def: "d1 = q div 2 ^ 4 mod 16" and d2_def: "d2 = q div 2 ^ 8 mod 16"
    and d3_def: "d3 = q div 2 ^ 12"
    and e0_def: "e0 = 6 * (d3 + d2 + d1) + q mod 16"
    and e1_def: "e1 = e0 div 10 + 9 * d3 + 5 * d2 + d1"
    and e2_def: "e2 = e1 div 10 + 2 * d2"
    and e3_def: "e3 = e2 div 10 + 4 * d3"
  shows "e0 < 400" and "e1 < 400" and "e2 < 69" and "e3 < 400"
    and "q = e0 + 10 * (409 * d3 + 25 * d2 + d1)"
    and "q div 10 = e1 + 10 * (40 * d3 + 2 * d2)"
    and "q div 100 = e2 + 10 * (4 * d3)"
    and "q div 1000 = e3"
proof -
  have d: "d1 < 16" "d2 < 16" "d3 < 25" "q mod 16 < 16"
    using assms(1) by (simp_all add: d1_def d2_def d3_def less_mult_imp_div_less)
  then have d: "d1 \<le> 15" "d2 \<le> 15" "d3 \<le> 24" "q mod 16 \<le> 15" by simp_all
  have q: "q = 4096 * d3 + 256 * d2 + 16 * d1 + q mod 16"
    unfolding d1_def d2_def d3_def by (rule bits4)
  have bound: "a \<le> 15 \<Longrightarrow> b \<le> 15 \<Longrightarrow> c \<le> 24 \<Longrightarrow> r \<le> 15 \<Longrightarrow> 6 * (c + b + a) + r < 340"
    for a b c r :: nat by simp
  have b0: "e0 < 340" using bound [OF d] unfolding e0_def .
  then have "e0 div 10 < 34" by (simp add: less_mult_imp_div_less)
  then have b1: "e1 < 340" using d unfolding e1_def by linarith
  then have "e1 div 10 < 34" by (simp add: less_mult_imp_div_less)
  then show b2: "e2 < 69" using d unfolding e2_def by linarith
  then have "e2 div 10 < 7" by (simp add: less_mult_imp_div_less)
  then show b3: "e3 < 400" using d unfolding e3_def by linarith
  show "e0 < 400" "e1 < 400" using b0 b1 by simp_all
  show q0: "q = e0 + 10 * (409 * d3 + 25 * d2 + d1)"
    unfolding e0_def by (rule trans [OF q]) simp
  have "q div 10 = (e0 + 10 * (409 * d3 + 25 * d2 + d1)) div 10" using q0 by simp
  then show q1: "q div 10 = e1 + 10 * (40 * d3 + 2 * d2)"
    by (simp add: e1_def)
  have "q div 100 = q div 10 div 10"
    by (simp add: div_mult2_eq [symmetric])
  also have "\<dots> = (e1 + 10 * (40 * d3 + 2 * d2)) div 10"
    by (simp only: q1)
  finally have "q div 100 = (e1 + 10 * (40 * d3 + 2 * d2)) div 10" .
  then show q2: "q div 100 = e2 + 10 * (4 * d3)"
    by (simp add: e2_def)
  have "q div 1000 = q div 100 div 10"
    by (simp add: div_mult2_eq [symmetric])
  also have "\<dots> = (e2 + 10 * (4 * d3)) div 10"
    by (simp only: q2)
  finally have "q div 1000 = (e2 + 10 * (4 * d3)) div 10" .
  then show "q div 1000 = e3"
    by (simp add: e3_def)
qed

lemma sub_ten_div: "(x::nat) - 10 * (x div 10) = x mod 10"
  by (simp add: minus_mult_div_eq_mod)

lemma put_dec_full_digits:
  assumes "q < 100000"
  shows "put_dec_full q = [q mod 10, q div 10 mod 10, q div 100 mod 10, q div 1000 mod 10, q div 10000]"
proof -
  define d1 d2 d3 where "d1 = q div 2 ^ 4 mod 16" and "d2 = q div 2 ^ 8 mod 16" and "d3 = q div 2 ^ 12"
  define e0 where "e0 = 6 * (d3 + d2 + d1) + q mod 16"
  define e1 where "e1 = e0 div 10 + 9 * d3 + 5 * d2 + d1"
  define e2 where "e2 = e1 div 10 + 2 * d2"
  define e3 where "e3 = e2 div 10 + 4 * d3"
  note sums = put_dec_sums [OF assms d1_def d2_def d3_def e0_def e1_def e2_def e3_def]
  have "put_dec_full q =
      [e0 - 10 * (e0 div 10), e1 - 10 * (e1 div 10), e2 - 10 * (e2 div 10), e3 - 10 * (e3 div 10), e3 div 10]"
    unfolding put_dec_full_def Let_def
    unfolding d1_def [symmetric] d2_def [symmetric] d3_def [symmetric]
    unfolding e0_def [symmetric]
    unfolding div10_205 [OF sums(1)] e1_def [symmetric]
    unfolding div10_205 [OF sums(2)] e2_def [symmetric]
    unfolding div10_13 [OF sums(3)] e3_def [symmetric]
    unfolding div10_205 [OF sums(4)] ..
  moreover have "e0 mod 10 = q mod 10" by (subst sums(5)) (simp only: mod_mult_self2)
  moreover have "q div 10 mod 10 = e1 mod 10" by (simp only: sums(6) mod_mult_self2)
  moreover have "q div 100 mod 10 = e2 mod 10" by (simp only: sums(7) mod_mult_self2)
  moreover have "q div 10000 = q div 1000 div 10" by (simp add: div_mult2_eq [symmetric])
  ultimately show ?thesis by (simp add: sums(8) sub_ten_div)
qed

lemma dec_digits_unfold:
  "dec_digits n = n mod 10 # (if n div 10 = 0 then [] else dec_digits (n div 10))"
  by (subst dec_digits.simps) (simp add: div_eq_0_iff)

lemma put_dec_trunc_digits:
  assumes "q < 100000"
  shows "put_dec_trunc q = dec_digits q"
proof -
  define d1 d2 d3 where "d1 = q div 2 ^ 4 mod 16" and "d2 = q div 2 ^ 8 mod 16" and "d3 = q div 2 ^ 12"
  define e0 where "e0 = 6 * (d3 + d2 + d1) + q mod 16"
  define e1 where "e1 = e0 div 10 + 9 * d3 + 5 * d2 + d1"
  define e2 where "e2 = e1 div 10 + 2 * d2"
  define e3 where "e3 = e2 div 10 + 4 * d3"
  note sums = put_dec_sums [OF assms d1_def d2_def d3_def e0_def e1_def e2_def e3_def]
  have tr: "put_dec_trunc q = e0 mod 10 # (if e1 = 0 then [] else e1 mod 10 #
      (if e2 = 0 \<and> d3 = 0 then [] else e2 mod 10 # (if e3 = 0 then [] else
        e3 mod 10 # (if e3 div 10 = 0 then [] else [e3 div 10]))))"
    unfolding put_dec_trunc_def Let_def
    unfolding d1_def [symmetric] d2_def [symmetric] d3_def [symmetric]
    unfolding e0_def [symmetric]
    unfolding div10_205 [OF sums(1)] e1_def [symmetric]
    unfolding div10_205 [OF sums(2)] e2_def [symmetric]
    unfolding div10_13 [OF sums(3)] e3_def [symmetric]
    unfolding div10_205 [OF sums(4)] sub_ten_div ..
  have z1: "e1 = 0 \<longleftrightarrow> q div 10 = 0" using sums(6) by (auto simp: e1_def)
  have z2: "e2 = 0 \<and> d3 = 0 \<longleftrightarrow> q div 100 = 0" using sums(7) by auto
  have m0: "e0 mod 10 = q mod 10" by (subst sums(5)) (simp only: mod_mult_self2)
  have m1: "e1 mod 10 = q div 10 mod 10" by (simp only: sums(6) mod_mult_self2)
  have m2: "e2 mod 10 = q div 100 mod 10" by (simp only: sums(7) mod_mult_self2)
  have dd: "q div 10 div 10 = q div 100" "q div 100 div 10 = q div 1000" "q div 1000 div 10 = q div 10000"
    by (simp_all add: div_mult2_eq [symmetric])
  have "put_dec_trunc q = q mod 10 # (if q div 10 = 0 then [] else q div 10 mod 10 #
      (if q div 100 = 0 then [] else q div 100 mod 10 # (if q div 1000 = 0 then [] else
        q div 1000 mod 10 # (if q div 10000 = 0 then [] else [q div 10000]))))"
    unfolding tr z1 z2 m0 m1 m2 sums(8) [symmetric] dd ..
  also have "q div 10000 < 10" using assms by (simp add: less_mult_imp_div_less)
  then have "q mod 10 # (if q div 10 = 0 then [] else q div 10 mod 10 #
      (if q div 100 = 0 then [] else q div 100 mod 10 # (if q div 1000 = 0 then [] else
        q div 1000 mod 10 # (if q div 10000 = 0 then [] else [q div 10000])))) = dec_digits q"
    unfolding dec_digits_unfold [of q] dec_digits_unfold [of "q div 10"] dd
      dec_digits_unfold [of "q div 100"] dec_digits_unfold [of "q div 1000"]
    by (simp add: dec_digits.simps [of "q div 10000"])
  finally show ?thesis .
qed

lemma mod_div_swap: "0 < b \<Longrightarrow> n mod (b * c) div b = n div b mod (c::nat)"
  by (simp add: mod_mult2_eq)

text \<open>C38. Decimal printing: the shift-and-multiply routine \<^verbatim>\<open>put_dec\<close> with its helpers
  \<^verbatim>\<open>put_dec_trunc\<close> and \<^verbatim>\<open>put_dec_full\<close> emits, for every number, exactly the decimal digits
  that repeated division by ten gives, least significant first and without leading zeros.\<close>

theorem put_dec_digits: "put_dec num = dec_digits num"
proof (induction num rule: put_dec.induct)
  case (1 num)
  show ?case
  proof (cases "num < 100000")
    case True
    then show ?thesis by (simp add: put_dec.simps put_dec_trunc_digits)
  next
    case False
    let ?r = "num mod 100000" and ?d = "num div 100000"
    have "put_dec num = put_dec_full ?r @ dec_digits ?d"
      using False "1.IH" by (simp add: put_dec.simps [of num])
    also have "\<dots> = dec_digits num"
    proof -
      have r: "?r < 100000" by simp
      have big: "10 \<le> num div 10000" using div_le_mono [of 100000 num 10000] False by simp
      then have "\<not> num < 10" "\<not> num div 10 < 10" "\<not> num div 100 < 10" "\<not> num div 1000 < 10" "\<not> num div 10000 < 10"
        using div_le_mono [of 100000 num 10] div_le_mono [of 100000 num 100] div_le_mono [of 100000 num 1000] False
        by simp_all
      moreover have "?r mod 10 = num mod 10" by (simp add: mod_mod_cancel)
      moreover have "?r div 10 mod 10 = num div 10 mod 10"
        using mod_div_swap [of 10 num 10000] by (simp add: mod_mod_cancel)
      moreover have "?r div 100 mod 10 = num div 100 mod 10"
        using mod_div_swap [of 100 num 1000] by (simp add: mod_mod_cancel)
      moreover have "?r div 1000 mod 10 = num div 1000 mod 10"
        using mod_div_swap [of 1000 num 100] by (simp add: mod_mod_cancel)
      moreover have "?r div 10000 = num div 10000 mod 10"
        using mod_div_swap [of 10000 num 10] by simp
      moreover have "num div 10 div 10 = num div 100" "num div 100 div 10 = num div 1000"
        "num div 1000 div 10 = num div 10000" "num div 10000 div 10 = ?d"
        by (simp_all add: div_mult2_eq [symmetric])
      ultimately show ?thesis
        by (simp add: put_dec_full_digits [OF r] dec_digits.simps [of num] dec_digits.simps [of "num div 10"]
           dec_digits.simps [of "num div 100"] dec_digits.simps [of "num div 1000"] dec_digits.simps [of "num div 10000"])
    qed
    finally show ?thesis .
  qed
qed

section \<open>Parsing inverts printing\<close>

lemma isxdigit_0 [simp]: "\<not> isxdigit 0" by code_simp

lemma digit_char_facts:
  assumes "d < 16"
  shows "isxdigit (digit_char small d)" and "digit_value (digit_char small d) = of_nat d"
    and "digit_char small d \<noteq> 0" and "digit_char small d \<noteq> 45" and "digit_char small d \<noteq> 120"
    and "digit_char small d = 48 \<longleftrightarrow> d = 0"
proof -
  have all: "\<forall>small \<in> set [True, False]. \<forall>d \<in> set [0..<16].
      isxdigit (digit_char small d) \<and> digit_value (digit_char small d) = of_nat d \<and>
      digit_char small d \<noteq> 0 \<and> digit_char small d \<noteq> 45 \<and> digit_char small d \<noteq> 120 \<and>
      (digit_char small d = 48 \<longleftrightarrow> d = 0)"
    by code_simp
  have "isxdigit (digit_char small d) \<and> digit_value (digit_char small d) = of_nat d \<and>
      digit_char small d \<noteq> 0 \<and> digit_char small d \<noteq> 45 \<and> digit_char small d \<noteq> 120 \<and>
      (digit_char small d = 48 \<longleftrightarrow> d = 0)"
    using all assms by (cases small) simp_all
  then show "isxdigit (digit_char small d)" and "digit_value (digit_char small d) = of_nat d"
    and "digit_char small d \<noteq> 0" and "digit_char small d \<noteq> 45" and "digit_char small d \<noteq> 120"
    and "digit_char small d = 48 \<longleftrightarrow> d = 0"
    by blast+
qed

lemma digit_char_0 [simp]: "digit_char small 0 = 48"
  using digit_char_facts(6) [of 0] by simp

lemma unat_ucast_u32_64 [simp]: "unat (ucast (v::u32) :: 64 word) = unat v"
proof -
  have "unat v < 2 ^ 32" by (rule unat_u32_less)
  then show ?thesis by (simp add: unsigned_ucast_eq take_bit_nat_eq_self)
qed

lemma strtoul_digits_map:
  assumes "\<forall>d \<in> set ds. d < b" and "b \<le> 16"
  shows "strtoul_digits (of_nat b) (of_nat r) (map (digit_char small) ds @ 0 # t) =
     (of_nat (foldl (\<lambda>a d. a * b + d) r ds), 0 # t)"
  using assms(1)
proof (induction ds arbitrary: r)
  case (Cons d ds)
  then have d: "d < b" "d < 16" using assms(2) by auto
  then have lt: "(of_nat d :: u32) < of_nat b"
    using assms(2) by (simp add: word_less_nat_alt unat_of_nat)
  show ?case
    using d lt Cons.IH [of "r * b + d"] Cons.prems by (simp add: digit_char_facts)
qed simp

lemma simple_strtoul_digits:
  assumes "ds \<noteq> []" and "\<forall>d \<in> set ds. d < b" and "b \<le> 16" and "b \<noteq> 0"
  shows "simple_strtoul (map (digit_char small) ds @ 0 # t) (of_nat b) = of_nat (digits_value b ds)"
proof -
  obtain d ds' where ds: "ds = d # ds'" using assms(1) by (cases ds) auto
  have d: "d < 16" "\<forall>d \<in> set ds'. d < b" "\<forall>d \<in> set ds'. d < 16" using assms ds by auto
  have b: "(of_nat b :: u32) \<noteq> 0"
    using assms(3,4) by (simp add: unat_eq_0 [symmetric] unat_of_nat)
  have hd: "rd (map (digit_char small) ds' @ 0 # t) 0 \<noteq> 120"
    using d(3) by (cases ds') (auto simp: digit_char_facts)
  show ?thesis
    using d hd b strtoul_digits_map [OF d(2) assms(3), of 0 small t]
      strtoul_digits_map [OF assms(2,3), of 0 small t]
    by (auto simp: simple_strtoul_def simple_strtoul_end_def ds Let_def digits_value_def digit_char_facts)
qed

lemma digits_value_snoc: "digits_value b (ds @ [d]) = digits_value b ds * b + d"
  by (simp add: digits_value_def)

lemma digits_value_zeros: "digits_value b (replicate k 0 @ ds) = digits_value b ds"
  by (induction k) (simp_all add: digits_value_def)

lemma put_pow2_value: "0 < shift \<Longrightarrow> digits_value (2 ^ shift) (rev (put_pow2 shift num)) = num"
proof (induction shift num rule: put_pow2.induct)
  case (1 shift num)
  then show ?case
    by (cases "drop_bit shift num = 0")
      (auto simp: put_pow2.simps [of shift num] digits_value_snoc drop_bit_eq_div take_bit_eq_mod
         digits_value_def [of _ "[_]"] div_eq_0_iff div_mult_mod_eq)
qed

lemma put_pow2_digits: "d \<in> set (put_pow2 shift num) \<Longrightarrow> d < 2 ^ shift"
proof (induction shift num rule: put_pow2.induct)
  case (1 shift num)
  then show ?case
    by (auto simp: put_pow2.simps [of shift num] take_bit_eq_mod split: if_splits)
qed

lemma put_pow2_length: "num < 2 ^ (shift * k) \<Longrightarrow> 0 < k \<Longrightarrow> length (put_pow2 shift num) \<le> k"
proof (induction shift num arbitrary: k rule: put_pow2.induct)
  case (1 shift num)
  show ?case
  proof (cases "drop_bit shift num = 0 \<or> shift = 0")
    case True
    then show ?thesis using "1.prems"(2) by (auto simp: put_pow2.simps [of shift num])
  next
    case False
    then have "k \<noteq> 1" using "1.prems"(1) by (auto simp: drop_bit_eq_div)
    with "1.prems"(2) obtain j where j: "k = Suc j" "0 < j" by (cases k) auto
    have "drop_bit shift num < 2 ^ (shift * j)"
      using "1.prems"(1) j by (simp add: drop_bit_eq_div power_add mult.commute less_mult_imp_div_less)
    then show ?thesis using "1.IH" False j by (simp add: put_pow2.simps [of shift num])
  qed
qed

lemma put_pow2_nonempty [simp]: "put_pow2 shift num \<noteq> []"
  by (subst put_pow2.simps) simp

lemma put_pow2_0: "put_pow2 shift 0 = [0]"
  by (subst put_pow2.simps) simp

text \<open>The two formats as digit lists.\<close>

lemma sprintf_0o_eq:
  "sprintf_0o w v = map (digit_char False)
     (replicate (nat (w - int (length (put_pow2 3 (unat v))))) 0 @ rev (put_pow2 3 (unat v)))"
  by (cases "unat v = 0")
    (auto simp: sprintf_0o_def number_def no_flags_def Let_def put_pow2_0 rev_map map_replicate_const)

lemma sprintf_x_eq: "sprintf_x v = map (digit_char True) (rev (put_pow2 4 (unat v)))"
  by (cases "unat v = 0")
    (auto simp: sprintf_x_def number_def no_flags_def Let_def put_pow2_0 rev_map)

lemma simple_strtol_printed:
  assumes "ds \<noteq> []" and "\<forall>d \<in> set ds. d < b" and "b \<le> 16" and "b \<noteq> 0"
  shows "simple_strtol (map (digit_char small) ds @ 0 # t) (of_nat b) = of_nat (digits_value b ds)"
proof -
  have "rd (map (digit_char small) ds @ 0 # t) 0 \<noteq> 45"
    using assms by (cases ds) (auto simp: digit_char_facts)
  then show ?thesis
    by (simp add: simple_strtol_def simple_strtoul_digits [OF assms])
qed

lemma strtol_octal: "simple_strtol (sprintf_0o w v @ 0 # t) 8 = v"
proof -
  let ?ds = "replicate (nat (w - int (length (put_pow2 3 (unat v))))) 0 @ rev (put_pow2 3 (unat v))"
  have "simple_strtol (map (digit_char False) ?ds @ 0 # t) (of_nat 8) = of_nat (digits_value 8 ?ds)"
    by (rule simple_strtol_printed) (auto dest: put_pow2_digits)
  also have "digits_value 8 ?ds = unat v"
    using put_pow2_value [of 3 "unat v"] by (simp add: digits_value_zeros)
  finally show ?thesis by (simp add: sprintf_0o_eq)
qed

text \<open>Hexadecimal numbers, with small or capital letters.\<close>

lemma strtoul_hex: "simple_strtoul (map (digit_char small) (rev (put_pow2 4 (unat v))) @ 0 # t) 16 = v"
proof -
  have "simple_strtoul (map (digit_char small) (rev (put_pow2 4 (unat v))) @ 0 # t) (of_nat 16) =
      of_nat (digits_value 16 (rev (put_pow2 4 (unat v))))"
    by (rule simple_strtoul_digits) (auto dest: put_pow2_digits)
  also have "digits_value 16 (rev (put_pow2 4 (unat v))) = unat v"
    using put_pow2_value [of 4 "unat v"] by simp
  finally show ?thesis by simp
qed

lemma strtoul_sprintf_x: "simple_strtoul (sprintf_x v @ 0 # t) 16 = v"
  by (simp add: sprintf_x_eq strtoul_hex)

lemma length_sprintf_0o:
  assumes "unat v < 2 ^ (3 * k)" and "0 < k"
  shows "length (sprintf_0o (int k) v) = k"
  using put_pow2_length [OF assms] by (simp add: sprintf_0o_eq)

end
