(* ===== verification/Tar.thy ===== *)
theory Tar
  imports Vsprintf "HOL-Library.Monad_Syntax"
begin

text \<open>
  The tar archive of the factory area: \<^verbatim>\<open>u-boot32/lib/tar.c\<close> over the 512-byte
  \<^verbatim>\<open>posix_header\<close> of \<^verbatim>\<open>u-boot32/include/tar.h\<close>.

  A header is the 512 bytes of the structure; its fields are read at their offsets. The
  archive is a byte list, walked by the two readers and rewritten by \<^verbatim>\<open>tar_add_or_delete\<close>.
  All three loops trust the size field of the headers they pass, so they are partial
  functions: \<open>None\<close> stands for an access outside the area and for a walk that never ends.
  The abstract view is a list of entries, a header with its padded contents.
\<close>

section \<open>Headers\<close>

text \<open>The fields of \<^verbatim>\<open>posix_header\<close> the code reads through, as pointers.\<close>

definition hdr_size :: "byte list \<Rightarrow> byte list" where "hdr_size p = drop 124 p"
definition hdr_chksum :: "byte list \<Rightarrow> byte list" where "hdr_chksum p = drop 148 p"
definition hdr_signature :: "byte list \<Rightarrow> byte list" where "hdr_signature p = drop 508 p"

definition tar_checksum :: "byte list \<Rightarrow> u32" where
  "tar_checksum data =
     (\<Sum>i\<leftarrow>[0..<148]. ucast (rd data i)) + (\<Sum>i\<leftarrow>[156..<512]. ucast (rd data i))
     + (\<Sum>i\<leftarrow>[0..<8]. 32)"

text \<open>\<open>0\<close> when the header is accepted, \<open>-1\<close> otherwise.\<close>

definition tar_check_header :: "byte list \<Rightarrow> int" where
  "tar_check_header header =
     (if \<not> isascii (rd header 0) then - 1
      else if tar_checksum header \<noteq> simple_strtol (hdr_chksum header) 8 then - 1
      else 0)"

definition tar_fill_checksum :: "byte list \<Rightarrow> byte list" where
  "tar_fill_checksum header =
     (let h1 = patch 148 (sprintf_0o 6 (tar_checksum header) @ [0]) header;
          h2 = patch 154 [0] h1
      in patch 155 [0x20] h2)"

definition tar_build_header :: "byte list \<Rightarrow> byte list \<Rightarrow> u32 \<Rightarrow> byte \<Rightarrow> byte list" where
  "tar_build_header header filename len filetype =
     (let h = patch 0 (cstr filename @ [0]) header;
          h = patch 100 (bytes_of ''0000075'' @ [0]) h;
          h = patch 108 (bytes_of ''0001760'' @ [0]) h;
          h = patch 116 (bytes_of ''0001761'' @ [0]) h;
          h = patch 136 (bytes_of ''11720412623'' @ [0]) h;
          h = patch 156 [filetype] h;
          h = patch 157 (replicate 100 0) h;
          h = patch 124 (sprintf_0o 11 len @ [0]) h;
          h = patch 257 (bytes_of ''ustar'' @ [0]) h;
          h = patch 265 (replicate 32 0) h;
          h = patch 265 (bytes_of ''root'' @ [0]) h;
          h = patch 297 (replicate 32 0) h;
          h = patch 297 (bytes_of ''root'' @ [0]) h;
          h = patch 345 (replicate 155 0) h
      in tar_fill_checksum h)"

text \<open>The bytes a file takes behind its header, \<^verbatim>\<open>((n + 511) / 512) * 512\<close> in \<^verbatim>\<open>int\<close>.\<close>

definition file_blocks :: "u32 \<Rightarrow> int" where
  "file_blocks n = s32 (s32 (sint n + 511) sdiv 512 * 512)"

section \<open>Reading\<close>

text \<open>\<^verbatim>\<open>tar_read_by_index\<close>: the loop carries \<^verbatim>\<open>index\<close>, \<^verbatim>\<open>pos\<close>, the current header and data
  pointers (offsets, \<open>None\<close> is NULL) and \<^verbatim>\<open>file_size\<close>.\<close>

partial_function (option) tar_index_loop ::
  "byte list \<Rightarrow> int \<Rightarrow> int \<Rightarrow> nat option \<Rightarrow> u32 \<Rightarrow> (int \<times> nat option \<times> u32) option" where
  "tar_index_loop src index pos header file_size =
     (if index < 0 then Some (index, header, file_size)
      else if pos < 0 \<or> int (length src) < pos + 512 then None
      else let h = drop (nat pos) src in
        if tar_check_header h < 0 then Some (index, Some (nat pos), file_size)
        else
          let file_size = simple_strtol (hdr_size h) 8;
              pos' = s32 (s32 (pos + 512) + file_blocks file_size);
              pfx = bytes_of ''tmp/factory/env/''
          in if strncmp h pfx (length pfx) \<noteq> 0
             then tar_index_loop src index pos' (Some (nat pos)) file_size
             else tar_index_loop src (index - 1) pos' (Some (nat pos)) file_size)"

text \<open>The result is the return value and, when \<^verbatim>\<open>dst_addr\<close> is given, the two strings copied
  to \<^verbatim>\<open>name\<close> and \<^verbatim>\<open>dst_addr\<close>. The length is stored through \<^verbatim>\<open>length\<close> unless that is NULL;
  it is the return value.\<close>

definition tar_read_by_index ::
  "int \<Rightarrow> byte list \<Rightarrow> bool \<Rightarrow> (int \<times> (byte list \<times> byte list) option) option" where
  "tar_read_by_index index src want_data =
     (case tar_index_loop src index 0 None 0 of
        None \<Rightarrow> None
      | Some (index', header, file_size) \<Rightarrow>
          if index' \<ge> 0 then Some (- 1, None)
          else if want_data then
            (case header of
               None \<Rightarrow> None
             | Some off \<Rightarrow> Some (sint file_size,
                 Some (cstr (drop off src), cstr (drop (off + 512) src))))
          else Some (sint file_size, None))"

text \<open>\<^verbatim>\<open>tar_read\<close> works on addresses: \<^verbatim>\<open>src_addr\<close> is the address of the area \<open>mem\<close> and \<^verbatim>\<open>fd\<close>
  the address of the current header, compared as signed integers at the end of a step.
  It returns \<open>Tar_none\<close> for 0, and the address of the header with the two values stored
  through \<^verbatim>\<open>dst_addr\<close> and \<^verbatim>\<open>dst_length\<close> otherwise. \<open>out\<close> collects the names printed when
  \<^verbatim>\<open>tar_read_print_info\<close> is set.\<close>

datatype tar_result = Tar_none | Tar_found u32 u32 u32

partial_function (option) tar_read_loop ::
  "byte list \<Rightarrow> u32 \<Rightarrow> byte list \<Rightarrow> u32 \<Rightarrow> bool \<Rightarrow> byte list \<Rightarrow> u32 \<Rightarrow> byte list list \<Rightarrow>
   (tar_result \<times> byte list list) option" where
  "tar_read_loop s src_addr mem len print_info print_prefix fd out =
     (let off = unat (fd - src_addr); header = drop off mem in
      if length mem \<le> off then None
      else if rd header 0 = 0 then Some (Tar_none, out)
      else if length mem < off + 512 then None
      else
        let sum = tar_checksum header in
        if tar_check_header header < 0 then Some (Tar_none, out)
        else
          let out' = (if print_info
                \<and> strncmp print_prefix header (length (cstr print_prefix)) = 0
                then out @ [cstr header] else out) in
          if strncmp s header 100 = 0 then
            (if sum \<noteq> simple_strtol (hdr_chksum header) 8 then Some (Tar_none, out')
             else Some (Tar_found fd (fd + 512) (simple_strtol (hdr_size header) 8), out'))
          else
            let len1 = simple_strtol (hdr_size header) 8;
                len2 = s32 ((s32 (sint len1 + 511) sdiv 512 + 1) * 512);
                fd' = fd + word_of_int len2
            in if sint fd' > sint (src_addr + len) then Some (Tar_none, out')
               else tar_read_loop s src_addr mem len print_info print_prefix fd' out')"

definition tar_read ::
  "byte list \<Rightarrow> u32 \<Rightarrow> byte list \<Rightarrow> u32 \<Rightarrow> bool \<Rightarrow> byte list \<Rightarrow>
   (tar_result \<times> byte list list) option" where
  "tar_read s src_addr mem len print_info print_prefix =
     tar_read_loop s src_addr mem len print_info print_prefix src_addr []"

section \<open>Rewriting\<close>

text \<open>The local variables of \<^verbatim>\<open>tar_add_or_delete\<close>.\<close>

record tar_state =
  t_dst :: "byte list"
  t_tmp :: "byte list"
  t_pos :: int
  t_tmp_pos :: int
  t_done :: bool

text \<open>A \<^verbatim>\<open>memcpy\<close> of \<open>n\<close> bytes at an \<^verbatim>\<open>int\<close> offset; the length is a \<^verbatim>\<open>size_t\<close>, so a negative one is
  out of range.\<close>

definition memcpy_to :: "byte list \<Rightarrow> int \<Rightarrow> byte list \<Rightarrow> int \<Rightarrow> byte list option" where
  "memcpy_to dst off src n =
     (if off < 0 \<or> n < 0 \<or> int (length src) < n then None
      else memcpy_at (nat off) (take (nat n) src) dst)"

text \<open>\<^verbatim>\<open>tar_build_header\<close> on a header inside a larger buffer.\<close>

definition build_header_at ::
  "byte list \<Rightarrow> int \<Rightarrow> byte list \<Rightarrow> u32 \<Rightarrow> byte \<Rightarrow> byte list option" where
  "build_header_at buf off filename len filetype =
     (if off < 0 \<or> int (length buf) < off + 512
         \<or> int (length buf) < off + int (length (cstr filename)) + 1 then None
      else Some (take (nat off) buf @ tar_build_header (drop (nat off) buf) filename len filetype))"

text \<open>The test of the \<^verbatim>\<open>while\<close> loop together with the check that leaves it.\<close>

definition tar_loop_test :: "tar_state \<Rightarrow> bool option" where
  "tar_loop_test st =
     (if t_pos st < 0 \<or> int (length (t_dst st)) \<le> t_pos st then None
      else let header = drop (nat (t_pos st)) (t_dst st) in
        if rd header 0 = 0 then Some False
        else if int (length (t_dst st)) < t_pos st + 512 then None
        else Some (\<not> tar_check_header header < 0))"

text \<open>Emitting the new entry: header, contents and the advance of \<^verbatim>\<open>tmp_pos\<close>.\<close>

definition tar_emit :: "byte list \<Rightarrow> byte list \<Rightarrow> u32 \<Rightarrow> tar_state \<Rightarrow> tar_state option" where
  "tar_emit header src_buf len st = do {
     tmp1 \<leftarrow> memcpy_to (t_tmp st) (t_tmp_pos st) header 512;
     let p1 = s32 (t_tmp_pos st + 512);
     tmp2 \<leftarrow> memcpy_to tmp1 p1 src_buf (sint len);
     Some (st\<lparr>t_tmp := tmp2, t_tmp_pos := s32 (p1 + file_blocks len)\<rparr>)
   }"

definition tar_loop_body ::
  "byte list \<Rightarrow> byte list \<Rightarrow> u32 \<Rightarrow> bool \<Rightarrow> tar_state \<Rightarrow> tar_state option" where
  "tar_loop_body filename src_buf len addordel st =
     (let header = drop (nat (t_pos st)) (t_dst st);
          file_size = file_blocks (simple_strtol (hdr_size header) 8);
          next = s32 (s32 (t_pos st + 512) + file_size)
      in
      if strstr_at_start header filename then
        (if addordel \<and> \<not> t_done st then do {
           dst1 \<leftarrow> build_header_at (t_dst st) (t_pos st) filename len 48;
           st1 \<leftarrow> tar_emit (drop (nat (t_pos st)) dst1) src_buf len (st\<lparr>t_dst := dst1\<rparr>);
           Some (st1\<lparr>t_done := True, t_pos := next\<rparr>)
         }
         else Some (st\<lparr>t_pos := next\<rparr>))
      else if strcmp (hdr_signature header) (bytes_of ''RTK'') \<noteq> 0 \<or> t_pos st = 0 then do {
        tmp1 \<leftarrow> memcpy_to (t_tmp st) (t_tmp_pos st) header (s32 (512 + file_size));
        Some (st\<lparr>t_tmp := tmp1, t_tmp_pos := s32 (t_tmp_pos st + s32 (512 + file_size)),
                 t_pos := next\<rparr>)
      }
      else Some (st\<lparr>t_pos := next\<rparr>))"

partial_function (option) tar_walk ::
  "byte list \<Rightarrow> byte list \<Rightarrow> u32 \<Rightarrow> bool \<Rightarrow> tar_state \<Rightarrow> tar_state option" where
  "tar_walk filename src_buf len addordel st =
     do {
       go \<leftarrow> tar_loop_test st;
       if go then do {
         st' \<leftarrow> tar_loop_body filename src_buf len addordel st;
         tar_walk filename src_buf len addordel st'
       } else Some st
     }"

text \<open>The code after the loop: append the new file when no entry took its place, end the
  archive with a NUL, and copy the result back.\<close>

definition tar_finish ::
  "byte list \<Rightarrow> byte list \<Rightarrow> u32 \<Rightarrow> bool \<Rightarrow> tar_state \<Rightarrow> (int \<times> byte list \<times> byte list) option" where
  "tar_finish filename src_buf len addordel st = do {
     st1 \<leftarrow> (if \<not> t_done st \<and> addordel then do {
               tmp1 \<leftarrow> build_header_at (t_tmp st) (t_tmp_pos st) filename len 48;
               tar_emit (drop (nat (t_tmp_pos st)) tmp1) src_buf len (st\<lparr>t_tmp := tmp1\<rparr>)
             } else Some st);
     tmp2 \<leftarrow> memcpy_to (t_tmp st1) (t_tmp_pos st1) [0] 1;
     dst1 \<leftarrow> memcpy_to (t_dst st1) 0 (replicate (nat (t_pos st1)) 0) (t_pos st1);
     dst2 \<leftarrow> memcpy_to dst1 0 tmp2 (t_tmp_pos st1);
     Some (t_tmp_pos st1, dst2, tmp2)
   }"

definition tar_add_or_delete ::
  "byte list \<Rightarrow> byte list \<Rightarrow> byte list \<Rightarrow> u32 \<Rightarrow> byte list option \<Rightarrow> nat \<Rightarrow> bool \<Rightarrow>
   (int \<times> byte list \<times> byte list option) option" where
  "tar_add_or_delete dst_tar_buf filename src_buf len tmp_buf tmp_buf_length addordel =
     (case tmp_buf of
        None \<Rightarrow> Some (0, dst_tar_buf, None)
      | Some tmp \<Rightarrow> do {
          tmp0 \<leftarrow> memcpy_at 0 (replicate tmp_buf_length 0) tmp;
          st \<leftarrow> tar_walk filename src_buf len addordel
             \<lparr>t_dst = dst_tar_buf, t_tmp = tmp0, t_pos = 0, t_tmp_pos = 0, t_done = False\<rparr>;
          (ret, dst, tmp') \<leftarrow> tar_finish filename src_buf len addordel st;
          Some (ret, dst, Some tmp')
        })"

section \<open>Lemmas on strings and headers\<close>

lemma rd_0_cstr [simp]: "rd (cstr p) 0 = rd p 0"
  by (cases p) (auto simp: cstr_Cons)

lemma cstr_drop1: "rd p 0 \<noteq> 0 \<Longrightarrow> drop 1 (cstr p) = cstr (drop 1 p)"
  by (cases p) (auto simp: cstr_Cons)

lemma strtoul_digits_cstr:
  "fst (strtoul_digits base r (cstr p)) = fst (strtoul_digits base r p)"
  by (induction p arbitrary: r) (auto simp: cstr_Cons)

lemma simple_strtoul_cstr: "simple_strtoul (cstr p) base = simple_strtoul p base"
proof (cases "rd p 0 = 48")
  case True
  let ?p1 = "drop 1 p"
  have 1: "drop 1 (cstr p) = cstr ?p1" using True by (intro cstr_drop1) simp
  have 2: "drop 1 (cstr ?p1) = cstr (drop 1 ?p1)" if "rd ?p1 0 = 120"
    using that by (intro cstr_drop1) simp
  have 3: "rd (cstr ?p1) 1 = rd ?p1 1" if "rd ?p1 0 = 120"
  proof -
    have "rd (cstr ?p1) 1 = rd (drop 1 (cstr ?p1)) 0" by simp
    also have "\<dots> = rd (cstr (drop 1 ?p1)) 0" by (simp only: 2 [OF that])
    also have "\<dots> = rd ?p1 1" by simp
    finally show ?thesis .
  qed
  show ?thesis
    unfolding simple_strtoul_def simple_strtoul_end_def Let_def 1 rd_0_cstr
    using True 2 3 by (auto simp: strtoul_digits_cstr simp del: drop_drop rd_drop)
next
  case False
  then show ?thesis
    by (simp add: simple_strtoul_def simple_strtoul_end_def strtoul_digits_cstr)
qed

lemma simple_strtol_cstr: "simple_strtol (cstr p) base = simple_strtol p base"
  using cstr_drop1 [of p] by (auto simp: simple_strtol_def simple_strtoul_cstr)

lemma cstr_append_term: "0 \<in> set p \<Longrightarrow> cstr (p @ q) = cstr p"
  by (induction p) (auto simp: cstr_Cons)

lemma cstr_take_term: "0 \<in> set (take n p) \<Longrightarrow> cstr (take n p) = cstr p"
  by (metis append_take_drop_id cstr_append_term)

lemma simple_strtol_append_term:
  "0 \<in> set p \<Longrightarrow> simple_strtol (p @ q) base = simple_strtol p base"
  by (metis cstr_append_term simple_strtol_cstr)

lemma cstr_rdI:
  assumes "\<And>i. i < length s \<Longrightarrow> rd p i = s ! i" and "rd p (length s) = 0" and "0 \<notin> set s"
  shows "cstr p = s"
  using assms
proof (induction s arbitrary: p)
  case Nil
  then show ?case by (cases p) (auto simp: cstr_Cons)
next
  case (Cons b s)
  from Cons.prems(1) [of 0] Cons.prems(3) have "rd p 0 = b" "b \<noteq> 0" by auto
  then obtain p' where p: "p = b # p'" by (cases p) auto
  have "cstr p' = s"
    using Cons.prems(1) [of "Suc _"] Cons.prems(2,3) p by (intro Cons.IH) auto
  then show ?case using \<open>b \<noteq> 0\<close> p by (simp add: cstr_Cons)
qed

subsection \<open>Checksums\<close>

lemma tar_checksum_cong:
  "(\<And>i. i < 512 \<Longrightarrow> i < 148 \<or> 156 \<le> i \<Longrightarrow> rd p i = rd q i) \<Longrightarrow> tar_checksum p = tar_checksum q"
  unfolding tar_checksum_def
  by (intro arg_cong2 [where f = "(+)"] arg_cong [where f = sum_list] map_cong) auto

lemma unat_sum_list_le:
  "(\<And>x. x \<in> set xs \<Longrightarrow> unat (f x) \<le> k) \<Longrightarrow> unat (\<Sum>x\<leftarrow>xs. f x :: u32) \<le> length xs * k"
proof (induction xs)
  case (Cons x xs)
  have "unat (f x + (\<Sum>x\<leftarrow>xs. f x)) \<le> unat (f x) + unat (\<Sum>x\<leftarrow>xs. f x)"
    by (simp add: unat_word_ariths)
  then show ?case using Cons.IH Cons.prems [of x] Cons.prems by force
qed simp

lemma unat_ucast_byte: "unat (ucast (b::byte) :: u32) \<le> 255"
proof -
  have "unat b < 2 ^ LENGTH(8)" by (rule unsigned_less)
  then show ?thesis by (simp add: unsigned_ucast_eq take_bit_nat_eq_self)
qed

lemma unat_add_le: "unat (x::u32) \<le> a \<Longrightarrow> unat y \<le> b \<Longrightarrow> unat (x + y) \<le> a + b"
  using mod_less_eq_dividend [of "unat x + unat y" "2 ^ 32"] by (simp add: unat_word_ariths)

lemma tar_checksum_bound: "unat (tar_checksum p) < 2 ^ (3 * 6)"
proof -
  have s: "unat (\<Sum>i\<leftarrow>xs. (ucast (rd p i) :: u32)) \<le> length xs * 255" for xs
    by (rule unat_sum_list_le) (rule unat_ucast_byte)
  have "unat (\<Sum>i\<leftarrow>[0..<8]. 32 :: u32) \<le> length [0..<8] * 32"
    by (rule unat_sum_list_le) simp
  then have "unat (tar_checksum p) \<le> length [0..<148] * 255 + length [156..<512] * 255 + length [0..<8] * 32"
    unfolding tar_checksum_def by (intro unat_add_le s)
  then show ?thesis by simp
qed

lemma length_checksum_string [simp]: "length (sprintf_0o 6 (tar_checksum p)) = 6"
  using length_sprintf_0o [OF tar_checksum_bound, of p] by simp

lemma patch_patch_append:
  "n = off + length a \<Longrightarrow> length c \<le> length b \<Longrightarrow> off \<le> length p \<Longrightarrow>
   patch n b (patch off (a @ c) p) = patch off (a @ b) p"
  by (simp add: patch_def ac_simps)

lemma tar_fill_checksum_eq:
  assumes "512 \<le> length p"
  shows "tar_fill_checksum p = patch 148 (sprintf_0o 6 (tar_checksum p) @ [0, 0x20]) p"
proof -
  let ?s = "sprintf_0o 6 (tar_checksum p)"
  have "patch 154 [0] (patch 148 (?s @ [0]) p) = patch 148 (?s @ [0]) p"
    using assms by (intro patch_patch_append) auto
  moreover have "patch 155 [0x20] (patch 148 ((?s @ [0]) @ []) p) = patch 148 ((?s @ [0]) @ [0x20]) p"
    using assms by (intro patch_patch_append) auto
  ultimately show ?thesis by (simp add: tar_fill_checksum_def)
qed


lemma tar_fill_checksum_rd:
  "512 \<le> length p \<Longrightarrow> i < 148 \<or> 156 \<le> i \<Longrightarrow> rd (tar_fill_checksum p) i = rd p i"
  by (auto simp: tar_fill_checksum_eq rd_patch)

lemma length_tar_fill_checksum [simp]:
  "512 \<le> length p \<Longrightarrow> length (tar_fill_checksum p) = length p"
  by (simp add: tar_fill_checksum_eq)

lemma tar_checksum_fill [simp]: "512 \<le> length p \<Longrightarrow> tar_checksum (tar_fill_checksum p) = tar_checksum p"
  by (rule tar_checksum_cong) (rule tar_fill_checksum_rd)

lemma chksum_field_fill:
  "512 \<le> length p \<Longrightarrow>
   hdr_chksum (tar_fill_checksum p) = sprintf_0o 6 (tar_checksum p) @ 0 # 0x20 # drop 156 p"
  by (simp add: tar_fill_checksum_eq hdr_chksum_def drop_patch_eq)

lemma tar_check_fill:
  "512 \<le> length p \<Longrightarrow> tar_check_header (tar_fill_checksum p) = (if isascii (rd p 0) then 0 else - 1)"
  by (simp add: tar_check_header_def tar_fill_checksum_rd chksum_field_fill strtol_octal)

lemma tar_check_header_values: "tar_check_header p = 0 \<or> tar_check_header p = - 1"
  by (simp add: tar_check_header_def)

subsection \<open>Built headers\<close>

lemma length_size_string [simp]: "length (sprintf_0o 11 len) = 11"
proof -
  have "unat len < 2 ^ (3 * 11)" using unat_u32_less [of len] by simp
  from length_sprintf_0o [OF this] show ?thesis by simp
qed

text \<open>A header is filled by a series of writes. Reading it back looks for the last write that
  covers the position.\<close>

definition patches :: "(nat \<times> byte list) list \<Rightarrow> byte list \<Rightarrow> byte list" where
  "patches ws p = fold (\<lambda>(off, new). patch off new) ws p"

fun rd_writes :: "(nat \<times> byte list) list \<Rightarrow> byte list \<Rightarrow> nat \<Rightarrow> byte" where
  "rd_writes [] p i = rd p i"
| "rd_writes ((off, new) # ws) p i =
     (if off \<le> i \<and> i < off + length new then new ! (i - off) else rd_writes ws p i)"

lemma length_patches:
  "(\<And>w. w \<in> set ws \<Longrightarrow> fst w + length (snd w) \<le> length p) \<Longrightarrow> length (patches ws p) = length p"
  by (induction ws arbitrary: p) (auto simp: patches_def split: prod.splits)

lemma rd_patches:
  "(\<And>w. w \<in> set ws \<Longrightarrow> fst w + length (snd w) \<le> length p) \<Longrightarrow>
   rd (patches ws p) i = rd_writes (rev ws) p i"
proof (induction ws rule: rev_induct)
  case (snoc w ws)
  then have "length (patches ws p) = length p"
    by (intro length_patches) auto
  moreover from snoc have "fst w + length (snd w) \<le> length p" by auto
  ultimately show ?case
    using snoc by (cases w) (auto simp: patches_def rd_patch)
qed (simp add: patches_def)

definition header_writes :: "byte list \<Rightarrow> u32 \<Rightarrow> byte \<Rightarrow> (nat \<times> byte list) list" where
  "header_writes f len t =
     [(0, cstr f @ [0]), (100, bytes_of ''0000075'' @ [0]), (108, bytes_of ''0001760'' @ [0]),
      (116, bytes_of ''0001761'' @ [0]), (136, bytes_of ''11720412623'' @ [0]), (156, [t]),
      (157, replicate 100 0), (124, sprintf_0o 11 len @ [0]), (257, bytes_of ''ustar'' @ [0]),
      (265, replicate 32 0), (265, bytes_of ''root'' @ [0]), (297, replicate 32 0),
      (297, bytes_of ''root'' @ [0]), (345, replicate 155 0)]"

lemma tar_build_header_patches:
  "tar_build_header p f len t = tar_fill_checksum (patches (header_writes f len t) p)"
  by (simp add: tar_build_header_def patches_def header_writes_def)

lemma header_writes_fit:
  assumes "512 \<le> length p" and "length (cstr f) < length p" and "w \<in> set (header_writes f len t)"
  shows "fst w + length (snd w) \<le> length p"
  using assms by (auto simp: header_writes_def)

lemma length_header_patches [simp]:
  "512 \<le> length p \<Longrightarrow> length (cstr f) < length p \<Longrightarrow>
   length (patches (header_writes f len t) p) = length p"
  by (rule length_patches) (rule header_writes_fit)

lemma length_tar_build_header [simp]:
  "512 \<le> length p \<Longrightarrow> length (cstr f) < length p \<Longrightarrow> length (tar_build_header p f len t) = length p"
  by (simp add: tar_build_header_patches)

lemma rd_tar_build_header:
  assumes "512 \<le> length p" and "length (cstr f) < 100" and "i < 148 \<or> 156 \<le> i"
  shows "rd (tar_build_header p f len t) i = rd_writes (rev (header_writes f len t)) p i"
proof -
  have f: "length (cstr f) < length p" using assms(1,2) by simp
  have "rd (patches (header_writes f len t) p) i = rd_writes (rev (header_writes f len t)) p i"
    by (rule rd_patches) (rule header_writes_fit [OF assms(1) f])
  then show ?thesis
    using assms f by (simp add: tar_build_header_patches tar_fill_checksum_rd)
qed

lemma tar_build_header_name:
  assumes "512 \<le> length p" and "length (cstr f) < 100" and "i \<le> length (cstr f)"
  shows "rd (tar_build_header p f len t) i = (cstr f @ [0]) ! i"
proof -
  have "i < 148" using assms by simp
  then show ?thesis
    using assms by (simp add: rd_tar_build_header header_writes_def nth_append)
qed

lemma tar_build_header_size:
  assumes "512 \<le> length p" and "length (cstr f) < 100" and "i < 12"
  shows "rd (tar_build_header p f len t) (124 + i) = (sprintf_0o 11 len @ [0]) ! i"
  using assms by (simp add: rd_tar_build_header header_writes_def)

lemma tar_build_header_typeflag:
  assumes "512 \<le> length p" and "length (cstr f) < 100"
  shows "rd (tar_build_header p f len t) 156 = t"
  using assms by (simp add: rd_tar_build_header header_writes_def)

lemma tar_build_header_keeps:
  assumes "512 \<le> length p" and "length (cstr f) < 100" and "500 \<le> i"
  shows "rd (tar_build_header p f len t) i = rd p i"
  using assms by (simp add: rd_tar_build_header header_writes_def)

section \<open>Well-formed archives\<close>

text \<open>The headers the walks accept: a name, a size and a checksum that end inside their
  fields, and a matching checksum.\<close>

definition hdr_ok :: "byte list \<Rightarrow> bool" where
  "hdr_ok h \<longleftrightarrow> length h = 512 \<and> rd h 0 \<noteq> 0 \<and> 0 \<in> set (take 100 h)
     \<and> 0 \<in> set (take 12 (hdr_size h)) \<and> 0 \<in> set (take 8 (hdr_chksum h))
     \<and> tar_check_header h = 0"

definition hdr_len :: "byte list \<Rightarrow> nat" where
  "hdr_len h = unat (simple_strtol (hdr_size h) 8)"

definition blocks :: "nat \<Rightarrow> nat" where
  "blocks n = (n + 511) div 512 * 512"

type_synonym entry = "byte list \<times> byte list"

definition entry_ok :: "entry \<Rightarrow> bool" where
  "entry_ok e \<longleftrightarrow> hdr_ok (fst e) \<and> length (snd e) = blocks (hdr_len (fst e))"

definition entry_name :: "entry \<Rightarrow> byte list" where
  "entry_name e = cstr (fst e)"

definition entry_data :: "entry \<Rightarrow> byte list" where
  "entry_data e = take (hdr_len (fst e)) (snd e)"

definition archive :: "entry list \<Rightarrow> byte list" where
  "archive es = concat (map (\<lambda>(h, b). h @ b) es)"

lemma archive_simps [simp]:
  "archive [] = []" "archive ((h, b) # es) = h @ b @ archive es"
  "archive (es @ es') = archive es @ archive es'"
  by (simp_all add: archive_def)

lemma blocks_bounds: "n \<le> blocks n" "blocks n < n + 512"
  by (simp_all add: blocks_def)

lemma in_take_rdI: "i < n \<Longrightarrow> i < length p \<Longrightarrow> rd p i = b \<Longrightarrow> b \<in> set (take n p)"
  by (auto simp: rd_def in_set_conv_nth intro!: exI [of _ i])

lemma term_in_take: "x \<in> set (take n p) \<Longrightarrow> x \<in> set p"
  by (rule in_set_takeD)

lemma hdr_ok_append:
  assumes "hdr_ok h"
  shows "cstr (h @ r) = cstr h"
    and "simple_strtol (hdr_size (h @ r)) 8 = simple_strtol (hdr_size h) 8"
    and "tar_check_header (h @ r) = 0"
    and "rd (h @ r) 0 \<noteq> 0"
proof -
  from assms have len: "length h = 512" by (simp add: hdr_ok_def)
  show "cstr (h @ r) = cstr h"
    using assms by (auto simp: hdr_ok_def intro!: cstr_append_term dest: in_set_takeD)
  show "simple_strtol (hdr_size (h @ r)) 8 = simple_strtol (hdr_size h) 8"
    using assms len
    by (auto simp: hdr_ok_def hdr_size_def intro!: simple_strtol_append_term dest: in_set_takeD)
  have "simple_strtol (hdr_chksum (h @ r)) 8 = simple_strtol (hdr_chksum h) 8"
    using assms len
    by (auto simp: hdr_ok_def hdr_chksum_def intro!: simple_strtol_append_term dest: in_set_takeD)
  moreover have "tar_checksum (h @ r) = tar_checksum h"
    using len by (intro tar_checksum_cong) (simp add: rd_append)
  ultimately show "tar_check_header (h @ r) = 0"
    using assms len by (simp add: hdr_ok_def tar_check_header_def rd_append split: if_splits)
  show "rd (h @ r) 0 \<noteq> 0"
    using assms len by (simp add: hdr_ok_def rd_append)
qed

lemma cstr_term_length: "0 \<in> set (take n p) \<Longrightarrow> length (cstr p) < n"
  by (induction p arbitrary: n) (auto simp: cstr_Cons take_Cons split: nat.splits if_splits)

lemma hdr_ok_name:
  assumes "hdr_ok h"
  shows "length (cstr h) < 100" "cstr h \<noteq> []"
proof -
  show "length (cstr h) < 100" using assms cstr_term_length [of 100 h] by (simp add: hdr_ok_def)
  show "cstr h \<noteq> []" using assms by (cases h) (auto simp: hdr_ok_def cstr_Cons)
qed

lemma hdr_ok_length: "hdr_ok h \<Longrightarrow> length h = 512"
  by (simp add: hdr_ok_def)

subsection \<open>A built header is well-formed\<close>

text \<open>The names the archive can hold: not empty, shorter than the name field, with an ASCII
  first byte.\<close>

definition tar_name :: "byte list \<Rightarrow> bool" where
  "tar_name f \<longleftrightarrow> cstr f \<noteq> [] \<and> length (cstr f) < 100 \<and> isascii (rd f 0)"

lemma rd_cstr_0: "cstr f \<noteq> [] \<Longrightarrow> rd f 0 \<noteq> 0" "cstr f \<noteq> [] \<Longrightarrow> cstr f ! 0 = rd f 0"
  by (cases f; auto simp: cstr_Cons split: if_splits)+

lemma patches_append:
  "(\<And>w. w \<in> set ws \<Longrightarrow> fst w + length (snd w) \<le> length p) \<Longrightarrow> patches ws (p @ q) = patches ws p @ q"
  by (induction ws arbitrary: p) (auto simp: patches_def patch_append_left split: prod.splits)

lemma tar_fill_checksum_append:
  "512 \<le> length p \<Longrightarrow> tar_fill_checksum (p @ q) = tar_fill_checksum p @ q"
proof -
  assume len: "512 \<le> length p"
  have "tar_checksum (p @ q) = tar_checksum p"
    using len by (intro tar_checksum_cong) (simp add: rd_append)
  then show ?thesis
    using len by (simp add: tar_fill_checksum_eq patch_append_left)
qed

lemma tar_build_header_append:
  assumes "512 \<le> length p" and "length (cstr f) < 100"
  shows "tar_build_header (p @ q) f len t = tar_build_header p f len t @ q"
proof -
  have f: "length (cstr f) < length p" using assms by simp
  have "patches (header_writes f len t) (p @ q) = patches (header_writes f len t) p @ q"
    by (rule patches_append) (rule header_writes_fit [OF assms(1) f])
  then show ?thesis
    using assms f by (simp add: tar_build_header_patches tar_fill_checksum_append)
qed

lemma cstr_build_header:
  assumes "512 \<le> length p" and "length (cstr f) < 100"
  shows "cstr (tar_build_header p f len t) = cstr f"
  by (rule cstr_rdI) (use assms in \<open>simp_all add: tar_build_header_name nth_append\<close>)

lemma simple_strtol_build_header:
  assumes "512 \<le> length p" and "length (cstr f) < 100"
  shows "simple_strtol (hdr_size (tar_build_header p f len t)) 8 = len"
proof -
  let ?q = "hdr_size (tar_build_header p f len t)"
  have "take 12 ?q = sprintf_0o 11 len @ [0]"
  proof (rule nth_equalityI)
    show "length (take 12 ?q) = length (sprintf_0o 11 len @ [0])"
      using assms by (simp add: hdr_size_def)
    fix i
    assume "i < length (take 12 ?q)"
    then show "take 12 ?q ! i = (sprintf_0o 11 len @ [0]) ! i"
      using assms tar_build_header_size [of p f i len t] by (simp add: hdr_size_def rd_nth)
  qed
  then have "?q = sprintf_0o 11 len @ 0 # drop 12 ?q"
    using append_take_drop_id [of 12 ?q] by simp
  then show ?thesis by (metis strtol_octal)
qed

lemma hdr_ok_build_header:
  assumes "length p = 512" and "tar_name f"
  shows "hdr_ok (tar_build_header p f len t)"
proof -
  let ?h = "tar_build_header p f len t"
  from assms have f: "length (cstr f) < 100" "cstr f \<noteq> []" "isascii (rd f 0)"
    by (simp_all add: tar_name_def)
  have n0: "rd ?h 0 = rd f 0"
    using assms f by (simp add: tar_build_header_name nth_append rd_cstr_0)
  have "0 \<in> set (take 100 ?h)"
    by (rule in_take_rdI [of "length (cstr f)"])
      (use assms f in \<open>simp_all add: tar_build_header_name nth_append\<close>)
  moreover have "0 \<in> set (take 12 (hdr_size ?h))"
    by (rule in_take_rdI [of 11])
      (use assms f in \<open>simp_all add: hdr_size_def tar_build_header_size [of _ _ 11, simplified] nth_append\<close>)
  moreover have "0 \<in> set (take 8 (hdr_chksum ?h))"
  proof (rule in_take_rdI [of 6])
    show "6 < length (hdr_chksum ?h)" using assms f by (simp add: hdr_chksum_def)
    show "rd (hdr_chksum ?h) 6 = 0"
      using assms f by (simp add: tar_build_header_patches chksum_field_fill rd_append)
  qed simp
  moreover have "tar_check_header ?h = 0"
  proof -
    have "rd (patches (header_writes f len t) p) 0 = rd ?h 0"
      using assms f by (simp add: tar_build_header_patches tar_fill_checksum_rd)
    then show ?thesis
      using assms f n0 by (simp add: tar_build_header_patches tar_check_fill)
  qed
  moreover have "rd ?h 0 \<noteq> 0" using n0 f by (simp add: rd_cstr_0)
  moreover have "length ?h = 512" using assms f by simp
  ultimately show ?thesis by (simp add: hdr_ok_def)
qed

section \<open>Reading a well-formed archive\<close>

lemma unat_of_nat_u32: "n < 2 ^ 32 \<Longrightarrow> unat (of_nat n :: u32) = n"
  by (simp add: unsigned_of_nat take_bit_nat_eq_self)

lemma sint_nat_u32: "k = unat (n::u32) \<Longrightarrow> k < 2 ^ 31 \<Longrightarrow> sint n = int k"
  using sint_eq_unat [of n] by simp

lemma blocks_sdiv: "int (k + 511) sdiv 512 * 512 = int (blocks k)"
  by (simp add: sdiv_nonneg blocks_def zdiv_int)

lemma s32_nat: "k < 2 ^ 31 \<Longrightarrow> s32 (int k) = int k"
  by (subst s32_id) auto

lemma file_blocks_eq:
  assumes "unat n + 511 < 2 ^ 31"
  shows "file_blocks n = int (blocks (unat n))"
proof -
  define k where "k = unat n"
  have k: "k + 511 < 2 ^ 31" using assms by (simp add: k_def)
  have s: "sint n = int k" by (rule sint_nat_u32 [OF k_def]) (use k in simp)
  have "s32 (int k + 511) = int (k + 511)"
    using s32_nat [OF k] by simp
  moreover have "blocks k < 2 ^ 31"
    using blocks_bounds(2) [of k] k by simp
  ultimately show ?thesis
    by (simp only: file_blocks_def s blocks_sdiv s32_nat k_def [symmetric])
qed

lemma read_step_eq:
  assumes "unat (n::u32) + 1023 < 2 ^ 31"
  shows "s32 ((s32 (sint n + 511) sdiv 512 + 1) * 512) = int (512 + blocks (unat n))"
proof -
  define k where "k = unat n"
  have k: "k + 1023 < 2 ^ 31" using assms by (simp add: k_def)
  have s: "sint n = int k" by (rule sint_nat_u32 [OF k_def]) (use k in simp)
  have "s32 (int k + 511) = int (k + 511)"
    using s32_nat [of "k + 511"] k by simp
  moreover have "(int (k + 511) sdiv 512 + 1) * 512 = int (512 + blocks k)"
    using blocks_sdiv [of k] by (simp add: distrib_right)
  moreover have "512 + blocks k < 2 ^ 31"
    using blocks_bounds(2) [of k] k by simp
  ultimately show ?thesis
    by (simp only: s s32_nat k_def [symmetric])
qed

text \<open>The entry a reader finds, with its offset.\<close>

fun tar_find :: "byte list \<Rightarrow> nat \<Rightarrow> entry list \<Rightarrow> (nat \<times> entry) option" where
  "tar_find s off [] = None"
| "tar_find s off (e # es) =
     (if take 100 (cstr s) = entry_name e then Some (off, e)
      else tar_find s (off + 512 + length (snd e)) es)"

text \<open>The entries it passes on the way, the found one included.\<close>

fun tar_passed :: "byte list \<Rightarrow> entry list \<Rightarrow> entry list" where
  "tar_passed s [] = []"
| "tar_passed s (e # es) =
     e # (if take 100 (cstr s) = entry_name e then [] else tar_passed s es)"

definition tar_listed :: "bool \<Rightarrow> byte list \<Rightarrow> entry list \<Rightarrow> byte list list" where
  "tar_listed print_info pfx es =
     (if print_info
      then map entry_name (filter (\<lambda>e. cstr pfx = take (length (cstr pfx)) (entry_name e)) es)
      else [])"

definition found_result :: "u32 \<Rightarrow> (nat \<times> entry) option \<Rightarrow> tar_result" where
  "found_result src_addr r =
     (case r of None \<Rightarrow> Tar_none
      | Some (off, e) \<Rightarrow> Tar_found (src_addr + of_nat off) (src_addr + of_nat off + 512)
          (of_nat (hdr_len (fst e))))"

lemma hdr_len_blocks: "entry_ok e \<Longrightarrow> hdr_len (fst e) \<le> length (snd e)"
  using blocks_bounds(1) by (simp add: entry_ok_def)

lemma tar_listed_Cons:
  "tar_listed print_info pfx (e # es) =
     (if print_info \<and> cstr pfx = take (length (cstr pfx)) (entry_name e)
      then entry_name e # tar_listed print_info pfx es else tar_listed print_info pfx es)"
  by (simp add: tar_listed_def)

lemma unat_addr_diff:
  "n < 2 ^ 32 \<Longrightarrow> unat ((a :: u32) + of_nat n - a) = n"
  by (simp add: unat_of_nat_u32)

lemma sint_addr:
  assumes "unat (a :: u32) + n < 2 ^ 31"
  shows "sint (a + of_nat n) = int (unat a + n)"
proof -
  have n: "unat (of_nat n :: u32) = n" using assms by (simp add: unat_of_nat_u32)
  have "unat (a + of_nat n) = unat a + n"
    using assms n by (simp add: unat_word_ariths)
  then show ?thesis using assms by (subst sint_eq_unat) auto
qed

lemma tar_read_loop_archive:
  assumes "\<forall>e \<in> set es. entry_ok e"
    and "mem = pre @ archive es @ 0 # rest"
    and "unat src_addr + length mem + 1024 < 2 ^ 31"
    and "length (pre @ archive es) \<le> unat len" and "unat src_addr + unat len < 2 ^ 31"
  shows "tar_read_loop s src_addr mem len pi pfx (src_addr + of_nat (length pre)) out =
    Some (found_result src_addr (tar_find s (length pre) es), out @ tar_listed pi pfx (tar_passed s es))"
  using assms
proof (induction es arbitrary: pre out)
  case Nil
  have "unat (src_addr + of_nat (length pre) - src_addr) = length pre"
    using Nil.prems by (intro unat_addr_diff) auto
  then show ?case
    using Nil.prems by (subst tar_read_loop.simps) (simp add: found_result_def tar_listed_def)
next
  case (Cons e es)
  obtain h b where e: "e = (h, b)" by (cases e)
  from Cons.prems(1) e have h: "hdr_ok h" and b: "length b = blocks (hdr_len h)" and es: "\<forall>e \<in> set es. entry_ok e"
    by (auto simp: entry_ok_def)
  let ?fd = "src_addr + of_nat (length pre)"
  let ?n = "simple_strtol (hdr_size h) 8"
  let ?rest = "b @ archive es @ 0 # rest"
  have mem: "mem = pre @ h @ ?rest" using Cons.prems(2) e by simp
  have off: "unat (?fd - src_addr) = length pre"
    using Cons.prems(3) mem by (intro unat_addr_diff) auto
  have hl [simp]: "length h = 512" using h by (rule hdr_ok_length)
  have nm: "take 100 (cstr h) = cstr h" using hdr_ok_name(1) [OF h] by simp
  have n: "unat ?n + 1023 < 2 ^ 31"
    using Cons.prems(3) mem b blocks_bounds(1) [of "hdr_len h"] by (simp add: hdr_len_def)
  have sum: "tar_checksum (h @ ?rest) = simple_strtol (hdr_chksum (h @ ?rest)) 8"
    using hdr_ok_append(3) [OF h, of ?rest] by (simp add: tar_check_header_def split: if_splits)
  have pfx: "strncmp pfx (h @ ?rest) (length (cstr pfx)) = 0
      \<longleftrightarrow> cstr pfx = take (length (cstr pfx)) (entry_name e)"
    by (simp add: strncmp_eq_0 e entry_name_def hdr_ok_append [OF h])
  have s: "strncmp s (h @ ?rest) 100 = 0 \<longleftrightarrow> take 100 (cstr s) = entry_name e"
    by (simp add: strncmp_eq_0 e entry_name_def nm hdr_ok_append [OF h])
  let ?out = "if pi \<and> cstr pfx = take (length (cstr pfx)) (entry_name e) then out @ [entry_name e] else out"
  let ?len2 = "512 + blocks (unat ?n)"
  have fd': "?fd + word_of_int (int ?len2) = src_addr + of_nat (length (pre @ h @ b))"
    by (simp add: b hdr_len_def)
  have le: "sint (src_addr + of_nat (length (pre @ h @ b))) \<le> sint (src_addr + len)"
  proof -
    have l: "of_nat (unat len) = len" by simp
    have "sint (src_addr + of_nat (unat len)) = int (unat src_addr + unat len)"
      using Cons.prems(5) by (intro sint_addr)
    moreover have "sint (src_addr + of_nat (length (pre @ h @ b))) = int (unat src_addr + length (pre @ h @ b))"
      using Cons.prems(3) mem by (intro sint_addr) auto
    moreover have "length (pre @ h @ b) \<le> unat len" using Cons.prems(4) e by simp
    ultimately show ?thesis by (simp only: of_nat_le_iff add_le_cancel_left l)
  qed
  have D: "drop (length pre) mem = h @ ?rest" by (simp add: mem)
  have L: "length pre < length mem" "\<not> length mem < length pre + 512" by (simp_all add: mem)
  have step: "tar_read_loop s src_addr mem len pi pfx ?fd out =
      (if take 100 (cstr s) = entry_name e then Some (Tar_found ?fd (?fd + 512) ?n, ?out)
       else tar_read_loop s src_addr mem len pi pfx (src_addr + of_nat (length (pre @ h @ b))) ?out)"
    using le
    by (subst tar_read_loop.simps)
      (simp only: Let_def off D L pfx s sum read_step_eq [OF n] fd' hdr_ok_append [OF h]
        if_False if_True less_irrefl not_less [symmetric] simp_thms e entry_name_def fst_conv cong: if_cong)
  show ?case
  proof (cases "take 100 (cstr s) = entry_name e")
    case True
    then show ?thesis
      unfolding step by (simp add: found_result_def e tar_listed_Cons hdr_len_def tar_listed_def)
  next
    case False
    have "tar_read_loop s src_addr mem len pi pfx (src_addr + of_nat (length (pre @ h @ b))) ?out =
      Some (found_result src_addr (tar_find s (length (pre @ h @ b)) es), ?out @ tar_listed pi pfx (tar_passed s es))"
    proof (rule Cons.IH)
      show "mem = (pre @ h @ b) @ archive es @ 0 # rest" by (simp add: mem)
      show "length ((pre @ h @ b) @ archive es) \<le> unat len" using Cons.prems(4) e by simp
    qed (use Cons.prems es in simp_all)
    moreover have "length (pre @ h @ b) = length pre + 512 + length (snd e)" by (simp add: e)
    ultimately show ?thesis
      unfolding step using False by (simp only: if_False tar_find.simps tar_passed.simps tar_listed_Cons) simp
  qed
qed

section \<open>Rewriting a well-formed archive\<close>

definition rtk_signed :: "byte list \<Rightarrow> bool" where
  "rtk_signed h \<longleftrightarrow> take 4 (hdr_signature h) = bytes_of ''RTK'' @ [0]"

lemma RTK_bytes: "bytes_of ''RTK'' = [82, 84, 75]"
  by code_simp

lemma strcmp_RTK:
  assumes "length h = 512"
  shows "strcmp (hdr_signature (h @ r)) (bytes_of ''RTK'') = 0 \<longleftrightarrow> rtk_signed h"
proof -
  have "length (drop 508 h) = 4" using assms by simp
  then obtain a b c d where "drop 508 h = [a, b, c, d]"
    using length_4 by blast
  then show ?thesis
    using assms by (auto simp: strcmp_eq_0 rtk_signed_def hdr_signature_def RTK_bytes cstr_Cons)
qed

text \<open>What the rewriting does to the entries. An entry matches when its name starts with the
  given name; the first match is replaced by the new file and the others are dropped. Later
  entries that carry the RTK signature are dropped too.\<close>

definition new_body :: "byte list \<Rightarrow> u32 \<Rightarrow> byte list" where
  "new_body src len = take (unat len) src @ replicate (blocks (unat len) - unat len) 0"

definition name_match :: "byte list \<Rightarrow> byte list \<Rightarrow> bool" where
  "name_match f h \<longleftrightarrow> (\<exists>u. cstr h = cstr f @ u)"

fun tar_rewrite ::
  "byte list \<Rightarrow> byte list \<Rightarrow> u32 \<Rightarrow> bool \<Rightarrow> bool \<Rightarrow> bool \<Rightarrow> entry list \<Rightarrow> entry list" where
  "tar_rewrite f src len add first done [] =
     (if add \<and> \<not> done then [(tar_build_header (replicate 512 0) f len 48, new_body src len)] else [])"
| "tar_rewrite f src len add first done ((h, b) # es) =
     (if name_match f h then
        if add \<and> \<not> done
        then (tar_build_header h f len 48, new_body src len) # tar_rewrite f src len add False True es
        else tar_rewrite f src len add False done es
      else if first \<or> \<not> rtk_signed h then (h, b) # tar_rewrite f src len add False done es
      else tar_rewrite f src len add False done es)"

subsection \<open>Writing into a zeroed buffer\<close>

lemma memcpy_to_at:
  assumes "m = length w" and "n = int m" and "m \<le> length src" and "off = int (length outb)"
  shows "memcpy_to (outb @ w @ z) off src n = Some (outb @ take m src @ z)"
  using assms by (simp add: memcpy_to_def memcpy_at_def patch_def)

lemma length_new_body [simp]: "unat len \<le> length src \<Longrightarrow> length (new_body src len) = blocks (unat len)"
  using blocks_bounds(1) [of "unat len"] by (simp add: new_body_def)

lemma tar_emit_eq:
  assumes st: "t_tmp st = outb @ w @ replicate k 0" "t_tmp_pos st = int (length outb)"
    and w: "length w = 512" and hb: "512 \<le> length hb"
    and len: "unat len \<le> length src" "blocks (unat len) \<le> k"
    and bnd: "length outb + 512 + blocks (unat len) + 512 < 2 ^ 31"
  shows "tar_emit hb src len st =
    Some (st\<lparr>t_tmp := outb @ take 512 hb @ new_body src len @ replicate (k - blocks (unat len)) 0,
             t_tmp_pos := int (length outb + 512 + blocks (unat len))\<rparr>)"
proof -
  define n where "n = unat len"
  have n: "n \<le> blocks n" "blocks n \<le> k" "n \<le> length src" "n + 511 < 2 ^ 31"
    using blocks_bounds(1) [of n] len bnd by (simp_all add: n_def)
  have sn: "sint len = int n" by (rule sint_nat_u32 [OF n_def]) (use n in simp)
  have fb: "file_blocks len = int (blocks n)"
    unfolding n_def by (rule file_blocks_eq) (use n in \<open>simp add: n_def\<close>)
  have p1: "s32 (int (length outb) + 512) = int (length (outb @ take 512 hb))"
    using s32_nat [of "length outb + 512"] bnd hb by (simp add: add.commute)
  have p2: "s32 (int (length (outb @ take 512 hb)) + int (blocks n)) = int (length outb + 512 + blocks n)"
    using s32_nat [of "length outb + 512 + blocks n"] bnd hb by (simp add: add.commute n_def)
  have m1: "memcpy_to (outb @ w @ replicate k 0) (int (length outb)) hb 512 =
      Some (outb @ take 512 hb @ replicate k 0)"
    by (rule memcpy_to_at) (use w hb in simp_all)
  have "memcpy_to ((outb @ take 512 hb) @ replicate n 0 @ replicate (k - n) 0)
      (int (length (outb @ take 512 hb))) src (int n) =
      Some ((outb @ take 512 hb) @ take n src @ replicate (k - n) 0)"
    by (rule memcpy_to_at) (use n in simp_all)
  moreover have "replicate n 0 @ replicate (k - n) (0::byte) = replicate k 0"
    using n by (simp add: replicate_add [symmetric])
  ultimately have m2: "memcpy_to (outb @ take 512 hb @ replicate k 0)
      (int (length (outb @ take 512 hb))) src (int n) =
      Some (outb @ take 512 hb @ take n src @ replicate (k - n) 0)"
    by simp
  have "replicate (k - n) (0::byte) = replicate (blocks n - n) 0 @ replicate (k - blocks n) 0"
    using n by (simp add: replicate_add [symmetric])
  then have nb: "take n src @ replicate (k - n) 0 = new_body src len @ replicate (k - blocks n) 0"
    by (simp add: new_body_def n_def)
  show ?thesis
    unfolding tar_emit_def st
    by (simp only: m1 p1 sn m2 fb p2 nb bind.bind_lunit Let_def n_def [symmetric])
qed


subsection \<open>The loop\<close>

lemma build_header_at_eq:
  assumes "512 \<le> length p" and "length (cstr f) < 100" and "off = int (length pre)"
  shows "build_header_at (pre @ p @ q) off f len t = Some (pre @ tar_build_header p f len t @ q)"
  using assms by (simp add: build_header_at_def tar_build_header_append)

lemma tar_loop_test_end:
  assumes "t_pos st = int (length pre)" and "t_dst st = pre @ replicate d 0" and "0 < d"
  shows "tar_loop_test st = Some False"
  using assms by (cases d) (simp_all add: tar_loop_test_def)

lemma tar_loop_test_entry:
  assumes "hdr_ok h" and "t_pos st = int (length pre)" and "t_dst st = pre @ h @ r"
  shows "tar_loop_test st = Some True"
  using assms hdr_ok_append [OF assms(1), of r] hdr_ok_length [OF assms(1)]
  by (simp add: tar_loop_test_def)

lemma tar_name_length: "tar_name f \<Longrightarrow> length (cstr f) < 100"
  by (simp add: tar_name_def)

lemma strstr_name_match: "hdr_ok h \<Longrightarrow> strstr_at_start (h @ r) f \<longleftrightarrow> name_match f h"
  by (simp add: strstr_at_start_iff name_match_def hdr_ok_append)

text \<open>One iteration, on each of the code's branches.\<close>

definition walk_state :: "byte list \<Rightarrow> byte list \<Rightarrow> byte list \<Rightarrow> nat \<Rightarrow> bool \<Rightarrow> tar_state" where
  "walk_state pre rest outb k done =
     \<lparr>t_dst = pre @ rest, t_tmp = outb @ replicate k 0, t_pos = int (length pre),
      t_tmp_pos = int (length outb), t_done = done\<rparr>"

lemma walk_next:
  assumes "hdr_ok h" and "length b = blocks (hdr_len h)"
    and "length pre + 512 + length b + 512 < 2 ^ 31"
  shows "s32 (s32 (int (length pre) + 512) + file_blocks (simple_strtol (hdr_size (h @ r)) 8))
       = int (length (pre @ h @ b))"
    and "s32 (512 + file_blocks (simple_strtol (hdr_size (h @ r)) 8)) = int (length (h @ b))"
proof -
  let ?n = "simple_strtol (hdr_size h) 8"
  have fb: "file_blocks ?n = int (length b)"
    using assms blocks_bounds(1) [of "hdr_len h"] by (subst file_blocks_eq) (simp_all add: hdr_len_def)
  have "s32 (int (length pre) + 512) = int (length pre + 512)"
    using s32_nat [of "length pre + 512"] assms(3) by simp
  then show "s32 (s32 (int (length pre) + 512) + file_blocks (simple_strtol (hdr_size (h @ r)) 8))
       = int (length (pre @ h @ b))"
    using s32_nat [of "length pre + 512 + length b"] assms
    by (simp add: hdr_ok_append(2) fb hdr_ok_length add.assoc)
  show "s32 (512 + file_blocks (simple_strtol (hdr_size (h @ r)) 8)) = int (length (h @ b))"
    using s32_nat [of "512 + length b"] assms
    by (simp add: hdr_ok_append(2) fb hdr_ok_length)
qed

lemma tar_loop_body_drop:
  assumes "hdr_ok h" and "length b = blocks (hdr_len h)"
    and "length pre + 512 + length b + 512 < 2 ^ 31"
    and "name_match f h \<and> \<not> (add \<and> \<not> done) \<or> \<not> name_match f h \<and> rtk_signed h \<and> pre \<noteq> []"
  shows "tar_loop_body f src len add (walk_state pre (h @ b @ r) outb k done) =
    Some (walk_state (pre @ h @ b) r outb k done)"
  using assms(4) hdr_ok_length [OF assms(1)]
  by (auto simp: tar_loop_body_def walk_state_def strstr_name_match [OF assms(1)] strcmp_RTK
    walk_next [OF assms(1-3), of "b @ r"])

lemma tar_loop_body_keep:
  assumes "hdr_ok h" and "length b = blocks (hdr_len h)"
    and "length pre + 512 + length b + 512 < 2 ^ 31"
    and "\<not> name_match f h" and "pre = [] \<or> \<not> rtk_signed h"
    and "512 + length b \<le> k" and "length outb + 512 + length b < 2 ^ 31"
  shows "tar_loop_body f src len add (walk_state pre (h @ b @ r) outb k done) =
    Some (walk_state (pre @ h @ b) r (outb @ h @ b) (k - (512 + length b)) done)"
proof -
  have hl: "length h = 512" using assms(1) by (rule hdr_ok_length)
  have "replicate k (0::byte) = replicate (512 + length b) 0 @ replicate (k - (512 + length b)) 0"
    using assms(6) by (simp add: replicate_add [symmetric] del: replicate_add)
  moreover have "memcpy_to (outb @ replicate (512 + length b) 0 @ replicate (k - (512 + length b)) 0)
      (int (length outb)) (h @ b @ r) (int (length (h @ b))) =
      Some (outb @ take (512 + length b) (h @ b @ r) @ replicate (k - (512 + length b)) 0)"
    by (rule memcpy_to_at) (use hl in simp_all)
  ultimately have "memcpy_to (outb @ replicate k 0) (int (length outb)) (h @ b @ r) (int (length (h @ b))) =
      Some ((outb @ h @ b) @ replicate (k - (512 + length b)) 0)"
    using hl by simp
  moreover have "s32 (int (length outb) + int (length (h @ b))) = int (length (outb @ h @ b))"
    using s32_nat [of "length outb + (512 + length b)"] assms(7) hl by simp
  ultimately show ?thesis
    using assms(4,5) walk_next [OF assms(1-3), of "b @ r"] hl
    by (auto simp: tar_loop_body_def walk_state_def strstr_name_match [OF assms(1)] strcmp_RTK
      simp del: length_append)
qed

lemma tar_loop_body_replace:
  assumes "hdr_ok h" and "length b = blocks (hdr_len h)"
    and "length pre + 512 + length b + 512 < 2 ^ 31"
    and "name_match f h" and "tar_name f"
    and "unat len \<le> length src" and "512 + blocks (unat len) \<le> k"
    and "length outb + 512 + blocks (unat len) + 512 < 2 ^ 31"
  shows "tar_loop_body f src len True (walk_state pre (h @ b @ r) outb k False) =
    Some (walk_state (pre @ tar_build_header h f len 48 @ b) r
      (outb @ tar_build_header h f len 48 @ new_body src len) (k - (512 + blocks (unat len))) True)"
proof -
  let ?h' = "tar_build_header h f len 48"
  have hl: "length h = 512" using assms(1) by (rule hdr_ok_length)
  have fl: "length (cstr f) < 100" using assms(5) by (rule tar_name_length)
  have hl': "length ?h' = 512" using hl fl by simp
  have bh: "build_header_at (pre @ h @ b @ r) (int (length pre)) f len 48 = Some (pre @ ?h' @ b @ r)"
    by (rule build_header_at_eq) (use hl fl in simp_all)
  let ?st = "walk_state pre (h @ b @ r) outb k False\<lparr>t_dst := pre @ ?h' @ b @ r\<rparr>"
  have k: "replicate k (0::byte) = replicate 512 0 @ replicate (k - 512) 0"
    using assms(7) by (simp add: replicate_add [symmetric] del: replicate_add)
  have em: "tar_emit (?h' @ b @ r) src len ?st =
    Some (?st\<lparr>t_tmp := outb @ take 512 (?h' @ b @ r) @ new_body src len
                @ replicate (k - 512 - blocks (unat len)) 0,
             t_tmp_pos := int (length outb + 512 + blocks (unat len))\<rparr>)"
  proof (rule tar_emit_eq [where w = "replicate 512 0"])
    show "t_tmp ?st = outb @ replicate 512 0 @ replicate (k - 512) 0"
      using k by (simp add: walk_state_def)
  qed (use assms hl' in \<open>simp_all add: walk_state_def\<close>)
  show ?thesis
    using assms(4,6) walk_next [OF assms(1-3), of "b @ r"] hl hl' bh em
    by (simp add: tar_loop_body_def walk_state_def strstr_name_match [OF assms(1)])
qed

lemma memcpy_zeros:
  "memcpy_to (pre @ z) 0 (replicate (length pre) 0) (int (length pre)) = Some (replicate (length pre) 0 @ z)"
  by (simp add: memcpy_to_def memcpy_at_def patch_def)

lemma memcpy_into_zeros:
  "length outb \<le> n \<Longrightarrow> memcpy_to (replicate n 0) 0 (outb @ z) (int (length outb)) =
     Some (outb @ replicate (n - length outb) 0)"
  by (simp add: memcpy_to_def memcpy_at_def patch_def)

lemma memcpy_end_mark:
  "0 < k \<Longrightarrow> memcpy_to (outb @ replicate k 0) (int (length outb)) [0] 1 = Some (outb @ replicate k 0)"
  using memcpy_to_at [of 1 "[0]" 1 "[0]" "int (length outb)" outb "replicate (k - 1) 0"]
  by (cases k) simp_all

lemma tar_finish_tail:
  assumes "t_tmp st = outb @ replicate k 0" and "t_tmp_pos st = int (length outb)"
    and "t_dst st = pre @ replicate d 0" and "t_pos st = int (length pre)"
    and "0 < k" and "length outb \<le> length pre + d"
  shows "do {
      tmp2 \<leftarrow> memcpy_to (t_tmp st) (t_tmp_pos st) [0] 1;
      dst1 \<leftarrow> memcpy_to (t_dst st) 0 (replicate (nat (t_pos st)) 0) (t_pos st);
      dst2 \<leftarrow> memcpy_to dst1 0 tmp2 (t_tmp_pos st);
      Some (t_tmp_pos st, dst2, tmp2)
    } = Some (int (length outb), outb @ replicate (length pre + d - length outb) 0, outb @ replicate k 0)"
  using assms memcpy_into_zeros [OF assms(6), of "replicate k 0"]
  by (simp add: memcpy_end_mark memcpy_zeros replicate_add)

definition rewrite_result :: "byte list \<Rightarrow> nat \<Rightarrow> nat \<Rightarrow> int \<times> byte list \<times> byte list" where
  "rewrite_result outb n k = (int (length outb), outb @ replicate (n - length outb) 0, outb @ replicate k 0)"

lemma tar_finish_eq:
  assumes f: "tar_name f" and len: "unat len \<le> length src"
    and R: "R = archive (tar_rewrite f src len add first done [])"
    and k: "length R < k" and n: "length (outb @ R) \<le> length pre + d"
    and bnd: "length outb + k + 1024 < 2 ^ 31"
  shows "tar_finish f src len add (walk_state pre (replicate d 0) outb k done) =
    Some (rewrite_result (outb @ R) (length pre + d) (k - length R))"
proof (cases "add \<and> \<not> done")
  case False
  have "R = []" using False R by (simp only: tar_rewrite.simps if_False archive_simps)
  let ?st = "walk_state pre (replicate d 0) outb k done"
  have "tar_finish f src len add ?st = do {
      tmp2 \<leftarrow> memcpy_to (t_tmp ?st) (t_tmp_pos ?st) [0] 1;
      dst1 \<leftarrow> memcpy_to (t_dst ?st) 0 (replicate (nat (t_pos ?st)) 0) (t_pos ?st);
      dst2 \<leftarrow> memcpy_to dst1 0 tmp2 (t_tmp_pos ?st);
      Some (t_tmp_pos ?st, dst2, tmp2) }"
    using False by (auto simp: tar_finish_def walk_state_def)
  also have "\<dots> = Some (int (length outb), outb @ replicate (length pre + d - length outb) 0, outb @ replicate k 0)"
    by (rule tar_finish_tail) (use k n \<open>R = []\<close> in \<open>simp_all add: walk_state_def\<close>)
  finally show ?thesis by (simp add: \<open>R = []\<close> rewrite_result_def)
next
  case True
  let ?h = "tar_build_header (replicate 512 0) f len 48"
  let ?st = "walk_state pre (replicate d 0) outb k done"
  let ?st1 = "?st\<lparr>t_tmp := outb @ ?h @ replicate (k - 512) 0\<rparr>"
  have fl: "length (cstr f) < 100" using f by (rule tar_name_length)
  have hl: "length ?h = 512" using fl by simp
  have R': "R = ?h @ new_body src len" using True R by simp
  have lR: "length R = 512 + blocks (unat len)" using hl len by (simp add: R')
  have "replicate k (0::byte) = replicate 512 0 @ replicate (k - 512) 0"
    using k lR by (simp add: replicate_add [symmetric] del: replicate_add)
  then have bh: "build_header_at (outb @ replicate k 0) (int (length outb)) f len 48 =
      Some (outb @ ?h @ replicate (k - 512) 0)"
    using build_header_at_eq [of "replicate 512 0" f "int (length outb)" outb "replicate (k - 512) 0" len 48] fl
    by simp
  have em: "tar_emit (?h @ replicate (k - 512) 0) src len ?st1 =
    Some (?st1\<lparr>t_tmp := outb @ take 512 (?h @ replicate (k - 512) 0) @ new_body src len
                @ replicate (k - 512 - blocks (unat len)) 0,
             t_tmp_pos := int (length outb + 512 + blocks (unat len))\<rparr>)" (is "_ = Some ?st2")
    by (rule tar_emit_eq [where w = ?h]) (use hl len k lR bnd in \<open>simp_all add: walk_state_def\<close>)
  have "tar_finish f src len add ?st = do {
      tmp2 \<leftarrow> memcpy_to (t_tmp ?st2) (t_tmp_pos ?st2) [0] 1;
      dst1 \<leftarrow> memcpy_to (t_dst ?st2) 0 (replicate (nat (t_pos ?st2)) 0) (t_pos ?st2);
      dst2 \<leftarrow> memcpy_to dst1 0 tmp2 (t_tmp_pos ?st2);
      Some (t_tmp_pos ?st2, dst2, tmp2) }"
    using True bh em by (simp add: tar_finish_def walk_state_def)
  also have "\<dots> = Some (int (length (outb @ R)), (outb @ R) @ replicate (length pre + d - length (outb @ R)) 0,
      (outb @ R) @ replicate (k - length R) 0)"
    by (rule tar_finish_tail) (use k n lR hl in \<open>simp_all add: walk_state_def R'\<close>)
  finally show ?thesis by (simp add: rewrite_result_def)
qed

lemma archive_rewrite_bound: "length (archive (e # es)) = length (fst e) + length (snd e) + length (archive es)"
  by (cases e) simp

theorem tar_walk_finish:
  assumes "\<forall>e \<in> set es. entry_ok e" and f: "tar_name f" and len: "unat len \<le> length src"
    and "R = archive (tar_rewrite f src len add (pre = []) dn es)"
    and "length R < k" and "length (outb @ R) \<le> length (pre @ archive es) + d" and "0 < d"
    and "length outb + k + 1024 < 2 ^ 31" and "length (pre @ archive es) + 1024 < 2 ^ 31"
  shows "Option.bind (tar_walk f src len add (walk_state pre (archive es @ replicate d 0) outb k dn))
      (tar_finish f src len add) =
    Some (rewrite_result (outb @ R) (length (pre @ archive es) + d) (k - length R))"
  using assms(1,4-9)
proof (induction es arbitrary: pre outb k dn R)
  case Nil
  have "tar_loop_test (walk_state pre (replicate d 0) outb k dn) = Some False"
    by (rule tar_loop_test_end [of _ pre d]) (use Nil.prems in \<open>simp_all add: walk_state_def\<close>)
  then have w: "tar_walk f src len add (walk_state pre (replicate d 0) outb k dn) =
      Some (walk_state pre (replicate d 0) outb k dn)"
    by (subst tar_walk.simps) simp
  have "tar_finish f src len add (walk_state pre (replicate d 0) outb k dn) =
      Some (rewrite_result (outb @ R) (length pre + d) (k - length R))"
    by (rule tar_finish_eq [OF f len Nil.prems(2)]) (use Nil.prems in simp_all)
  with w show ?case by simp
next
  case (Cons e es)
  obtain h b where e: "e = (h, b)" by (cases e)
  from Cons.prems(1) e have h: "hdr_ok h" and b: "length b = blocks (hdr_len h)"
      and es: "\<forall>e \<in> set es. entry_ok e"
    by (auto simp: entry_ok_def)
  have hl: "length h = 512" using h by (rule hdr_ok_length)
  let ?r = "archive es @ replicate d 0"
  have "tar_loop_test (walk_state pre (h @ b @ ?r) outb k dn) = Some True"
    by (rule tar_loop_test_entry [OF h]) (simp_all add: walk_state_def)
  then have step: "tar_walk f src len add (walk_state pre (archive (e # es) @ replicate d 0) outb k dn) =
      Option.bind (tar_loop_body f src len add (walk_state pre (h @ b @ ?r) outb k dn))
        (tar_walk f src len add)"
    by (subst tar_walk.simps) (simp add: e)
  have pb: "length pre + 512 + length b + 512 < 2 ^ 31"
    using Cons.prems(7) hl e by simp
  have ne: "pre @ h @ b \<noteq> []" using hl by auto
  note IH = Cons.IH [OF es _ _ _ Cons.prems(5)]
  consider (replace) "name_match f h" "add" "\<not> dn" | (gone) "name_match f h" "\<not> (add \<and> \<not> dn)"
    | (keep) "\<not> name_match f h" "pre = [] \<or> \<not> rtk_signed h" | (tail) "\<not> name_match f h" "pre \<noteq> []" "rtk_signed h"
    by blast
  then show ?case
  proof cases
    case replace
    let ?h' = "tar_build_header h f len 48"
    let ?R = "archive (tar_rewrite f src len add False True es)"
    have hl': "length ?h' = 512" using hl tar_name_length [OF f] by simp
    then have ne': "?h' \<noteq> []" by auto
    have R: "R = ?h' @ new_body src len @ ?R" using Cons.prems(2) replace by (simp add: e)
    have "tar_loop_body f src len True (walk_state pre (h @ b @ ?r) outb k False) =
      Some (walk_state (pre @ ?h' @ b) ?r (outb @ ?h' @ new_body src len) (k - (512 + blocks (unat len))) True)"
      by (rule tar_loop_body_replace [OF h b pb replace(1) f len])
        (use Cons.prems(3,6) R hl' len in simp_all)
    moreover have "Option.bind (tar_walk f src len add (walk_state (pre @ ?h' @ b) ?r
          (outb @ ?h' @ new_body src len) (k - (512 + blocks (unat len))) True)) (tar_finish f src len add) =
        Some (rewrite_result ((outb @ ?h' @ new_body src len) @ ?R) (length ((pre @ ?h' @ b) @ archive es) + d)
          (k - (512 + blocks (unat len)) - length ?R))"
      by (rule IH) (use Cons.prems(3-7) R hl hl' len e ne' in auto)
    ultimately show ?thesis
      unfolding step using replace hl hl' len by (simp add: R e add.assoc)
  next
    case gone
    have R: "R = archive (tar_rewrite f src len add False dn es)" using Cons.prems(2) gone by (simp add: e)
    have "tar_loop_body f src len add (walk_state pre (h @ b @ ?r) outb k dn) =
      Some (walk_state (pre @ h @ b) ?r outb k dn)"
      by (rule tar_loop_body_drop [OF h b pb]) (use gone in blast)
    moreover have "Option.bind (tar_walk f src len add (walk_state (pre @ h @ b) ?r outb k dn))
        (tar_finish f src len add) =
        Some (rewrite_result (outb @ R) (length ((pre @ h @ b) @ archive es) + d) (k - length R))"
      by (rule IH) (use Cons.prems(3-7) R e ne in auto)
    ultimately show ?thesis unfolding step by (simp add: e add.assoc)
  next
    case tail
    have R: "R = archive (tar_rewrite f src len add False dn es)" using Cons.prems(2) tail by (simp add: e)
    have "tar_loop_body f src len add (walk_state pre (h @ b @ ?r) outb k dn) =
      Some (walk_state (pre @ h @ b) ?r outb k dn)"
      by (rule tar_loop_body_drop [OF h b pb]) (use tail in blast)
    moreover have "Option.bind (tar_walk f src len add (walk_state (pre @ h @ b) ?r outb k dn))
        (tar_finish f src len add) =
        Some (rewrite_result (outb @ R) (length ((pre @ h @ b) @ archive es) + d) (k - length R))"
      by (rule IH) (use Cons.prems(3-7) R e ne in auto)
    ultimately show ?thesis unfolding step by (simp add: e add.assoc)
  next
    case keep
    let ?R = "archive (tar_rewrite f src len add False dn es)"
    have R: "R = h @ b @ ?R" using Cons.prems(2) keep by (auto simp: e)
    have "tar_loop_body f src len add (walk_state pre (h @ b @ ?r) outb k dn) =
      Some (walk_state (pre @ h @ b) ?r (outb @ h @ b) (k - (512 + length b)) dn)"
      by (rule tar_loop_body_keep [OF h b pb keep]) (use Cons.prems(3,6) R hl in simp_all)
    moreover have "Option.bind (tar_walk f src len add (walk_state (pre @ h @ b) ?r (outb @ h @ b)
          (k - (512 + length b)) dn)) (tar_finish f src len add) =
        Some (rewrite_result ((outb @ h @ b) @ ?R) (length ((pre @ h @ b) @ archive es) + d)
          (k - (512 + length b) - length ?R))"
      by (rule IH) (use Cons.prems(3-7) R hl e ne in auto)
    ultimately show ?thesis
      unfolding step using hl by (simp add: R e add.assoc)
  qed
qed

lemma tar_add_or_delete_archive:
  assumes "\<forall>e \<in> set es. entry_ok e" and "tar_name f" and "unat len \<le> length src"
    and "R = archive (tar_rewrite f src len add True False es)"
    and "length R < length tmp" and "length R \<le> length (archive es) + d" and "0 < d"
    and "length tmp + 1024 < 2 ^ 31" and "length (archive es) + 1024 < 2 ^ 31"
  shows "tar_add_or_delete (archive es @ replicate d 0) f src len (Some tmp) (length tmp) add =
    Some (int (length R), R @ replicate (length (archive es) + d - length R) 0,
      Some (R @ replicate (length tmp - length R) 0))"
proof -
  have m: "memcpy_at 0 (replicate (length tmp) 0) tmp = Some (replicate (length tmp) 0)"
    by (simp add: memcpy_at_def patch_def)
  have "Option.bind (tar_walk f src len add (walk_state [] (archive es @ replicate d 0) [] (length tmp) False))
      (tar_finish f src len add) =
    Some (rewrite_result ([] @ R) (length ([] @ archive es) + d) (length tmp - length R))"
    by (rule tar_walk_finish) (use assms in simp_all)
  then obtain st where "tar_walk f src len add
      (walk_state [] (archive es @ replicate d 0) [] (length tmp) False) = Some st"
    and "tar_finish f src len add st =
      Some (rewrite_result R (length (archive es) + d) (length tmp - length R))"
    by (auto simp: bind_eq_Some_conv)
  then show ?thesis
    by (simp add: tar_add_or_delete_def m walk_state_def rewrite_result_def)
qed

lemma hdr_len_build_header:
  "512 \<le> length p \<Longrightarrow> length (cstr f) < 100 \<Longrightarrow> hdr_len (tar_build_header p f len t) = unat len"
  by (simp add: hdr_len_def simple_strtol_build_header)

lemma entry_ok_new:
  "length p = 512 \<Longrightarrow> tar_name f \<Longrightarrow> unat len \<le> length src \<Longrightarrow>
   entry_ok (tar_build_header p f len 48, new_body src len)"
  by (simp add: entry_ok_def hdr_ok_build_header hdr_len_build_header tar_name_length)

lemma tar_rewrite_ok:
  "\<forall>e \<in> set es. entry_ok e \<Longrightarrow> tar_name f \<Longrightarrow> unat len \<le> length src \<Longrightarrow>
   \<forall>e \<in> set (tar_rewrite f src len add first dn es). entry_ok e"
proof (induction f src len add first dn es rule: tar_rewrite.induct)
  case (2 f src len add first dn h b es)
  have "entry_ok (h, b)" using 2 by simp
  moreover have "hdr_ok h" using \<open>entry_ok (h, b)\<close> by (simp add: entry_ok_def)
  then have "length h = 512" by (rule hdr_ok_length)
  then have "entry_ok (tar_build_header h f len 48, new_body src len)" using 2 by (intro entry_ok_new)
  ultimately show ?case using 2 by auto
qed (use entry_ok_new in auto)

section \<open>What a reader sees after a rewrite\<close>

text \<open>The contents under a name: those of the first entry with the name.\<close>

definition tar_lookup :: "byte list \<Rightarrow> entry list \<Rightarrow> byte list option" where
  "tar_lookup s es = map_option entry_data (find (\<lambda>e. entry_name e = take 100 (cstr s)) es)"

lemma tar_lookup_simps [simp]:
  "tar_lookup s [] = None"
  "tar_lookup s (e # es) = (if entry_name e = take 100 (cstr s) then Some (entry_data e) else tar_lookup s es)"
  by (simp_all add: tar_lookup_def)

lemma tar_find_lookup: "map_option (entry_data \<circ> snd) (tar_find s off es) = tar_lookup s es"
  by (induction es arbitrary: off) auto

lemma tar_find_data:
  assumes "\<forall>e \<in> set es. entry_ok e" and "tar_find s off es = Some (p, e)"
  shows "off \<le> p" and "take (hdr_len (fst e)) (drop (p - off + 512) (archive es @ r)) = entry_data e"
    and "hdr_len (fst e) \<le> length (archive es)"
proof -
  have "off \<le> p \<and> take (hdr_len (fst e)) (drop (p - off + 512) (archive es @ r)) = entry_data e
      \<and> hdr_len (fst e) \<le> length (archive es)"
    using assms
  proof (induction es arbitrary: off)
    case (Cons a es)
    obtain h b where a: "a = (h, b)" by (cases a)
    from Cons.prems a have h: "hdr_ok h" "length b = blocks (hdr_len h)" by (simp_all add: entry_ok_def)
    have hl: "length h = 512" using h(1) by (rule hdr_ok_length)
    have le: "hdr_len h \<le> length b" using h blocks_bounds(1) by simp
    show ?case
    proof (cases "take 100 (cstr s) = entry_name a")
      case True
      then show ?thesis using Cons.prems a hl le by (auto simp: entry_data_def)
    next
      case False
      then have "tar_find s (off + 512 + length b) es = Some (p, e)" using Cons.prems a by simp
      with Cons.IH [of "off + 512 + length b"] Cons.prems(1)
      have IH: "off + 512 + length b \<le> p"
        "take (hdr_len (fst e)) (drop (p - (off + 512 + length b) + 512) (archive es @ r)) = entry_data e"
        "hdr_len (fst e) \<le> length (archive es)" by auto
      have "drop (p - off + 512) (archive (a # es) @ r) =
          drop (p - (off + 512 + length b) + 512) (archive es @ r)"
        using IH(1) a hl by (simp add: drop_Cons')
      then show ?thesis using IH a by simp
    qed
  qed simp
  then show "off \<le> p" and "take (hdr_len (fst e)) (drop (p - off + 512) (archive es @ r)) = entry_data e"
    and "hdr_len (fst e) \<le> length (archive es)" by auto
qed

lemma entry_data_new:
  "512 \<le> length p \<Longrightarrow> length (cstr f) < 100 \<Longrightarrow> unat len \<le> length src \<Longrightarrow>
   entry_data (tar_build_header p f len 48, new_body src len) = take (unat len) src"
  by (simp add: entry_data_def hdr_len_build_header new_body_def)

lemma entry_name_new:
  "512 \<le> length p \<Longrightarrow> length (cstr f) < 100 \<Longrightarrow> entry_name (tar_build_header p f len 48, b) = cstr f"
  by (simp add: entry_name_def cstr_build_header)

lemma take_name: "tar_name f \<Longrightarrow> take 100 (cstr f) = cstr f"
  using tar_name_length [of f] by simp

lemma entry_ok_length: "entry_ok (h, b) \<Longrightarrow> length h = 512"
  by (simp add: entry_ok_def hdr_ok_length)

lemma name_match_self: "cstr h = cstr f \<Longrightarrow> name_match f h"
  by (simp add: name_match_def)

lemma lookup_after_add:
  assumes "\<forall>e \<in> set es. entry_ok e" and f: "tar_name f" and len: "unat len \<le> length src"
  shows "tar_lookup f (tar_rewrite f src len True first False es) = Some (take (unat len) src)"
  using assms(1)
proof (induction es arbitrary: first)
  case Nil
  show ?case using f len by (simp add: entry_name_new entry_data_new tar_name_length take_name)
next
  case (Cons e es)
  obtain h b where e: "e = (h, b)" by (cases e)
  have hl: "length h = 512" using Cons.prems e entry_ok_length by auto
  have IH: "tar_lookup f (tar_rewrite f src len True False False es) = Some (take (unat len) src)"
    using Cons by auto
  have "\<not> name_match f h \<Longrightarrow> entry_name (h, b) \<noteq> cstr f"
    using name_match_self [of h f] by (auto simp: entry_name_def)
  then show ?case
    using IH f len hl by (simp add: e entry_name_new entry_data_new tar_name_length take_name)
qed

lemma lookup_removed:
  assumes "\<forall>e \<in> set es. entry_ok e" and "tar_name g" and "name_match f g" and "tar_name f"
    and "add \<and> \<not> dn \<Longrightarrow> cstr g \<noteq> cstr f"
  shows "tar_lookup g (tar_rewrite f src len add first dn es) = None"
  using assms(1,5)
proof (induction es arbitrary: first dn)
  case Nil
  then show ?case
    using assms(2,4) by (cases dn) (auto simp: entry_name_new tar_name_length take_name)
next
  case (Cons e es)
  obtain h b where e: "e = (h, b)" by (cases e)
  have hl: "length h = 512" using Cons.prems e entry_ok_length by auto
  have IH: "tar_lookup g (tar_rewrite f src len add False dn es) = None"
    "add \<and> \<not> dn \<Longrightarrow> tar_lookup g (tar_rewrite f src len add False True es) = None"
    using Cons by auto
  have "\<not> name_match f h \<Longrightarrow> entry_name (h, b) \<noteq> cstr g"
    using assms(3) by (auto simp: entry_name_def name_match_def)
  then show ?case
    using IH Cons.prems(2) assms(2,4) hl by (auto simp: e entry_name_new tar_name_length take_name)
qed

lemma lookup_others:
  assumes "\<forall>e \<in> set es. entry_ok e" and "tar_name g" and "\<not> name_match f g" and "tar_name f"
    and "\<forall>e \<in> set (if first then tl es else es). \<not> rtk_signed (fst e)"
  shows "tar_lookup g (tar_rewrite f src len add first dn es) = tar_lookup g es"
  using assms(1,5)
proof (induction es arbitrary: first dn)
  case Nil
  have "cstr f \<noteq> cstr g" using assms(3) by (auto simp: name_match_def)
  then show ?case using assms(2,4) by (auto simp: entry_name_new tar_name_length take_name)
next
  case (Cons e es)
  obtain h b where e: "e = (h, b)" by (cases e)
  have hl: "length h = 512" using Cons.prems e entry_ok_length by auto
  have IH: "tar_lookup g (tar_rewrite f src len add False dn es) = tar_lookup g es" for dn
    using Cons by (auto split: if_splits dest: list.set_sel(2))
  have 1: "cstr f \<noteq> cstr g" using assms(3) by (auto simp: name_match_def)
  have 2: "name_match f h \<Longrightarrow> entry_name (h, b) \<noteq> cstr g"
    using assms(3) by (auto simp: entry_name_def name_match_def)
  have 3: "first \<or> \<not> rtk_signed h" using Cons.prems(2) e by auto
  show ?case
    using IH [of True] IH [of dn] 1 2 3 assms(2,4) hl by (auto simp: e entry_name_new tar_name_length take_name)
qed

lemma length_rewrite:
  assumes "\<forall>e \<in> set es. entry_ok e" and "tar_name f" and "unat len \<le> length src"
  shows "length (archive (tar_rewrite f src len add first dn es))
     \<le> length (archive es) + (if add \<and> \<not> dn then 512 + blocks (unat len) else 0)"
  using assms(1)
proof (induction es arbitrary: first dn)
  case Nil
  then show ?case using assms tar_name_length [OF assms(2)] by simp
next
  case (Cons e es)
  obtain h b where e: "e = (h, b)" by (cases e)
  have "length h = 512" using Cons.prems e entry_ok_length by auto
  moreover have "length (tar_build_header h f len 48) = 512"
    using calculation tar_name_length [OF assms(2)] by simp
  ultimately show ?case
    using Cons.IH [of False True] Cons.IH [of False dn] Cons.prems assms(3)
    by (auto simp: e split: if_splits)
qed

text \<open>What a call of \<^verbatim>\<open>tar_read\<close> hands out: the bytes at the returned address.\<close>

definition read_back :: "u32 \<Rightarrow> byte list \<Rightarrow> tar_result \<Rightarrow> byte list option" where
  "read_back src_addr mem r =
     (case r of Tar_none \<Rightarrow> None
      | Tar_found fd dst_addr dst_length \<Rightarrow>
          Some (take (unat dst_length) (drop (unat (dst_addr - src_addr)) mem)))"

text \<open>A buffer at an address the signed comparison of \<^verbatim>\<open>tar_read\<close> can handle, holding an
  archive with zeros behind it.\<close>

definition tar_area :: "u32 \<Rightarrow> u32 \<Rightarrow> entry list \<Rightarrow> byte list \<Rightarrow> bool" where
  "tar_area a len es mem \<longleftrightarrow> (\<forall>e \<in> set es. entry_ok e)
     \<and> (\<exists>d > 0. mem = archive es @ replicate d 0)
     \<and> length mem = unat len \<and> unat a + unat len + 1024 < 2 ^ 31"

lemma tar_read_area:
  assumes "tar_area a len es mem"
  shows "tar_read s a mem len pi pfx =
    Some (found_result a (tar_find s 0 es), tar_listed pi pfx (tar_passed s es))"
proof -
  from assms obtain d where mem: "mem = [] @ archive es @ 0 # replicate d 0"
    by (auto simp: tar_area_def gr0_conv_Suc)
  have "tar_read_loop s a mem len pi pfx (a + of_nat (length ([] :: byte list))) [] =
    Some (found_result a (tar_find s (length ([] :: byte list)) es), [] @ tar_listed pi pfx (tar_passed s es))"
    by (rule tar_read_loop_archive [OF _ mem]) (use assms mem in \<open>auto simp: tar_area_def\<close>)
  then show ?thesis by (simp add: tar_read_def)
qed

lemma unat_of_hdr_len: "unat (of_nat (hdr_len h) :: u32) = hdr_len h"
  unfolding hdr_len_def by simp

lemma tar_find_offset: "tar_find s off es = Some (p, e) \<Longrightarrow> \<forall>e \<in> set es. entry_ok e \<Longrightarrow>
   p + 512 \<le> off + length (archive es)"
proof (induction es arbitrary: off)
  case (Cons a es)
  obtain h b where a: "a = (h, b)" by (cases a)
  have "length h = 512" using Cons.prems a entry_ok_length by auto
  then show ?case using Cons.IH [of "off + 512 + length b"] Cons.prems a by (auto split: if_splits)
qed simp

lemma read_back_found:
  assumes "tar_area a len es mem"
  shows "read_back a mem (found_result a (tar_find s 0 es)) = tar_lookup s es"
proof (cases "tar_find s 0 es")
  case None
  then show ?thesis
    using tar_find_lookup [of s 0 es] by (simp add: read_back_def found_result_def)
next
  case (Some r)
  obtain p e where r: "r = (p, e)" by (cases r)
  from assms obtain d where mem: "mem = archive es @ replicate d 0"
      and ok: "\<forall>e \<in> set es. entry_ok e"
    by (auto simp: tar_area_def)
  note f = tar_find_data [OF ok Some [unfolded r]]
  have "p + 512 \<le> length mem"
    using tar_find_offset [OF Some [unfolded r] ok] mem by simp
  moreover have "length mem < 2 ^ 31" using assms by (simp add: tar_area_def)
  ultimately have "p + 512 < 2 ^ 32" by simp
  then have "unat (a + of_nat p + 512 - a) = p + 512"
    using unat_addr_diff [of "p + 512" a] by (simp add: add.assoc)
  moreover have "tar_lookup s es = Some (entry_data e)"
    using tar_find_lookup [of s 0 es] Some r by simp
  ultimately show ?thesis
    using f(2) [of "replicate d 0"]
    by (simp add: Some r found_result_def read_back_def unat_of_hdr_len mem)
qed

lemma tar_area_rewrite:
  assumes area: "tar_area a alen es mem" and f: "tar_name f" and len: "unat len \<le> length src"
    and fit: "length (archive es) + 512 + blocks (unat len) < unat alen"
    and tmp: "length tmp = unat alen"
  shows "\<exists>mem' tmp'. tar_add_or_delete mem f src len (Some tmp) (length tmp) add =
      Some (int (length (archive (tar_rewrite f src len add True False es))), mem', Some tmp')
    \<and> tar_area a alen (tar_rewrite f src len add True False es) mem'
    \<and> length tmp' = length tmp"
proof -
  let ?es = "tar_rewrite f src len add True False es"
  from area obtain d where d: "0 < d" and mem: "mem = archive es @ replicate d 0"
      and ok: "\<forall>e \<in> set es. entry_ok e" and l: "length mem = unat alen"
      and bnd: "unat a + unat alen + 1024 < 2 ^ 31"
    by (auto simp: tar_area_def)
  have R: "length (archive ?es) < unat alen"
    using length_rewrite [OF ok f len, of add True False] fit by (auto split: if_splits)
  have "tar_add_or_delete (archive es @ replicate d 0) f src len (Some tmp) (length tmp) add =
    Some (int (length (archive ?es)), archive ?es @ replicate (length (archive es) + d - length (archive ?es)) 0,
      Some (archive ?es @ replicate (length tmp - length (archive ?es)) 0))"
    by (rule tar_add_or_delete_archive [OF ok f len refl _ _ d]) (use R tmp l mem bnd in simp_all)
  moreover have "tar_area a alen ?es
      (archive ?es @ replicate (length (archive es) + d - length (archive ?es)) 0)"
    unfolding tar_area_def
    using tar_rewrite_ok [OF ok f len] R l mem bnd by (auto intro!: exI)
  ultimately show ?thesis using R tmp mem by (auto intro!: exI)
qed

section \<open>A small archive for the examples\<close>

definition sample_es :: "entry list" where
  "sample_es = tar_rewrite (bytes_of ''tmp/a'') [1, 2, 3] 3 True True False []"

definition sample_mem :: "byte list" where
  "sample_mem = archive sample_es @ replicate 3072 0"

lemma sample_names:
  "tar_name (bytes_of ''tmp/a'')" "tar_name (bytes_of ''tmp/ab'')" "tar_name (bytes_of ''tmp/b'')"
  "name_match (bytes_of ''tmp/a'') (bytes_of ''tmp/ab'')"
  "\<not> name_match (bytes_of ''tmp/b'') (bytes_of ''tmp/a'')"
  "cstr (bytes_of ''tmp/ab'') \<noteq> cstr (bytes_of ''tmp/a'')"
  by (simp_all add: tar_name_def name_match_def bytes_of_def cstr_Cons isascii_def word_le_nat_alt)

lemma sample_es_eq:
  "sample_es = [(tar_build_header (replicate 512 0) (bytes_of ''tmp/a'') 3 48, new_body [1, 2, 3] 3)]"
  by (simp add: sample_es_def)

lemma sample_ok: "\<forall>e \<in> set sample_es. entry_ok e"
  unfolding sample_es_def by (rule tar_rewrite_ok) (simp_all add: sample_names)

lemma length_sample: "length (archive sample_es) = 1024"
proof -
  have "length (tar_build_header (replicate 512 0) (bytes_of ''tmp/a'') 3 48) = 512"
    by (rule entry_ok_length) (use sample_ok in \<open>auto simp: sample_es_eq\<close>)
  then show ?thesis by (simp add: sample_es_eq blocks_def)
qed

lemma sample_area: "tar_area 0x07000000 4096 sample_es sample_mem"
  using sample_ok length_sample by (auto simp: tar_area_def sample_mem_def)

text \<open>An archive with a name that another one begins with, and an environment file.\<close>

definition pair_es :: "entry list" where
  "pair_es = map (\<lambda>(f, src, len). (tar_build_header (replicate 512 0) (bytes_of f) len 48, new_body src len))
     [(''tmp/a'', [1, 2, 3], 3), (''tmp/ab'', [7], 1), (''tmp/factory/env/a'', [104, 105, 0], 3)]"

definition pair_mem :: "byte list" where
  "pair_mem = archive pair_es @ replicate 5120 0"

lemma env_name: "tar_name (bytes_of ''tmp/factory/env/a'')"
  by (simp add: tar_name_def bytes_of_def cstr_Cons isascii_def word_le_nat_alt)

lemma pair_ok: "\<forall>e \<in> set pair_es. entry_ok e"
  by (simp add: pair_es_def entry_ok_new sample_names env_name)

lemma length_pair: "length (archive pair_es) = 3072"
proof -
  have "\<forall>(h, b) \<in> set pair_es. length h = 512"
    using pair_ok entry_ok_length by fast
  then show ?thesis by (simp add: pair_es_def new_body_def blocks_def)
qed

lemma pair_area: "tar_area 0x07000000 8192 pair_es pair_mem"
  using pair_ok length_pair by (auto simp: tar_area_def pair_mem_def)

lemma pair_lookup: "tar_lookup (bytes_of ''tmp/ab'') pair_es = Some [7]"
  using sample_names(6)
  by (simp add: pair_es_def entry_name_new entry_data_new tar_name_length take_name sample_names eq_commute)

section \<open>Properties\<close>

text \<open>C29. A header built by \<^verbatim>\<open>tar_build_header\<close>, over whatever bytes were there before, is accepted by
  \<^verbatim>\<open>tar_check_header\<close>, and its name and size read back as the values it was built from. The bytes
  from offset 500 on, which hold the RTK fields, are kept.\<close>

theorem tar_header_roundtrip:
  assumes "512 \<le> length p" and "tar_name f"
  shows "tar_check_header (tar_build_header p f len t) = 0
    \<and> cstr (tar_build_header p f len t) = cstr f
    \<and> simple_strtol (hdr_size (tar_build_header p f len t)) 8 = len
    \<and> rd (tar_build_header p f len t) 156 = t
    \<and> (\<forall>i. 500 \<le> i \<longrightarrow> rd (tar_build_header p f len t) i = rd p i)"
proof -
  have f: "length (cstr f) < 100" using assms(2) by (rule tar_name_length)
  have "tar_build_header (take 512 p @ drop 512 p) f len t = tar_build_header (take 512 p) f len t @ drop 512 p"
    using assms f by (intro tar_build_header_append) simp_all
  moreover have "hdr_ok (tar_build_header (take 512 p) f len t)"
    using assms by (intro hdr_ok_build_header) simp_all
  ultimately have "tar_check_header (tar_build_header p f len t) = 0"
    using hdr_ok_append(3) by simp
  then show ?thesis
    using assms f by (simp add: cstr_build_header simple_strtol_build_header tar_build_header_typeflag
      tar_build_header_keeps)
qed

theorem tar_header_roundtrip_witness:
  "tar_check_header (tar_build_header (replicate 512 7) (bytes_of ''tmp/a'') 3 48) = 0
    \<and> cstr (tar_build_header (replicate 512 7) (bytes_of ''tmp/a'') 3 48) = bytes_of ''tmp/a''"
  using tar_header_roundtrip [of "replicate 512 7" "bytes_of ''tmp/a''" 3 48] sample_names(1)
  by (simp add: bytes_of_def cstr_Cons)

text \<open>C28. Reading: on a buffer that holds a well-formed archive followed by zeros, \<^verbatim>\<open>tar_read\<close> always
  returns, stays inside the buffer, hands out exactly the contents of the first entry with the
  name (or 0 when there is none), and prints the names it passes that start with the prefix.\<close>

theorem tar_read_refines:
  assumes "tar_area a len es mem"
  shows "\<exists>r. tar_read s a mem len pi pfx = Some (r, tar_listed pi pfx (tar_passed s es))
    \<and> read_back a mem r = tar_lookup s es"
  using tar_read_area [OF assms] read_back_found [OF assms] by blast

theorem tar_read_refines_witness:
  "\<exists>r. tar_read (bytes_of ''tmp/a'') 0x07000000 sample_mem 4096 False []
       = Some (r, tar_listed False [] (tar_passed (bytes_of ''tmp/a'') sample_es))
     \<and> read_back 0x07000000 sample_mem r = tar_lookup (bytes_of ''tmp/a'') sample_es"
  by (rule tar_read_refines) (rule sample_area)

text \<open>C6. Rewriting: \<^verbatim>\<open>tar_add_or_delete\<close> on a well-formed archive with room for the new file returns,
  stays inside both buffers, and leaves the archive of the rewritten entries (\<open>tar_rewrite\<close>) with
  zeros behind it; its result is the length of that archive.\<close>

theorem tar_add_or_delete_refines:
  assumes "tar_area a alen es mem" and "tar_name f" and "unat len \<le> length src"
    and "length (archive es) + 512 + blocks (unat len) < unat alen"
    and "length tmp = unat alen"
  shows "\<exists>mem' tmp'. tar_add_or_delete mem f src len (Some tmp) (length tmp) add =
      Some (int (length (archive (tar_rewrite f src len add True False es))), mem', Some tmp')
    \<and> tar_area a alen (tar_rewrite f src len add True False es) mem' \<and> length tmp' = length tmp"
  by (rule tar_area_rewrite [OF assms])

theorem tar_add_or_delete_refines_witness:
  "\<exists>mem' tmp'. tar_add_or_delete sample_mem (bytes_of ''tmp/b'') [5] 1 (Some (replicate 4096 9)) (length (replicate 4096 (9::byte))) False =
      Some (int (length (archive (tar_rewrite (bytes_of ''tmp/b'') [5] 1 False True False sample_es))), mem', Some tmp')
    \<and> tar_area 0x07000000 4096 (tar_rewrite (bytes_of ''tmp/b'') [5] 1 False True False sample_es) mem'
    \<and> length tmp' = length (replicate 4096 (9::byte))"
  by (rule tar_add_or_delete_refines [OF sample_area sample_names(3)])
    (use length_sample in \<open>simp_all add: blocks_def\<close>)

text \<open>C16. Writing and reading back: after \<^verbatim>\<open>tar_add_or_delete\<close> stored a file, \<^verbatim>\<open>tar_read\<close> of its name
  hands out exactly the bytes that were stored, whether or not the file existed before.\<close>

theorem tar_add_read:
  assumes "tar_area a alen es mem" and "tar_name f" and "unat len \<le> length src"
    and "length (archive es) + 512 + blocks (unat len) < unat alen"
    and "length tmp = unat alen"
  shows "\<exists>n mem' tmp' r out. tar_add_or_delete mem f src len (Some tmp) (length tmp) True = Some (n, mem', tmp')
    \<and> tar_read f a mem' alen pi pfx = Some (r, out)
    \<and> read_back a mem' r = Some (take (unat len) src)"
proof -
  let ?es = "tar_rewrite f src len True True False es"
  obtain mem' tmp' where 1: "tar_add_or_delete mem f src len (Some tmp) (length tmp) True =
      Some (int (length (archive ?es)), mem', Some tmp')" and area: "tar_area a alen ?es mem'"
    using tar_area_rewrite [OF assms, of True] by blast
  have "tar_lookup f ?es = Some (take (unat len) src)"
    using assms by (intro lookup_after_add) (auto simp: tar_area_def)
  then show ?thesis
    using 1 tar_read_area [OF area] read_back_found [OF area] by fastforce
qed

theorem tar_add_read_witness:
  "\<exists>n mem' tmp' r out. tar_add_or_delete sample_mem (bytes_of ''tmp/b'') [5, 6] 2 (Some (replicate 4096 9))
       (length (replicate 4096 (9::byte))) True = Some (n, mem', tmp')
    \<and> tar_read (bytes_of ''tmp/b'') 0x07000000 mem' 4096 False [] = Some (r, out)
    \<and> read_back 0x07000000 mem' r = Some (take (unat (2::u32)) [5, 6])"
  by (rule tar_add_read [OF sample_area sample_names(3)])
    (use length_sample in \<open>simp_all add: blocks_def\<close>)

text \<open>C17. Frame: storing or deleting a file leaves what \<^verbatim>\<open>tar_read\<close> hands out under every other name
  unchanged, provided that name does not begin with the name of the file and no entry behind
  the first carries the RTK signature.\<close>

theorem tar_rewrite_frame:
  assumes "tar_area a alen es mem" and "tar_name f" and "unat len \<le> length src"
    and "length (archive es) + 512 + blocks (unat len) < unat alen"
    and "length tmp = unat alen"
    and "tar_name g" and "\<not> name_match f g" and "\<forall>e \<in> set (tl es). \<not> rtk_signed (fst e)"
  shows "\<exists>n mem' tmp' r out r' out'. tar_add_or_delete mem f src len (Some tmp) (length tmp) add = Some (n, mem', tmp')
    \<and> tar_read g a mem alen pi pfx = Some (r, out) \<and> tar_read g a mem' alen pi pfx = Some (r', out')
    \<and> read_back a mem' r' = read_back a mem r"
proof -
  let ?es = "tar_rewrite f src len add True False es"
  obtain mem' tmp' where 1: "tar_add_or_delete mem f src len (Some tmp) (length tmp) add =
      Some (int (length (archive ?es)), mem', Some tmp')" and area: "tar_area a alen ?es mem'"
    using tar_area_rewrite [OF assms(1-5), of add] by blast
  have "tar_lookup g ?es = tar_lookup g es"
    using assms by (intro lookup_others) (auto simp: tar_area_def)
  then show ?thesis
    using 1 tar_read_area [OF area] read_back_found [OF area]
      tar_read_area [OF assms(1)] read_back_found [OF assms(1)] by fastforce
qed

theorem tar_rewrite_frame_witness:
  "\<exists>n mem' tmp' r out r' out'. tar_add_or_delete sample_mem (bytes_of ''tmp/b'') [5] 1 (Some (replicate 4096 9))
       (length (replicate 4096 (9::byte))) True = Some (n, mem', tmp')
    \<and> tar_read (bytes_of ''tmp/a'') 0x07000000 sample_mem 4096 False [] = Some (r, out)
    \<and> tar_read (bytes_of ''tmp/a'') 0x07000000 mem' 4096 False [] = Some (r', out')
    \<and> read_back 0x07000000 mem' r' = read_back 0x07000000 sample_mem r"
  by (rule tar_rewrite_frame [OF sample_area sample_names(3) _ _ _ sample_names(1) sample_names(5)])
    (use length_sample in \<open>simp_all add: blocks_def sample_es_eq\<close>)

text \<open>C32. Names are matched by prefix: storing or deleting a file also removes every file whose
  name merely begins with its name, and deleting removes the file itself. The removed names are
  no longer found by \<^verbatim>\<open>tar_read\<close>.\<close>

theorem tar_rewrite_removes:
  assumes "tar_area a alen es mem" and "tar_name f" and "unat len \<le> length src"
    and "length (archive es) + 512 + blocks (unat len) < unat alen"
    and "length tmp = unat alen"
    and "tar_name g" and "name_match f g" and "add \<longrightarrow> cstr g \<noteq> cstr f"
  shows "\<exists>n mem' tmp' r out. tar_add_or_delete mem f src len (Some tmp) (length tmp) add = Some (n, mem', tmp')
    \<and> tar_read g a mem' alen pi pfx = Some (r, out) \<and> read_back a mem' r = None"
proof -
  let ?es = "tar_rewrite f src len add True False es"
  obtain mem' tmp' where 1: "tar_add_or_delete mem f src len (Some tmp) (length tmp) add =
      Some (int (length (archive ?es)), mem', Some tmp')" and area: "tar_area a alen ?es mem'"
    using tar_area_rewrite [OF assms(1-5), of add] by blast
  have "tar_lookup g ?es = None"
    using assms by (intro lookup_removed) (auto simp: tar_area_def)
  then show ?thesis
    using 1 tar_read_area [OF area] read_back_found [OF area] by fastforce
qed

theorem tar_rewrite_removes_witness:
  "tar_lookup (bytes_of ''tmp/ab'') pair_es = Some [7] \<and>
   (\<exists>n mem' tmp' r out. tar_add_or_delete pair_mem (bytes_of ''tmp/a'') [5] 1 (Some (replicate 8192 9))
       (length (replicate 8192 (9::byte))) True = Some (n, mem', tmp')
    \<and> tar_read (bytes_of ''tmp/ab'') 0x07000000 mem' 8192 False [] = Some (r, out)
    \<and> read_back 0x07000000 mem' r = None)"
  by (rule conjI [OF pair_lookup tar_rewrite_removes [OF pair_area sample_names(1) _ _ _ sample_names(2) sample_names(4)]])
    (use length_pair sample_names(6) in \<open>simp_all add: blocks_def\<close>)





section \<open>Reading by index\<close>

definition env_prefix :: "byte list" where
  "env_prefix = bytes_of ''tmp/factory/env/''"

definition is_env :: "entry \<Rightarrow> bool" where
  "is_env e \<longleftrightarrow> take 16 (entry_name e) = env_prefix"

lemma env_prefix_bytes: "cstr env_prefix = env_prefix" "length env_prefix = 16"
  by (simp_all add: env_prefix_def bytes_of_def cstr_Cons)

lemma strncmp_env:
  assumes "hdr_ok h"
  shows "strncmp (h @ r) env_prefix (length env_prefix) = 0 \<longleftrightarrow> is_env (h, b)"
  by (simp add: strncmp_eq_0 is_env_def entry_name_def env_prefix_bytes hdr_ok_append [OF assms])

lemma tar_check_zeros: "tar_check_header (replicate d 0) = - 1"
proof -
  have "rd (replicate d 0) i = 0" for i by (simp add: rd_def)
  then have "tar_checksum (replicate d 0) = (\<Sum>i\<leftarrow>[0..<8]. 32)"
    by (simp add: tar_checksum_def sum_list_triv)
  also have "\<dots> = 256" by code_simp
  finally have "tar_checksum (replicate d 0) = 256" .
  moreover have "simple_strtol (hdr_chksum (replicate d 0)) 8 = 0"
  proof -
    have "cstr (hdr_chksum (replicate d 0)) = []"
      by (cases "d - 148") (simp_all add: hdr_chksum_def cstr_Cons)
    then show ?thesis
      using simple_strtol_cstr [of "hdr_chksum (replicate d 0)" 8]
      by (simp add: simple_strtol_def simple_strtoul_def simple_strtoul_end_def)
  qed
  ultimately show ?thesis by (simp add: tar_check_header_def)
qed

fun env_at :: "nat \<Rightarrow> nat \<Rightarrow> entry list \<Rightarrow> (nat \<times> entry) option" where
  "env_at i off [] = None"
| "env_at i off (e # es) =
     (if is_env e then
        (case i of 0 \<Rightarrow> Some (off, e) | Suc j \<Rightarrow> env_at j (off + 512 + length (snd e)) es)
      else env_at i (off + 512 + length (snd e)) es)"

lemma env_at_nth:
  "map_option snd (env_at i off es) =
     (if i < length (filter is_env es) then Some (filter is_env es ! i) else None)"
  by (induction i off es rule: env_at.induct) (auto split: nat.splits)

lemma tar_index_loop_done: "i < 0 \<Longrightarrow> tar_index_loop src i pos hp fs = Some (i, hp, fs)"
  by (subst tar_index_loop.simps) simp

lemma tar_index_loop_archive:
  assumes "\<forall>e \<in> set es. entry_ok e" and "src = pre @ archive es @ replicate d 0" and "512 \<le> d"
    and "length src + 1024 < 2 ^ 31"
  shows "\<exists>idx off fs'. tar_index_loop src (int i) (int (length pre)) hp fs = Some (idx, Some off, fs')
    \<and> (case env_at i (length pre) es of
         None \<Rightarrow> 0 \<le> idx
       | Some (p, e) \<Rightarrow> idx = - 1 \<and> off = p \<and> fs' = simple_strtol (hdr_size (fst e)) 8)"
  using assms(1,2)
proof (induction es arbitrary: pre i hp fs)
  case Nil
  have "tar_check_header (drop (nat (int (length pre))) src) = - 1"
    using Nil.prems by (simp add: tar_check_zeros)
  then show ?case
    using Nil.prems assms(3) by (subst tar_index_loop.simps) simp
next
  case (Cons e es)
  obtain h b where e: "e = (h, b)" by (cases e)
  from Cons.prems(1) e have h: "hdr_ok h" and b: "length b = blocks (hdr_len h)"
      and es: "\<forall>e \<in> set es. entry_ok e"
    by (auto simp: entry_ok_def)
  have hl: "length h = 512" using h by (rule hdr_ok_length)
  let ?r = "b @ archive es @ replicate d 0"
  let ?fs = "simple_strtol (hdr_size h) 8"
  let ?i = "if is_env e then int i - 1 else int i"
  have D: "drop (nat (int (length pre))) src = h @ ?r" using Cons.prems(2) e by simp
  have L: "\<not> (int (length pre) < 0 \<or> int (length src) < int (length pre) + 512)" "\<not> int i < 0"
    using Cons.prems(2) e hl by simp_all
  have pb: "length pre + 512 + length b + 512 < 2 ^ 31"
    using Cons.prems(2) e hl assms(4) by simp
  note nx = walk_next(1) [OF h b pb, of ?r, unfolded hdr_ok_append(2) [OF h]]
  have step: "tar_index_loop src (int i) (int (length pre)) hp fs =
      tar_index_loop src ?i (int (length (pre @ h @ b))) (Some (length pre)) ?fs"
    apply (subst tar_index_loop.simps)
    unfolding Let_def D hdr_ok_append(2,3) [OF h] nx env_prefix_def [symmetric]
    using L strncmp_env [OF h, of ?r b] e by simp
  have src: "src = (pre @ h @ b) @ archive es @ replicate d 0" using Cons.prems(2) e by simp
  have off: "length (pre @ h @ b) = length pre + 512 + length (snd e)" using hl e by simp
  show ?case
  proof (cases "is_env e \<and> i = 0")
    case True
    then show ?thesis
      unfolding step by (auto simp: tar_index_loop_done e)
  next
    case False
    define j where "j = (if is_env e then i - 1 else i)"
    have j: "?i = int j" "env_at i (length pre) (e # es) = env_at j (length (pre @ h @ b)) es"
      unfolding off j_def using False by (cases i; auto)+
    show ?thesis
      unfolding step j using Cons.IH [OF es src, of j "Some (length pre)" ?fs] .
  qed
qed

lemma env_at_drop:
  assumes "\<forall>e \<in> set es. entry_ok e" and "env_at i off es = Some (p, e)"
  shows "off \<le> p \<and> e \<in> set es \<and> is_env e \<and> (\<exists>r. drop (p - off) (archive es @ z) = fst e @ snd e @ r)"
  using assms
proof (induction es arbitrary: i off)
  case (Cons a es)
  obtain h b where a: "a = (h, b)" by (cases a)
  have hl: "length h = 512" using Cons.prems a entry_ok_length by auto
  show ?case
  proof (cases "is_env a \<and> i = 0")
    case True
    then show ?thesis using Cons.prems a by auto
  next
    case False
    then obtain j where "env_at j (off + 512 + length b) es = Some (p, e)"
      using Cons.prems a by (auto split: if_splits nat.splits)
    with Cons.IH Cons.prems(1)
    have IH: "off + 512 + length b \<le> p" "e \<in> set es" "is_env e"
        "\<exists>r. drop (p - (off + 512 + length b)) (archive es @ z) = fst e @ snd e @ r"
      by fastforce+
    moreover have "drop (p - off) (archive (a # es) @ z) = drop (p - (off + 512 + length b)) (archive es @ z)"
      using IH(1) a hl by simp
    ultimately show ?thesis by auto
  qed
qed simp

text \<open>C30. Enumeration: on a well-formed archive followed by at least one zero block,
  \<^verbatim>\<open>tar_read_by_index\<close> with index \<open>i\<close> returns the size, the name and the contents (up to the first
  NUL) of the \<open>i\<close>-th entry under \<^verbatim>\<open>tmp/factory/env/\<close>, and -1 when there are no more. The contents of each such
  entry, with the padding to whole blocks, hold a NUL: the copy is a \<^verbatim>\<open>strcpy\<close>.\<close>

theorem tar_read_by_index_nth:
  assumes "\<forall>e \<in> set es. entry_ok e" and "mem = archive es @ replicate d 0" and "512 \<le> d"
    and "length mem + 1024 < 2 ^ 31" and "\<forall>e \<in> set es. is_env e \<longrightarrow> 0 \<in> set (snd e)"
  shows "tar_read_by_index (int i) mem True =
    Some (if i < length (filter is_env es)
          then (let e = filter is_env es ! i in
                (int (hdr_len (fst e)), Some (entry_name e, cstr (snd e))))
          else (- 1, None))"
proof -
  obtain idx off fs where loop: "tar_index_loop mem (int i) 0 None 0 = Some (idx, Some off, fs)"
    and res: "case env_at i 0 es of None \<Rightarrow> 0 \<le> idx
       | Some (p, e) \<Rightarrow> idx = - 1 \<and> off = p \<and> fs = simple_strtol (hdr_size (fst e)) 8"
    using tar_index_loop_archive [OF assms(1) _ assms(3,4), of "[]" i None 0] assms(2) by auto
  show ?thesis
  proof (cases "env_at i 0 es")
    case None
    then show ?thesis
      using loop res env_at_nth [of i 0 es] by (simp add: tar_read_by_index_def split: if_splits)
  next
    case (Some r)
    obtain p e where r: "r = (p, e)" by (cases r)
    obtain h b where e: "e = (h, b)" by (cases e)
    from env_at_drop [OF assms(1) Some [unfolded r], of "replicate d 0"] obtain z where
      "e \<in> set es" "is_env e" and d: "drop p mem = h @ b @ z"
      using assms(2) e by auto
    with assms(1,5) e have h: "hdr_ok h" and b: "length b = blocks (hdr_len h)" "0 \<in> set b"
      by (auto simp: entry_ok_def)
    have "drop (p + 512) mem = drop 512 (drop p mem)" by (simp add: add.commute)
    then have d2: "drop (p + 512) mem = b @ z" using d hdr_ok_length [OF h] by simp
    have "length (drop p mem) \<le> length mem" by simp
    then have "hdr_len h < 2 ^ 31"
      using d b blocks_bounds(1) [of "hdr_len h"] assms(4) by simp
    then have "sint (simple_strtol (hdr_size h) 8) = int (hdr_len h)"
      by (intro sint_nat_u32) (simp_all add: hdr_len_def)
    moreover have "i < length (filter is_env es)" "filter is_env es ! i = e"
      using env_at_nth [of i 0 es] Some r by (simp_all split: if_splits)
    ultimately show ?thesis
      using loop res Some r e d d2 hdr_ok_append(1) [OF h] cstr_append_term [OF b(2)]
      by (simp add: tar_read_by_index_def entry_name_def)
  qed
qed

lemma pair_env: "filter is_env pair_es = [pair_es ! 2]"
  by (simp add: pair_es_def is_env_def entry_name_new tar_name_length sample_names env_name)
    (simp add: env_prefix_def bytes_of_def cstr_Cons)

lemma pair_env_entry:
  "hdr_len (fst (pair_es ! 2)) = 3" "entry_name (pair_es ! 2) = bytes_of ''tmp/factory/env/a''"
  "cstr (snd (pair_es ! 2)) = [104, 105]"
  by (simp_all add: pair_es_def entry_name_new tar_name_length env_name hdr_len_def simple_strtol_build_header
      new_body_def blocks_def cstr_Cons)
    (simp add: bytes_of_def cstr_Cons)

theorem tar_read_by_index_nth_witness:
  "tar_read_by_index (int 0) pair_mem True = Some (3, Some (bytes_of ''tmp/factory/env/a'', [104, 105])) \<and>
   tar_read_by_index (int 1) pair_mem True = Some (- 1, None)"
proof -
  have nul: "\<forall>e \<in> set pair_es. is_env e \<longrightarrow> 0 \<in> set (snd e)"
    by (simp add: pair_es_def new_body_def blocks_def)
  have "512 \<le> (5120::nat)" "length pair_mem + 1024 < 2 ^ 31"
    using length_pair by (simp_all add: pair_mem_def)
  from tar_read_by_index_nth [OF pair_ok pair_mem_def this nul, of 0]
    tar_read_by_index_nth [OF pair_ok pair_mem_def this nul, of 1]
  show ?thesis
    by (simp add: pair_env pair_env_entry Let_def)
qed

end
