(* ===== verification/Flash.thy ===== *)
theory Flash
  imports Tar
begin

text \<open>
  The flash access routines the factory store is built on: the SPI NOR routines of
  \<^verbatim>\<open>u-boot32/common/cmd_rtkspi.c\<close> and the eMMC block transfers of \<^verbatim>\<open>u-boot32/drivers/mmc/rtkmmc.c\<close>.

  The contents of a flash are a byte list. What the chip itself does is a parameter: \<open>prog\<close>
  is the effect of programming a byte on the byte that was there (a NOR flash can only clear
  bits), and the two error functions say which block transfers of the card controller
  (\<^verbatim>\<open>mmccr_Stream\<close>) fail and what a failed write leaves behind.
\<close>

section \<open>SPI NOR\<close>

definition SPI_RBUS_BASE_ADDR :: u32 where "SPI_RBUS_BASE_ADDR = 0xB8100000"

text \<open>The position in the flash of a bus address.\<close>

definition spi_offset :: "u32 \<Rightarrow> nat" where
  "spi_offset a = unat (a - SPI_RBUS_BASE_ADDR)"

record s_device_type =
  sec_256k_en :: bool
  sec_64k_en :: bool
  sec_32k_en :: bool
  sec_4k_en :: bool

text \<open>The last assignment wins: the smallest sector the chip supports, 0 for none.\<close>

definition rtkspi_get_min_erase_size :: "s_device_type \<Rightarrow> u32" where
  "rtkspi_get_min_erase_size t =
     (let sz = 0;
          sz = (if sec_256k_en t then push_bit 10 256 else sz);
          sz = (if sec_64k_en t then push_bit 10 64 else sz);
          sz = (if sec_32k_en t then push_bit 10 32 else sz);
          sz = (if sec_4k_en t then push_bit 10 4 else sz)
      in if sz \<noteq> 0 then sz else 0)"

text \<open>\<^verbatim>\<open>rtkspi_read32\<close> copies \<^verbatim>\<open>byte_length >> 2\<close> words; the result is what it stores at the
  target.\<close>

fun rtkspi_words :: "byte list \<Rightarrow> u32 \<Rightarrow> nat \<Rightarrow> byte list" where
  "rtkspi_words flash source_address 0 = []"
| "rtkspi_words flash source_address (Suc word_length) =
     le32 (rd32 flash (spi_offset source_address))
     @ rtkspi_words flash (source_address + 4) word_length"

definition rtkspi_read32 :: "byte list \<Rightarrow> u32 \<Rightarrow> u32 \<Rightarrow> byte list" where
  "rtkspi_read32 flash source_address byte_length =
     rtkspi_words flash source_address (unat (drop_bit 2 byte_length))"

text \<open>\<^verbatim>\<open>rtkspi_write8\<close>: programs the bytes one after the other.\<close>

fun rtkspi_write8 :: "(byte \<Rightarrow> byte \<Rightarrow> byte) \<Rightarrow> u32 \<Rightarrow> byte list \<Rightarrow> byte list \<Rightarrow> byte list" where
  "rtkspi_write8 prog target_address [] flash = flash"
| "rtkspi_write8 prog target_address (c # cs) flash =
     (let i = spi_offset target_address in
      rtkspi_write8 prog (target_address + 1) cs (flash[i := prog (flash ! i) c]))"

text \<open>\<^verbatim>\<open>rtkspi_erase\<close>: the whole sectors that cover the range, each filled with 0xFF.\<close>

definition erase_sector :: "nat \<Rightarrow> nat \<Rightarrow> byte list \<Rightarrow> byte list" where
  "erase_sector off n flash =
     take off flash @ replicate (min n (length flash - off)) 0xFF @ drop (off + n) flash"

partial_function (option) rtkspi_erase_loop ::
  "u32 \<Rightarrow> u32 \<Rightarrow> u32 \<Rightarrow> byte list \<Rightarrow> (int \<times> byte list) option" where
  "rtkspi_erase_loop sz curr_address end_address flash =
     (if curr_address < end_address then
        if sz = push_bit 10 256 \<or> sz = push_bit 10 64 \<or> sz = push_bit 10 32 \<or> sz = push_bit 10 4
        then rtkspi_erase_loop sz (curr_address + sz) end_address
               (erase_sector (spi_offset curr_address) (unat sz) flash)
        else Some (- 1, flash)
      else Some (0, flash))"

definition rtkspi_erase :: "u32 \<Rightarrow> u32 \<Rightarrow> u32 \<Rightarrow> byte list \<Rightarrow> (int \<times> byte list) option" where
  "rtkspi_erase sz spi_offset_address byte_length flash =
     (if sz = 0 then Some (0, flash)
      else
        let start_address = spi_offset_address AND NOT (sz - 1);
            end_address = (spi_offset_address + byte_length + (sz - 1)) AND NOT (sz - 1)
        in rtkspi_erase_loop sz start_address end_address flash)"

section \<open>eMMC\<close>

definition EMMC_BLOCK_SIZE :: nat where "EMMC_BLOCK_SIZE = 512"
definition EMMC_MAX_XFER_BLKCNT :: nat where "EMMC_MAX_XFER_BLKCNT = 256"

text \<open>The number of blocks of a transfer.\<close>

definition total_blk_cont :: "u32 \<Rightarrow> nat" where
  "total_blk_cont data_size =
     (let n = unat (drop_bit 9 data_size) in if data_size AND 0x1ff \<noteq> 0 then n + 1 else n)"

text \<open>The block loops. A failed transfer ends the call with 0. A failed read leaves the rest of
  the buffer as it was; after a failed write of some blocks the card holds what \<open>werr\<close> says.\<close>

function rtk_eMMC_read_loop ::
  "(nat \<Rightarrow> nat \<Rightarrow> bool) \<Rightarrow> byte list \<Rightarrow> nat \<Rightarrow> nat \<Rightarrow> nat \<Rightarrow> byte list \<Rightarrow> bool \<times> byte list" where
  "rtk_eMMC_read_loop rerr flash cont address off buffer =
     (if cont = 0 then (True, buffer)
      else
        let curr = (if cont > EMMC_MAX_XFER_BLKCNT then EMMC_MAX_XFER_BLKCNT else cont) in
        if rerr address curr then (False, buffer)
        else rtk_eMMC_read_loop rerr flash (cont - curr) (address + curr) (off + curr * 512)
               (patch off (take (curr * 512) (drop (address * 512) flash)) buffer))"
  by pat_completeness auto
termination
  by (relation "measure (\<lambda>(rerr, flash, cont, address, off, buffer). cont)")
    (auto simp: EMMC_MAX_XFER_BLKCNT_def)

definition rtk_eMMC_read ::
  "(nat \<Rightarrow> nat \<Rightarrow> bool) \<Rightarrow> byte list \<Rightarrow> nat \<Rightarrow> u32 \<Rightarrow> byte list \<Rightarrow> nat \<times> byte list" where
  "rtk_eMMC_read rerr flash blk_addr data_size buffer =
     (let (ok, buffer') = rtk_eMMC_read_loop rerr flash (total_blk_cont data_size) blk_addr 0 buffer
      in (if ok then total_blk_cont data_size else 0, buffer'))"

function rtk_eMMC_write_loop ::
  "(nat \<Rightarrow> byte list \<Rightarrow> byte list \<Rightarrow> byte list option) \<Rightarrow> nat \<Rightarrow> nat \<Rightarrow> byte list \<Rightarrow> byte list \<Rightarrow>
   bool \<times> byte list" where
  "rtk_eMMC_write_loop werr cont address buffer flash =
     (if cont = 0 then (True, flash)
      else
        let curr = (if cont > EMMC_MAX_XFER_BLKCNT then EMMC_MAX_XFER_BLKCNT else cont);
            data = take (curr * 512) buffer in
        case werr address data flash of
          Some flash' \<Rightarrow> (False, flash')
        | None \<Rightarrow> rtk_eMMC_write_loop werr (cont - curr) (address + curr)
                    (drop (curr * 512) buffer) (patch (address * 512) data flash))"
  by pat_completeness auto
termination
  by (relation "measure (\<lambda>(werr, cont, address, buffer, flash). cont)")
    (auto simp: EMMC_MAX_XFER_BLKCNT_def)

definition rtk_eMMC_write ::
  "(nat \<Rightarrow> byte list \<Rightarrow> byte list \<Rightarrow> byte list option) \<Rightarrow> nat \<Rightarrow> u32 \<Rightarrow> byte list \<Rightarrow> byte list \<Rightarrow>
   nat \<times> byte list" where
  "rtk_eMMC_write werr blk_addr data_size buffer flash =
     (let (ok, flash') = rtk_eMMC_write_loop werr (total_blk_cont data_size) blk_addr buffer flash
      in (if ok then total_blk_cont data_size else 0, flash'))"

declare rtk_eMMC_read_loop.simps [simp del]
declare rtk_eMMC_write_loop.simps [simp del]

section \<open>What the SPI routines do\<close>

lemma spi_offset_add:
  assumes "spi_offset a + n < 2 ^ 32"
  shows "spi_offset (a + of_nat n) = spi_offset a + n"
proof -
  have n: "unat (of_nat n :: u32) = n" using assms by (simp add: unat_of_nat_u32)
  define x where "x = a - SPI_RBUS_BASE_ADDR"
  have e: "a + of_nat n - SPI_RBUS_BASE_ADDR = x + of_nat n" by (simp add: x_def)
  have "unat (x + of_nat n) = unat x + n"
    using assms n by (simp add: spi_offset_def x_def [symmetric] unat_word_ariths)
  then show ?thesis unfolding spi_offset_def e x_def [symmetric] .
qed

lemma rtkspi_words_eq:
  assumes "spi_offset a + 4 * n \<le> length flash" and "length flash < 2 ^ 32"
  shows "rtkspi_words flash a n = take (4 * n) (drop (spi_offset a) flash)"
  using assms(1)
proof (induction n arbitrary: a)
  case (Suc n)
  have "spi_offset (a + of_nat 4) = spi_offset a + 4"
    using Suc.prems assms(2) by (intro spi_offset_add) simp
  then have o: "spi_offset (a + 4) = spi_offset a + 4" by simp
  have "rtkspi_words flash (a + 4) n = take (4 * n) (drop (spi_offset a + 4) flash)"
    using Suc o by simp
  moreover have "take (4 * Suc n) (drop (spi_offset a) flash) =
      take 4 (drop (spi_offset a) flash) @ take (4 * n) (drop (spi_offset a + 4) flash)"
    using take_add [of 4 "4 * n" "drop (spi_offset a) flash"] by (simp add: add.commute)
  ultimately show ?case
    using Suc.prems by (simp add: rd32_le32_take)
qed simp

lemma rtkspi_read32_eq:
  assumes "spi_offset a + unat len \<le> length flash" and "length flash < 2 ^ 32"
  shows "rtkspi_read32 flash a len = take (unat len div 4 * 4) (drop (spi_offset a) flash)"
proof -
  have "unat (drop_bit 2 len) = unat len div 4"
    by (simp add: drop_bit_eq_div unat_div)
  then show ?thesis
    using assms rtkspi_words_eq [of a "unat len div 4" flash] unfolding rtkspi_read32_def
    by (simp add: mult.commute order_trans [OF _ assms(1)])
qed

lemma rtkspi_write8_erased:
  assumes "spi_offset a + length cs \<le> length flash" and "length flash < 2 ^ 32"
    and "take (length cs) (drop (spi_offset a) flash) = replicate (length cs) 0xFF"
    and "\<And>b. prog 0xFF b = b"
  shows "rtkspi_write8 prog a cs flash = patch (spi_offset a) cs flash"
  using assms(1-3)
proof (induction cs arbitrary: a flash)
  case Nil
  then show ?case by simp
next
  case (Cons c cs)
  let ?i = "spi_offset a"
  have "spi_offset (a + of_nat 1) = ?i + 1" using Cons.prems by (intro spi_offset_add) simp
  then have o: "spi_offset (a + 1) = ?i + 1" by simp
  have i: "?i < length flash" using Cons.prems(1) by simp
  then have dr: "drop ?i flash = flash ! ?i # drop (?i + 1) flash"
    by (simp add: Cons_nth_drop_Suc)
  then have ff: "flash ! ?i = 0xFF" "take (length cs) (drop (?i + 1) flash) = replicate (length cs) 0xFF"
    using Cons.prems(3) by simp_all
  let ?fl = "flash[?i := c]"
  have "rtkspi_write8 prog (a + 1) cs ?fl = patch (?i + 1) cs ?fl"
    using Cons.IH [of "a + 1" ?fl] Cons.prems o ff by (simp add: drop_update_cancel)
  moreover have "patch (?i + 1) cs ?fl = patch ?i (c # cs) flash"
    using i by (simp add: patch_def take_Suc_conv_app_nth drop_update_cancel take_update_cancel)
  ultimately show ?case
    using ff(1) assms(4) by simp
qed


subsection \<open>Erasing\<close>

lemma and_not_mask: "(x::u32) AND NOT (mask k) = x - take_bit k x"
proof -
  have "x AND NOT (mask k) = push_bit k (drop_bit k x)"
    by (rule bit_word_eqI) (auto simp: bit_simps)
  also have "\<dots> = x - take_bit k x"
    using bits_ident [of k x] by (simp add: algebra_simps)
  finally show ?thesis .
qed

lemma unat_and_not_mask:
  assumes "k < 32"
  shows "unat ((x::u32) AND NOT (2 ^ k - 1)) = unat x div 2 ^ k * 2 ^ k"
proof -
  have "2 ^ k - 1 = (mask k :: u32)" by (simp add: mask_eq_exp_minus_1)
  moreover have t: "unat (take_bit k x) = unat x mod 2 ^ k"
    unfolding unsigned_take_bit_eq by (simp add: take_bit_eq_mod)
  moreover have "take_bit k x \<le> x"
    unfolding word_le_nat_alt t by simp
  ultimately show ?thesis
    by (simp add: and_not_mask unat_sub minus_mod_eq_div_mult)
qed

lemma length_erase_sector [simp]: "length (erase_sector off n flash) = length flash"
  by (auto simp: erase_sector_def)

lemma erase_sector_fit:
  "off + n \<le> length flash \<Longrightarrow> erase_sector off n flash = patch off (replicate n 0xFF) flash"
  by (simp add: erase_sector_def patch_def)

lemma erase_erase:
  assumes "off + n + m \<le> length flash"
  shows "erase_sector (off + n) m (erase_sector off n flash) = erase_sector off (n + m) flash"
  using assms append_replicate_commute [of n "0xFF :: byte" m]
  by (simp add: erase_sector_fit) (simp add: patch_def replicate_add ac_simps)

definition sector_size :: "u32 \<Rightarrow> bool" where
  "sector_size sz \<longleftrightarrow> sz = 2 ^ 18 \<or> sz = 2 ^ 16 \<or> sz = 2 ^ 15 \<or> sz = 2 ^ 12"

lemma sector_size_alt:
  "sz = push_bit 10 256 \<or> sz = push_bit 10 64 \<or> sz = push_bit 10 32 \<or> sz = push_bit 10 4
   \<longleftrightarrow> sector_size sz"
  by (simp add: sector_size_def push_bit_eq_mult)

lemma sector_size_exp: "sector_size sz \<Longrightarrow> \<exists>k. k < 32 \<and> sz = 2 ^ k \<and> unat sz = 2 ^ k"
  by (auto simp: sector_size_def intro: exI [of _ 18] exI [of _ 16] exI [of _ 15] exI [of _ 12])

lemma rtkspi_erase_loop_eq:
  assumes "sector_size sz" and "unat e = unat a + m * unat sz"
    and "spi_offset a + m * unat sz \<le> length flash" and "length flash < 2 ^ 32"
  shows "rtkspi_erase_loop sz a e flash = Some (0, erase_sector (spi_offset a) (m * unat sz) flash)"
  using assms(2-4)
proof (induction m arbitrary: a flash)
  case 0
  then have "e = a" by (simp add: word_unat_eq_iff)
  then show ?case
    by (subst rtkspi_erase_loop.simps) (simp add: erase_sector_def)
next
  case (Suc m)
  obtain k where k: "k < 32" "sz = 2 ^ k" "unat sz = 2 ^ k" using sector_size_exp [OF assms(1)] by blast
  let ?n = "unat sz"
  have lt: "a < e" using Suc.prems(1) k by (simp add: word_less_nat_alt)
  have ub: "unat e < 2 ^ 32" by (rule unat_u32_less)
  have ua: "unat (a + sz) = unat a + ?n"
    using Suc.prems(1) ub by (simp add: unat_word_ariths)
  have "spi_offset (a + of_nat ?n) = spi_offset a + ?n"
    using Suc.prems(2,3) by (intro spi_offset_add) simp
  then have o: "spi_offset (a + sz) = spi_offset a + ?n" by simp
  let ?fl = "erase_sector (spi_offset a) ?n flash"
  have "rtkspi_erase_loop sz (a + sz) e ?fl =
      Some (0, erase_sector (spi_offset (a + sz)) (m * ?n) ?fl)"
    using Suc.prems ua o by (intro Suc.IH) simp_all
  moreover have "erase_sector (spi_offset a + ?n) (m * ?n) ?fl = erase_sector (spi_offset a) (Suc m * ?n) flash"
    using Suc.prems(2) erase_erase [of "spi_offset a" ?n "m * ?n" flash] by simp
  ultimately show ?case
    using lt o assms(1) [folded sector_size_alt] by (subst rtkspi_erase_loop.simps) simp
qed


definition round_up :: "nat \<Rightarrow> nat \<Rightarrow> nat" where
  "round_up n s = (n + s - 1) div s * s"

lemma round_up_ge: "0 < s \<Longrightarrow> n \<le> round_up n s"
proof -
  assume "0 < s"
  then have "(n + s - 1) mod s < s" by simp
  moreover have "round_up n s + (n + s - 1) mod s = n + s - 1" by (simp add: round_up_def)
  ultimately show ?thesis using \<open>0 < s\<close> by linarith
qed

lemma round_up_le: "s dvd m \<Longrightarrow> n \<le> m \<Longrightarrow> 0 < s \<Longrightarrow> round_up n s \<le> m"
proof -
  assume "s dvd m" "n \<le> m" "0 < s"
  then obtain q where m: "m = q * s" by (metis dvd_def mult.commute)
  have "(n + s - 1) div s \<le> (q * s + (s - 1)) div s"
    using \<open>n \<le> m\<close> \<open>0 < s\<close> m by (intro div_le_mono) simp
  also have "\<dots> = q"
    using \<open>0 < s\<close> div_mult_self3 [of s q "s - 1"] by simp
  finally show ?thesis by (simp add: round_up_def m)
qed

lemma rtkspi_erase_eq:
  assumes sz: "sector_size sz" and al: "unat sz dvd unat a"
    and fit: "spi_offset a + round_up (unat len) (unat sz) \<le> length flash" "length flash < 2 ^ 32"
    and nowrap: "unat a + unat len + unat sz < 2 ^ 32"
  shows "rtkspi_erase sz a len flash =
    Some (0, erase_sector (spi_offset a) (round_up (unat len) (unat sz)) flash)"
proof -
  obtain k where k: "k < 32" "sz = 2 ^ k" "unat sz = 2 ^ k" using sector_size_exp [OF sz] by blast
  let ?m = "(unat len + unat sz - 1) div unat sz"
  have sz0: "sz \<noteq> 0" "0 < unat sz" using k by auto
  have st: "a AND NOT (sz - 1) = a"
  proof -
    have "unat (a AND NOT (sz - 1)) = unat a div 2 ^ k * 2 ^ k"
      unfolding k(2) by (rule unat_and_not_mask [OF k(1)])
    also have "\<dots> = unat a" using al k(3) by simp
    finally show ?thesis by (simp only: word_unat_eq_iff)
  qed
  have u1: "unat (sz - 1) = unat sz - 1" using sz0 by (simp add: unat_minus_one)
  have u2: "unat (a + len + (sz - 1)) = unat a + (unat len + unat sz - 1)"
  proof -
    have "unat (a + len) = unat a + unat len"
      using nowrap by (simp add: unat_word_ariths)
    then show ?thesis using nowrap u1 sz0 by (simp add: unat_word_ariths)
  qed
  have "unat ((a + len + (sz - 1)) AND NOT (sz - 1)) = (unat a + (unat len + unat sz - 1)) div 2 ^ k * 2 ^ k"
    using unat_and_not_mask [OF k(1), of "a + len + (sz - 1)"] u2 k(2) by simp
  also have "\<dots> = unat a + ?m * unat sz"
    using al k by (auto simp: div_plus_div_distrib_dvd_left distrib_right)
  finally have "rtkspi_erase_loop sz a ((a + len + (sz - 1)) AND NOT (sz - 1)) flash =
      Some (0, erase_sector (spi_offset a) (?m * unat sz) flash)"
    using fit by (intro rtkspi_erase_loop_eq [OF sz]) (simp_all add: round_up_def)
  then show ?thesis
    using sz0 by (simp add: rtkspi_erase_def st round_up_def)
qed

section \<open>What the eMMC routines do\<close>

lemma unat_and_1ff: "data_size AND 0x1ff \<noteq> 0 \<longleftrightarrow> unat (data_size :: u32) mod 512 \<noteq> 0"
proof -
  have "(0x1ff :: u32) = mask 9" by (simp add: mask_eq_exp_minus_1)
  then have "data_size AND 0x1ff = take_bit 9 data_size" by (simp only: take_bit_eq_mask)
  moreover have "unat (take_bit 9 data_size) = unat data_size mod 512"
    unfolding unsigned_take_bit_eq by (simp add: take_bit_eq_mod)
  ultimately show ?thesis by (metis unat_eq_zero)
qed

lemma total_blk_cont_eq: "total_blk_cont n = (unat n + 511) div 512"
proof -
  have d: "unat (drop_bit 9 n) = unat n div 512" by (simp add: drop_bit_eq_div unat_div)
  have "(k + 511) div 512 = (if k mod 512 \<noteq> 0 then k div 512 + 1 else k div 512)" for k :: nat
  proof -
    define q r where "q = k div 512" and "r = k mod 512"
    have "k = 512 * q + r" "r < 512" by (simp_all add: q_def r_def)
    then have "(k + 511) div 512 = (if r \<noteq> 0 then q + 1 else q)" by (auto intro!: div_nat_eqI)
    then show ?thesis by (simp add: q_def r_def)
  qed
  then show ?thesis by (simp add: total_blk_cont_def d unat_and_1ff Let_def)
qed

lemma patch_patch:
  "n = off + length a \<Longrightarrow> off \<le> length p \<Longrightarrow> patch n b (patch off a p) = patch off (a @ b) p"
  using patch_patch_append [of n off a "[]" b p] by simp

lemma rtk_eMMC_read_loop_ok:
  assumes "\<And>a n. \<not> rerr a n" and "(address + cont) * 512 \<le> length flash"
    and "off + cont * 512 \<le> length buffer"
  shows "rtk_eMMC_read_loop rerr flash cont address off buffer =
    (True, patch off (take (cont * 512) (drop (address * 512) flash)) buffer)"
  using assms(2,3)
proof (induction cont arbitrary: address off buffer rule: less_induct)
  case (less cont)
  show ?case
  proof (cases "cont = 0")
    case False
    define c where "c = (if cont > EMMC_MAX_XFER_BLKCNT then EMMC_MAX_XFER_BLKCNT else cont)"
    have c: "0 < c" "c \<le> cont" using False by (auto simp: c_def EMMC_MAX_XFER_BLKCNT_def)
    let ?d = "take (c * 512) (drop (address * 512) flash)"
    have ld: "length ?d = c * 512" using less.prems c by (simp add: algebra_simps)
    have "rtk_eMMC_read_loop rerr flash (cont - c) (address + c) (off + c * 512) (patch off ?d buffer) =
        (True, patch (off + c * 512) (take ((cont - c) * 512) (drop ((address + c) * 512) flash)) (patch off ?d buffer))"
      using less.prems c ld by (intro less.IH) (simp_all add: algebra_simps)
    also have "patch (off + c * 512) (take ((cont - c) * 512) (drop ((address + c) * 512) flash)) (patch off ?d buffer)
        = patch off (?d @ take ((cont - c) * 512) (drop ((address + c) * 512) flash)) buffer"
      using less.prems c ld by (intro patch_patch) simp_all
    also have "?d @ take ((cont - c) * 512) (drop ((address + c) * 512) flash)
        = take (cont * 512) (drop (address * 512) flash)"
      using take_add [of "c * 512" "(cont - c) * 512" "drop (address * 512) flash"] c
      by (simp add: algebra_simps)
    finally show ?thesis
      using False assms(1) [of address c] by (subst rtk_eMMC_read_loop.simps) (simp add: c_def [symmetric])
  qed (use less.prems in \<open>simp add: rtk_eMMC_read_loop.simps\<close>)
qed

lemma rtk_eMMC_write_loop_ok:
  assumes "\<And>a d f. werr a d f = None" and "(address + cont) * 512 \<le> length flash"
    and "cont * 512 \<le> length buffer"
  shows "rtk_eMMC_write_loop werr cont address buffer flash =
    (True, patch (address * 512) (take (cont * 512) buffer) flash)"
  using assms(2,3)
proof (induction cont arbitrary: address buffer flash rule: less_induct)
  case (less cont)
  show ?case
  proof (cases "cont = 0")
    case False
    define c where "c = (if cont > EMMC_MAX_XFER_BLKCNT then EMMC_MAX_XFER_BLKCNT else cont)"
    have c: "0 < c" "c \<le> cont" using False by (auto simp: c_def EMMC_MAX_XFER_BLKCNT_def)
    let ?d = "take (c * 512) buffer"
    have ld: "length ?d = c * 512" using less.prems c by (simp add: algebra_simps)
    have "rtk_eMMC_write_loop werr (cont - c) (address + c) (drop (c * 512) buffer) (patch (address * 512) ?d flash) =
        (True, patch ((address + c) * 512) (take ((cont - c) * 512) (drop (c * 512) buffer)) (patch (address * 512) ?d flash))"
      using less.prems c ld by (intro less.IH) (simp_all add: algebra_simps)
    also have "patch ((address + c) * 512) (take ((cont - c) * 512) (drop (c * 512) buffer)) (patch (address * 512) ?d flash)
        = patch (address * 512) (?d @ take ((cont - c) * 512) (drop (c * 512) buffer)) flash"
      using less.prems c ld by (intro patch_patch) (simp_all add: algebra_simps)
    also have "?d @ take ((cont - c) * 512) (drop (c * 512) buffer) = take (cont * 512) buffer"
      using take_add [of "c * 512" "(cont - c) * 512" buffer] c by (simp add: algebra_simps)
    finally show ?thesis
      using False assms(1) [of address ?d flash] by (subst rtk_eMMC_write_loop.simps) (simp add: c_def [symmetric] Let_def)
  qed (use less.prems in \<open>simp add: rtk_eMMC_write_loop.simps\<close>)
qed

end
