(* ===== verification/Factory.thy ===== *)
theory Factory
  imports Flash
begin

text \<open>
  The factory store, \<^verbatim>\<open>u-boot32/arch/arm/cpu/armv7/rtd1195/factorylib.c\<close>: a tar archive kept in
  RAM and saved in turn to two slots ("ping-pong") of the boot flash. A slot starts with the RTK
  header, the first header of the archive with a sequence number and the archive size in its
  last bytes, and ends with a copy of it; a slot counts only when both agree.

  The state is the set of file-scope variables of \<^verbatim>\<open>factorylib.c\<close> with the 8 MB region at
  \<^verbatim>\<open>FACTORY_DATA_ADDR\<close> they point into (\<^verbatim>\<open>factory_buffer\<close> is its first half, \<^verbatim>\<open>factory_buffer2\<close> the
  second) and the contents of the boot flash. The compile-time constants are a record, and so
  are the drivers the code calls through: the SPI sector size and programming function, the
  error functions of the eMMC transfers, and the function pointers of the NAND \<^verbatim>\<open>mtd\<close> structure. On the NAND path
  \<open>nand_malloc\<close> says which requests \<^verbatim>\<open>malloc\<close> can satisfy; the source tests its result there. On the SPI and eMMC
  paths it does not, and the header buffers of 512 and 1024 bytes are taken to be available.
\<close>

section \<open>Configuration, drivers and state\<close>

datatype BOOT_FLASH_T = BOOT_NOR_SERIAL | BOOT_NAND | BOOT_EMMC | BOOT_FLASH_UNKNOWN

text \<open>\<^verbatim>\<open>CONFIG_FACTORY_SIZE\<close>, and the place of the area in the flash: \<^verbatim>\<open>CONFIG_FACTORY_BASE\<close> on SPI,
  \<^verbatim>\<open>CONFIG_FACTORY_START\<close> on eMMC, the result of \<^verbatim>\<open>factory_get_start_address\<close> on NAND.\<close>

record factory_cfg =
  cfg_flash_type :: BOOT_FLASH_T
  cfg_size :: nat
  cfg_base :: nat

record flash_dev =
  spi_flash_min_erase_size :: u32
  spi_prog :: "byte \<Rightarrow> byte \<Rightarrow> byte"
  emmc_rerr :: "nat \<Rightarrow> nat \<Rightarrow> bool"
  emmc_werr :: "nat \<Rightarrow> byte list \<Rightarrow> byte list \<Rightarrow> byte list option"
  nand_oobblock :: nat
  nand_erasesize :: u32
  nand_read :: "byte list \<Rightarrow> nat \<Rightarrow> nat \<Rightarrow> nat \<times> byte list"
  nand_erase :: "nat \<Rightarrow> nat \<Rightarrow> byte list \<Rightarrow> int \<times> byte list"
  nand_write_ecc :: "nat \<Rightarrow> byte list \<Rightarrow> byte list \<Rightarrow> nat \<times> byte list"
  nand_oobsize :: nat
  sizeof_erase_info :: nat
  nand_malloc :: "nat \<Rightarrow> bool"

record factory =
  factory_dirty :: bool
  factory_ready :: bool
  factory_mem :: "byte list"
  factory_tarsize :: int
  factory_current_pp :: int
  factory_seq_num :: u32
  factory_flash :: "byte list"

definition FACTORY_HEADER_FILE_NAME :: "byte list" where
  "FACTORY_HEADER_FILE_NAME = bytes_of ''tmp/factory/''"

definition FACTORY_DATA_ADDR :: u32 where "FACTORY_DATA_ADDR = 0x07000000"

definition TAR_PADDING_SZ :: nat where "TAR_PADDING_SZ = 2 * 512"

definition cfg_half :: "factory_cfg \<Rightarrow> nat" where
  "cfg_half cfg = cfg_size cfg div 2"

text \<open>The RTK fields of the first header.\<close>

definition rtk_seqnum :: "byte list \<Rightarrow> u32" where "rtk_seqnum h = rd32 h 500"
definition rtk_tarsize :: "byte list \<Rightarrow> u32" where "rtk_tarsize h = rd32 h 504"

text \<open>"fill the first header as RTK header", the same lines in all save functions.\<close>

definition fill_rtk_header :: "u32 \<Rightarrow> u32 \<Rightarrow> byte list \<Rightarrow> byte list" where
  "fill_rtk_header len seqnum p =
     (let p = patch 508 (bytes_of ''RTK'' @ [0]) p;
          p = patch 504 (le32 len) p;
          p = patch 500 (le32 seqnum) p
      in tar_fill_checksum p)"

text \<open>The header test of the sanity checks, with the limit on the size as a parameter.\<close>

definition slot_header_ok :: "byte list \<Rightarrow> u32 \<Rightarrow> bool" where
  "slot_header_ok h limit \<longleftrightarrow>
     strcmp h FACTORY_HEADER_FILE_NAME = 0 \<and> tar_check_header h = 0 \<and> rtk_tarsize h \<ge> 256
     \<and> strcmp (hdr_signature h) (bytes_of ''RTK'') = 0 \<and> rtk_tarsize h < limit"

text \<open>The \<^verbatim>\<open>switch (pp_ok)\<close>: which slot is current. An intact slot is given by its sequence number
  and size.\<close>

definition factory_pick :: "(u32 \<times> u32) option \<Rightarrow> (u32 \<times> u32) option \<Rightarrow> nat option" where
  "factory_pick slot0 slot1 =
     (case (slot0, slot1) of
        (Some _, None) \<Rightarrow> Some 0
      | (None, Some _) \<Rightarrow> Some 1
      | (Some (seq0, _), Some (seq1, _)) \<Rightarrow>
          if seq1 > seq0 then (if seq1 - seq0 > 0xFFFFFFF0 then Some 0 else Some 1) else Some 0
      | (None, None) \<Rightarrow> None)"

text \<open>The \<^verbatim>\<open>default\<close> branch: an empty archive, nothing but the RTK header.\<close>

definition factory_empty :: "u32 \<Rightarrow> byte list \<Rightarrow> byte list" where
  "factory_empty seqnum p =
     fill_rtk_header 512 seqnum (tar_build_header p FACTORY_HEADER_FILE_NAME 0 53)"

text \<open>\<^verbatim>\<open>memset (buffer, 0, length)\<close> with the length the callers pass, half the area.\<close>

definition clear_buffer :: "factory_cfg \<Rightarrow> byte list \<Rightarrow> byte list option" where
  "clear_buffer cfg mem = memcpy_at 0 (replicate (cfg_half cfg) 0) mem"

section \<open>SPI\<close>

definition spi_slot_addr :: "factory_cfg \<Rightarrow> nat \<Rightarrow> u32" where
  "spi_slot_addr cfg i = SPI_RBUS_BASE_ADDR + of_nat (cfg_base cfg) + of_nat (cfg_half cfg * i)"

text \<open>One round of the loop over the slots.\<close>

definition spi_check_slot :: "factory_cfg \<Rightarrow> byte list \<Rightarrow> nat \<Rightarrow> (u32 \<times> u32) option" where
  "spi_check_slot cfg flash i =
     (let p_header1 = rtkspi_read32 flash (spi_slot_addr cfg i) 512 in
      if slot_header_ok p_header1 (of_nat (cfg_size cfg) - 512) then
        let p_header2 = rtkspi_read32 flash (spi_slot_addr cfg i + rtk_tarsize p_header1) 512
        in if p_header2 = p_header1 then Some (rtk_seqnum p_header1, rtk_tarsize p_header1) else None
      else None)"

definition factory_check_sanity_from_SPI :: "factory_cfg \<Rightarrow> factory \<Rightarrow> (int \<times> factory) option" where
  "factory_check_sanity_from_SPI cfg st = do {
     mem0 \<leftarrow> clear_buffer cfg (factory_mem st);
     let slot = spi_check_slot cfg (factory_flash st);
     (case factory_pick (slot 0) (slot 1) of
        None \<Rightarrow> Some (512, st\<lparr>factory_mem := factory_empty (factory_seq_num st) mem0\<rparr>)
      | Some pp \<Rightarrow>
          (let (seqnum, tarsize) = the (slot pp) in do {
             mem1 \<leftarrow> memcpy_at 0 (rtkspi_read32 (factory_flash st) (spi_slot_addr cfg pp) tarsize) mem0;
             Some (sint tarsize,
               st\<lparr>factory_mem := mem1, factory_current_pp := int pp, factory_seq_num := seqnum\<rparr>)
           }))
   }"

text \<open>The slot and sequence number a save uses.\<close>

definition next_pp :: "factory \<Rightarrow> nat" where
  "next_pp st = (if factory_current_pp st < 0 then 0 else nat ((factory_current_pp st + 1) mod 2))"

definition next_seqnum :: "factory \<Rightarrow> u32" where
  "next_seqnum st = (if factory_current_pp st < 0 then 0 else factory_seq_num st + 1)"

text \<open>The common beginning of the save functions: fill the first header and copy it behind the
  archive. \<^verbatim>\<open>len\<close> is the archive size.\<close>

definition seal_archive :: "u32 \<Rightarrow> factory \<Rightarrow> byte list option" where
  "seal_archive len st =
     (let mem1 = fill_rtk_header len (next_seqnum st) (factory_mem st)
      in if length mem1 < 512 then None
         else memcpy_at (unat (rtk_tarsize mem1)) (take 512 mem1) mem1)"

text \<open>Their common end: remove the copy again and switch to the written slot.\<close>

definition unseal_archive :: "factory \<Rightarrow> byte list \<Rightarrow> byte list option" where
  "unseal_archive st mem = memcpy_at (unat (rtk_tarsize mem)) (replicate 512 0) mem"

definition factory_save_to_SPI ::
  "factory_cfg \<Rightarrow> flash_dev \<Rightarrow> u32 \<Rightarrow> factory \<Rightarrow> (int \<times> factory) option" where
  "factory_save_to_SPI cfg dev len st = do {
     mem1 \<leftarrow> seal_archive len st;
     let total_len = len + 512 + of_nat TAR_PADDING_SZ;
     if total_len > of_nat (cfg_half cfg) then Some (1, st\<lparr>factory_mem := mem1\<rparr>)
     else if length mem1 < unat total_len then None
     else do {
       let addr = spi_slot_addr cfg (next_pp st);
       (_, flash1) \<leftarrow> rtkspi_erase (spi_flash_min_erase_size dev) addr total_len (factory_flash st);
       let flash2 = rtkspi_write8 (spi_prog dev) addr (take (unat total_len) mem1) flash1;
       mem2 \<leftarrow> unseal_archive st mem1;
       Some (0, st\<lparr>factory_mem := mem2, factory_flash := flash2,
                   factory_current_pp := int (next_pp st), factory_seq_num := next_seqnum st\<rparr>)
     }
   }"

section \<open>eMMC\<close>

definition emmc_slot_start :: "factory_cfg \<Rightarrow> nat \<Rightarrow> nat" where
  "emmc_slot_start cfg i = cfg_base cfg + i * cfg_size cfg div 2"

text \<open>One round of the loop. \<open>failed\<close> is \<^verbatim>\<open>ret == -1\<close> and \<open>buf\<close> is \<^verbatim>\<open>buf_contain_a_header\<close>; both live
  through the rounds, as does the header buffer \<open>p_start\<close>. The result of the read of the tail is
  not looked at.\<close>

record emmc_check =
  ec_failed :: bool
  ec_start :: "byte list"
  ec_buf :: "byte list"

definition emmc_check_slot ::
  "factory_cfg \<Rightarrow> flash_dev \<Rightarrow> byte list \<Rightarrow> nat \<Rightarrow> emmc_check \<Rightarrow> (u32 \<times> u32) option \<times> emmc_check" where
  "emmc_check_slot cfg dev flash i ec =
     (let (n, p_start) = rtk_eMMC_read (emmc_rerr dev) flash
              (emmc_slot_start cfg i div EMMC_BLOCK_SIZE) 512 (ec_start ec);
          failed = (ec_failed ec \<or> n \<noteq> 512 div EMMC_BLOCK_SIZE)
      in
      if \<not> failed \<and> slot_header_ok p_start (of_nat (cfg_half cfg - 512)) then
        let tarsize = rtk_tarsize p_start;
            (n, buf) = rtk_eMMC_read (emmc_rerr dev) flash
              ((cfg_base cfg + unat tarsize + i * cfg_size cfg div 2) div EMMC_BLOCK_SIZE)
              (of_nat (EMMC_BLOCK_SIZE * 2)) (ec_buf ec);
            p_end = drop (unat tarsize mod EMMC_BLOCK_SIZE) buf
        in (if take 512 p_end = p_start then Some (rtk_seqnum p_start, tarsize) else None,
            \<lparr>ec_failed = failed, ec_start = p_start, ec_buf = buf\<rparr>)
      else (None, \<lparr>ec_failed = failed, ec_start = p_start, ec_buf = ec_buf ec\<rparr>))"

definition factory_check_sanity_from_eMMC ::
  "factory_cfg \<Rightarrow> flash_dev \<Rightarrow> byte list \<Rightarrow> byte list \<Rightarrow> factory \<Rightarrow> (int \<times> factory) option" where
  "factory_check_sanity_from_eMMC cfg dev heap1 heap2 st = do {
     mem0 \<leftarrow> clear_buffer cfg (factory_mem st);
     let flash = factory_flash st;
     let (slot0, ec0) = emmc_check_slot cfg dev flash 0
           \<lparr>ec_failed = False, ec_start = heap1, ec_buf = heap2\<rparr>;
     let (slot1, ec1) = emmc_check_slot cfg dev flash 1 ec0;
     (case factory_pick slot0 slot1 of
        None \<Rightarrow> Some (512, st\<lparr>factory_mem := factory_empty (factory_seq_num st) mem0\<rparr>)
      | Some pp \<Rightarrow>
          (let (seqnum, tarsize) = the (if pp = 0 then slot0 else slot1);
               (n, mem1) = rtk_eMMC_read (emmc_rerr dev) flash
                 (emmc_slot_start cfg pp div EMMC_BLOCK_SIZE) tarsize mem0 in
           if length mem0 < total_blk_cont tarsize * 512 then None
           else Some (sint tarsize,
             st\<lparr>factory_mem := mem1, factory_current_pp := int pp, factory_seq_num := seqnum\<rparr>)))
   }"

definition factory_save_to_eMMC ::
  "factory_cfg \<Rightarrow> flash_dev \<Rightarrow> u32 \<Rightarrow> factory \<Rightarrow> (int \<times> factory) option" where
  "factory_save_to_eMMC cfg dev len st = do {
     mem1 \<leftarrow> seal_archive len st;
     if sint len > int (cfg_half cfg) - int EMMC_BLOCK_SIZE then Some (1, st\<lparr>factory_mem := mem1\<rparr>)
     else do {
       let total_len = len + 512 + of_nat TAR_PADDING_SZ;
       let blk_start = emmc_slot_start cfg (next_pp st) div EMMC_BLOCK_SIZE;
       let blk_cnt = (unat total_len + EMMC_BLOCK_SIZE - 1) div EMMC_BLOCK_SIZE;
       let (n, flash1) = rtk_eMMC_write (emmc_werr dev) blk_start total_len mem1 (factory_flash st);
       if n \<noteq> blk_cnt then Some (1, st\<lparr>factory_mem := mem1, factory_flash := flash1\<rparr>)
       else do {
         mem2 \<leftarrow> unseal_archive st mem1;
         Some (0, st\<lparr>factory_mem := mem2, factory_flash := flash1,
                     factory_current_pp := int (next_pp st), factory_seq_num := next_seqnum st\<rparr>)
       }
     }
   }"

section \<open>NAND\<close>

text \<open>As on eMMC, a failed read sets \<^verbatim>\<open>ret\<close> for the rest of the loop; the tail is compared even when
  its own read failed. The function pointers return the number of bytes transferred and the bytes
  stored.\<close>

definition nand_check_slot ::
  "factory_cfg \<Rightarrow> flash_dev \<Rightarrow> byte list \<Rightarrow> nat \<Rightarrow> emmc_check \<Rightarrow> (u32 \<times> u32) option \<times> emmc_check" where
  "nand_check_slot cfg dev flash i ec =
     (let page = nand_oobblock dev;
          (retlen, d) = nand_read dev flash (cfg_base cfg + i * cfg_half cfg) page;
          p_start = patch 0 d (ec_start ec);
          failed = (ec_failed ec \<or> retlen \<noteq> page)
      in
      if \<not> failed \<and> slot_header_ok p_start (of_nat (cfg_half cfg - 512)) then
        let tarsize = rtk_tarsize p_start;
            num_temp = unat tarsize div page;
            (retlen, d) = nand_read dev flash
              (cfg_base cfg + num_temp * page + i * cfg_size cfg div 2) (page * 2);
            buf = patch 0 d (ec_buf ec);
            p_end = drop (unat tarsize mod page) buf
        in (if take 512 p_end = take 512 p_start then Some (rtk_seqnum p_start, tarsize) else None,
            \<lparr>ec_failed = (retlen \<noteq> 2 * page), ec_start = p_start, ec_buf = buf\<rparr>)
      else (None, \<lparr>ec_failed = failed, ec_start = p_start, ec_buf = ec_buf ec\<rparr>))"

definition factory_check_sanity_from_NAND ::
  "factory_cfg \<Rightarrow> flash_dev \<Rightarrow> factory \<Rightarrow> (int \<times> factory) option" where
  "factory_check_sanity_from_NAND cfg dev st = do {
     mem0 \<leftarrow> clear_buffer cfg (factory_mem st);
     let flash = factory_flash st;
     let page = nand_oobblock dev;
     if \<not> nand_malloc dev page \<or> \<not> nand_malloc dev (page * 2) then Some (- 1, st\<lparr>factory_mem := mem0\<rparr>)
     else do {
     let (slot0, ec0) = nand_check_slot cfg dev flash 0
           \<lparr>ec_failed = False, ec_start = replicate page 0, ec_buf = replicate (page * 2) 0\<rparr>;
     let (slot1, ec1) = nand_check_slot cfg dev flash 1 ec0;
     (case factory_pick slot0 slot1 of
        None \<Rightarrow> Some (512, st\<lparr>factory_mem := factory_empty (factory_seq_num st) mem0\<rparr>)
      | Some pp \<Rightarrow>
          (let (seqnum, tarsize) = the (if pp = 0 then slot0 else slot1);
               num_temp1 = (unat tarsize + page - 1) div page * page;
               (retlen, d) = nand_read dev flash (cfg_base cfg + pp * cfg_size cfg div 2) num_temp1
           in do {
             mem1 \<leftarrow> memcpy_at 0 d mem0;
             Some (sint tarsize,
               st\<lparr>factory_mem := mem1, factory_current_pp := int pp, factory_seq_num := seqnum\<rparr>)
           }))
     }
   }"

definition factory_save_to_NAND ::
  "factory_cfg \<Rightarrow> flash_dev \<Rightarrow> u32 \<Rightarrow> factory \<Rightarrow> (int \<times> factory) option" where
  "factory_save_to_NAND cfg dev len st = (
   if \<not> nand_malloc dev (nand_oobsize dev) then Some (- 1, st)
   else do {
     mem1 \<leftarrow> seal_archive len st;
     if len > of_nat (cfg_half cfg) - nand_erasesize dev then Some (1, st\<lparr>factory_mem := mem1\<rparr>)
     else if \<not> nand_malloc dev (sizeof_erase_info dev) then Some (- 1, st\<lparr>factory_mem := mem1\<rparr>)
     else do {
       let page = nand_oobblock dev;
       let total_len = (unat (len + 512 + of_nat TAR_PADDING_SZ) + page - 1) div page * page;
       let to_addr = cfg_base cfg + next_pp st * cfg_half cfg;
       let (erase_ret, flash1) = nand_erase dev to_addr total_len (factory_flash st);
       if erase_ret \<noteq> 0 then Some (- 1, st\<lparr>factory_mem := mem1, factory_flash := flash1\<rparr>)
       else if length mem1 < total_len then None
       else do {
         let (retlen, flash2) = nand_write_ecc dev to_addr (take total_len mem1) flash1;
         if retlen \<noteq> total_len then Some (1, st\<lparr>factory_mem := mem1, factory_flash := flash2\<rparr>)
         else do {
           mem2 \<leftarrow> unseal_archive st mem1;
           Some (0, st\<lparr>factory_mem := mem2, factory_flash := flash2,
                       factory_current_pp := int (next_pp st), factory_seq_num := next_seqnum st\<rparr>)
         }
       }
     }
   })"

section \<open>Operations on the archive in RAM\<close>

text \<open>The two halves of the region.\<close>

definition factory_buffer :: "factory_cfg \<Rightarrow> factory \<Rightarrow> byte list" where
  "factory_buffer cfg st = take (cfg_half cfg) (factory_mem st)"

definition factory_buffer2 :: "factory_cfg \<Rightarrow> factory \<Rightarrow> byte list" where
  "factory_buffer2 cfg st = drop (cfg_half cfg) (factory_mem st)"

text \<open>\<^verbatim>\<open>tar_add_or_delete\<close> on the two buffers; the second one is cleared by the caller before.\<close>

definition factory_rewrite ::
  "factory_cfg \<Rightarrow> byte list \<Rightarrow> byte list \<Rightarrow> u32 \<Rightarrow> bool \<Rightarrow> factory \<Rightarrow> (int \<times> factory) option" where
  "factory_rewrite cfg path buffer len addordel st = do {
     buf2 \<leftarrow> memcpy_at 0 (replicate (cfg_half cfg) 0) (factory_buffer2 cfg st);
     (n, dst, tmp) \<leftarrow> tar_add_or_delete (factory_buffer cfg st) path buffer len (Some buf2)
        (cfg_half cfg) addordel;
     (case tmp of None \<Rightarrow> None
      | Some tmp' \<Rightarrow> Some (n, st\<lparr>factory_mem := dst @ tmp', factory_tarsize := n\<rparr>))
   }"

definition factory_delete :: "factory_cfg \<Rightarrow> byte list \<Rightarrow> factory \<Rightarrow> (int \<times> factory) option" where
  "factory_delete cfg path st =
     (if \<not> factory_ready st then Some (- 1, st)
      else do {
        (_, st1) \<leftarrow> factory_rewrite cfg path [] 0 False st;
        Some (0, st1\<lparr>factory_dirty := True\<rparr>)
      })"

definition factory_read_by_index ::
  "factory_cfg \<Rightarrow> int \<Rightarrow> bool \<Rightarrow> factory \<Rightarrow> (int \<times> (byte list \<times> byte list) option) option" where
  "factory_read_by_index cfg index want_data st =
     (if \<not> factory_ready st then Some (- 1, None)
      else tar_read_by_index index (factory_buffer cfg st) want_data)"

text \<open>0 with the address and length of the contents, 1 when the file is not there, -1 without a
  buffer.\<close>

definition factory_read ::
  "factory_cfg \<Rightarrow> byte list \<Rightarrow> factory \<Rightarrow> (int \<times> (u32 \<times> u32) option) option" where
  "factory_read cfg path st =
     (if \<not> factory_ready st then Some (- 1, None)
      else do {
        (r, _) \<leftarrow> tar_read path FACTORY_DATA_ADDR (factory_buffer cfg st) (of_nat (cfg_half cfg)) False [];
        (case r of Tar_none \<Rightarrow> Some (1, None)
         | Tar_found fd addr n \<Rightarrow> Some (if fd = 0 then 1 else 0, Some (addr, n)))
      })"

text \<open>\<^verbatim>\<open>TAR_PADDING_SZ\<close> is a \<^verbatim>\<open>sizeof\<close>, so the room is compared without sign.\<close>

definition factory_write ::
  "factory_cfg \<Rightarrow> byte list \<Rightarrow> byte list \<Rightarrow> u32 \<Rightarrow> factory \<Rightarrow> (int \<times> factory) option" where
  "factory_write cfg path buffer len st =
     (let length_512 = file_blocks len in
      if \<not> factory_ready st then Some (- 1, st)
      else if word_of_int (s32 (s32 (length_512 + factory_tarsize st) + 512)) + of_nat TAR_PADDING_SZ
        > (of_nat (cfg_half cfg) :: u32)
      then Some (- 1, st)
      else do {
        (n, st1) \<leftarrow> factory_rewrite cfg path buffer len True st;
        if n = 0 then Some (- 1, st1) else Some (0, st1\<lparr>factory_dirty := True\<rparr>)
      })"

text \<open>The names \<^verbatim>\<open>factory_dump_list\<close> prints.\<close>

definition factory_dump_list :: "factory_cfg \<Rightarrow> factory \<Rightarrow> (int \<times> byte list list) option" where
  "factory_dump_list cfg st = do {
     (_, out) \<leftarrow> tar_read (bytes_of ''DUMMY_NAME_FOR_DUMP'') FACTORY_DATA_ADDR (factory_buffer cfg st)
        (of_nat (cfg_half cfg)) True FACTORY_HEADER_FILE_NAME;
     Some (0, out)
   }"

section \<open>Saving, loading and resetting\<close>

definition factory_save ::
  "factory_cfg \<Rightarrow> flash_dev \<Rightarrow> factory \<Rightarrow> (int \<times> factory) option" where
  "factory_save cfg dev st =
     (if \<not> factory_ready st then Some (- 1, st)
      else do {
        (ret, st1) \<leftarrow>
          (if factory_dirty st \<and> factory_tarsize st > 0 then
             let len = word_of_int (factory_tarsize st) in
             (case cfg_flash_type cfg of
                BOOT_NOR_SERIAL \<Rightarrow> factory_save_to_SPI cfg dev len st
              | BOOT_NAND \<Rightarrow> factory_save_to_NAND cfg dev len st
              | BOOT_EMMC \<Rightarrow> factory_save_to_eMMC cfg dev len st
              | BOOT_FLASH_UNKNOWN \<Rightarrow> Some (- 1, st))
           else Some (0, st));
        Some (ret, st1\<lparr>factory_dirty := False\<rparr>)
      })"

text \<open>\<^verbatim>\<open>factory_init\<close>; \<open>heap1\<close> and \<open>heap2\<close> are what \<^verbatim>\<open>malloc\<close> returns on the eMMC path.\<close>

definition factory_init ::
  "factory_cfg \<Rightarrow> flash_dev \<Rightarrow> byte list \<Rightarrow> byte list \<Rightarrow> factory \<Rightarrow> (int \<times> factory) option" where
  "factory_init cfg dev heap1 heap2 st =
     (let st = st\<lparr>factory_ready := True\<rparr>;
          set_size = (\<lambda>r. case r of None \<Rightarrow> None
            | Some (n, st') \<Rightarrow> Some (0, st'\<lparr>factory_tarsize := n\<rparr>)) in
      case cfg_flash_type cfg of
        BOOT_NOR_SERIAL \<Rightarrow> set_size (factory_check_sanity_from_SPI cfg st)
      | BOOT_NAND \<Rightarrow> set_size (factory_check_sanity_from_NAND cfg dev st)
      | BOOT_EMMC \<Rightarrow> set_size (factory_check_sanity_from_eMMC cfg dev heap1 heap2 st)
      | BOOT_FLASH_UNKNOWN \<Rightarrow> Some (0, st))"

definition factory_reset ::
  "factory_cfg \<Rightarrow> flash_dev \<Rightarrow> factory \<Rightarrow> (int \<times> factory) option" where
  "factory_reset cfg dev st =
     (if \<not> factory_ready st then Some (- 1, st)
      else do {
        mem0 \<leftarrow> clear_buffer cfg (factory_mem st);
        let st1 = st\<lparr>factory_seq_num := 0, factory_tarsize := 512, factory_mem := factory_empty 0 mem0\<rparr>;
        (_, st2) \<leftarrow> factory_save cfg dev (st1\<lparr>factory_dirty := True\<rparr>);
        (_, st3) \<leftarrow> factory_save cfg dev (st2\<lparr>factory_dirty := True\<rparr>);
        Some (0, st3)
      })"

section \<open>The console command\<close>

text \<open>\<^verbatim>\<open>do_factory\<close>. The arguments are the C strings of \<^verbatim>\<open>argv\<close>; one that is missing is a NULL
  pointer, and using it has no defined result. \<open>ram a\<close> is the memory from address \<open>a\<close> on. The third
  component of the result is the copy that \<^verbatim>\<open>factory read path addr\<close> makes, with its address. That
  command copies even when the file was not found, from a pointer that was never set.\<close>

definition arg :: "byte list list \<Rightarrow> nat \<Rightarrow> byte list option" where
  "arg argv i = (if i < length argv then Some (argv ! i) else None)"

definition CMD_RET_USAGE :: int where "CMD_RET_USAGE = - 1"

definition do_factory ::
  "factory_cfg \<Rightarrow> flash_dev \<Rightarrow> (u32 \<Rightarrow> byte list) \<Rightarrow> byte list list \<Rightarrow> factory \<Rightarrow>
   (int \<times> factory \<times> (u32 \<times> byte list) option) option" where
  "do_factory cfg dev ram argv st =
     (if length argv < 2 then Some (CMD_RET_USAGE, st, None)
      else let is = (\<lambda>name. strcmp (argv ! 1) (bytes_of name) = 0) in
        if is ''save'' then do { (_, st1) \<leftarrow> factory_save cfg dev st; Some (0, st1, None) }
        else if is ''reset'' then do { (_, st1) \<leftarrow> factory_reset cfg dev st; Some (0, st1, None) }
        else if is ''info'' then Some (0, st, None)
        else if is ''list'' then do { _ \<leftarrow> factory_dump_list cfg st; Some (0, st, None) }
        else if is ''delete'' then do {
          path \<leftarrow> arg argv 2;
          (_, st1) \<leftarrow> factory_delete cfg path st;
          Some (0, st1, None)
        }
        else if is ''read'' then do {
          path \<leftarrow> arg argv 2;
          (rc, r) \<leftarrow> factory_read cfg path st;
          if length argv = 4 then
            (case r of None \<Rightarrow> None
             | Some (buffer, n) \<Rightarrow>
                 Some (0, st, Some (simple_strtoul (argv ! 3) 16,
                   take (unat n) (drop (unat (buffer - FACTORY_DATA_ADDR)) (factory_mem st)))))
          else Some (0, st, None)
        }
        else if is ''write'' then do {
          path \<leftarrow> arg argv 2;
          a \<leftarrow> arg argv 3;
          n \<leftarrow> arg argv 4;
          (_, st1) \<leftarrow> factory_write cfg path (ram (simple_strtoul a 16)) (simple_strtoul n 16) st;
          Some (0, st1, None)
        }
        else Some (CMD_RET_USAGE, st, None))"

section \<open>The archive in RAM\<close>

text \<open>The configurations the code is built for: two equal halves inside the 8 MB region.\<close>

definition cfg_ok :: "factory_cfg \<Rightarrow> bool" where
  "cfg_ok cfg \<longleftrightarrow> cfg_size cfg = 2 * cfg_half cfg \<and> 4096 \<le> cfg_half cfg \<and> cfg_half cfg \<le> 0x400000"

text \<open>The state invariant: the first half of the region holds the archive of some entries with
  zeros behind it, and \<^verbatim>\<open>factory_tarsize\<close> is its length.\<close>

definition factory_inv :: "factory_cfg \<Rightarrow> entry list \<Rightarrow> factory \<Rightarrow> bool" where
  "factory_inv cfg es st \<longleftrightarrow> factory_ready st \<and> length (factory_mem st) = cfg_size cfg
     \<and> tar_area FACTORY_DATA_ADDR (of_nat (cfg_half cfg)) es (factory_buffer cfg st)
     \<and> factory_tarsize st = int (length (archive es))"

lemma cfg_ok_unat: "cfg_ok cfg \<Longrightarrow> unat (of_nat (cfg_half cfg) :: u32) = cfg_half cfg"
  by (rule unat_of_nat_u32) (simp add: cfg_ok_def)

lemma factory_buffer_length:
  "cfg_ok cfg \<Longrightarrow> length (factory_mem st) = cfg_size cfg \<Longrightarrow> length (factory_buffer cfg st) = cfg_half cfg"
  "cfg_ok cfg \<Longrightarrow> length (factory_mem st) = cfg_size cfg \<Longrightarrow> length (factory_buffer2 cfg st) = cfg_half cfg"
  by (simp_all add: factory_buffer_def factory_buffer2_def cfg_ok_def)

lemma tar_area_archive_length:
  assumes "tar_area a len es mem"
  shows "length (archive es) < unat len"
  using assms by (auto simp: tar_area_def)

lemma factory_rewrite_inv:
  assumes cfg: "cfg_ok cfg" and inv: "factory_inv cfg es st" and f: "tar_name path"
    and len: "unat len \<le> length buffer"
    and fit: "length (archive es) + 512 + blocks (unat len) < cfg_half cfg"
  shows "\<exists>st'. factory_rewrite cfg path buffer len add st =
      Some (int (length (archive (tar_rewrite path buffer len add True False es))), st')
    \<and> factory_inv cfg (tar_rewrite path buffer len add True False es) st'
    \<and> factory_dirty st' = factory_dirty st \<and> factory_current_pp st' = factory_current_pp st
    \<and> factory_seq_num st' = factory_seq_num st \<and> factory_flash st' = factory_flash st"
proof -
  let ?es = "tar_rewrite path buffer len add True False es"
  from inv have area: "tar_area FACTORY_DATA_ADDR (of_nat (cfg_half cfg)) es (factory_buffer cfg st)"
    and ml: "length (factory_mem st) = cfg_size cfg" by (simp_all add: factory_inv_def)
  note u = cfg_ok_unat [OF cfg] and l2 = factory_buffer_length(2) [OF cfg ml]
  have m: "memcpy_at 0 (replicate (cfg_half cfg) 0) (factory_buffer2 cfg st) = Some (replicate (cfg_half cfg) 0)"
    using l2 by (simp add: memcpy_at_def patch_def)
  obtain mem' tmp' where t: "tar_add_or_delete (factory_buffer cfg st) path buffer len
        (Some (replicate (cfg_half cfg) 0)) (length (replicate (cfg_half cfg) (0::byte))) add =
      Some (int (length (archive ?es)), mem', Some tmp')"
    and a': "tar_area FACTORY_DATA_ADDR (of_nat (cfg_half cfg)) ?es mem'"
    and lt: "length tmp' = length (replicate (cfg_half cfg) (0::byte))"
    using tar_area_rewrite [OF area f len, of "replicate (cfg_half cfg) 0" add] fit u by auto
  have lm: "length mem' = cfg_half cfg" using a' u by (simp add: tar_area_def)
  let ?st = "st\<lparr>factory_mem := mem' @ tmp', factory_tarsize := int (length (archive ?es))\<rparr>"
  have "factory_rewrite cfg path buffer len add st = Some (int (length (archive ?es)), ?st)"
    using t m by (simp add: factory_rewrite_def)
  moreover have "factory_inv cfg ?es ?st"
    using inv a' lm lt cfg by (simp add: factory_inv_def factory_buffer_def cfg_ok_def)
  ultimately show ?thesis by auto
qed

lemma rewrite_nonempty:
  assumes "\<forall>e \<in> set es. entry_ok e" and "tar_name f"
  shows "0 < length (archive (tar_rewrite f src len True first False es))"
  using assms(1)
proof (induction es arbitrary: first)
  case Nil
  then show ?case using tar_name_length [OF assms(2)] by simp
next
  case (Cons e es)
  obtain h b where e: "e = (h, b)" by (cases e)
  have hl: "length h = 512" using Cons.prems e entry_ok_length by auto
  then have "length (tar_build_header h f len 48) = 512" using tar_name_length [OF assms(2)] by simp
  then show ?case using Cons hl by (auto simp: e)
qed

lemma factory_room:
  assumes cfg: "cfg_ok cfg" and inv: "factory_inv cfg es st" and n: "unat len < 2 ^ 30"
  shows "word_of_int (s32 (s32 (file_blocks len + factory_tarsize st) + 512)) + of_nat TAR_PADDING_SZ > (of_nat (cfg_half cfg) :: u32)
    \<longleftrightarrow> length (archive es) + 512 + blocks (unat len) + TAR_PADDING_SZ > cfg_half cfg"
proof -
  let ?n = "length (archive es) + 512 + blocks (unat len) + TAR_PADDING_SZ"
  have L: "length (archive es) < cfg_half cfg"
    using inv tar_area_archive_length cfg_ok_unat [OF cfg] by (fastforce simp: factory_inv_def)
  have fb: "file_blocks len = int (blocks (unat len))"
    using n by (intro file_blocks_eq) simp
  have b: "blocks (unat len) < 2 ^ 30 + 512" using blocks_bounds(2) [of "unat len"] n by simp
  have c: "cfg_half cfg \<le> 0x400000" using cfg by (simp add: cfg_ok_def)
  have "s32 (int (blocks (unat len)) + int (length (archive es))) = int (blocks (unat len) + length (archive es))"
    using s32_nat [of "blocks (unat len) + length (archive es)"] b c L by simp
  moreover have "s32 (int (blocks (unat len) + length (archive es)) + 512) = int (blocks (unat len) + length (archive es) + 512)"
    using s32_nat [of "blocks (unat len) + length (archive es) + 512"] b c L by simp
  ultimately have "s32 (s32 (file_blocks len + factory_tarsize st) + 512) = int (blocks (unat len) + length (archive es) + 512)"
    using inv fb by (simp add: factory_inv_def)
  then have "word_of_int (s32 (s32 (file_blocks len + factory_tarsize st) + 512)) + of_nat TAR_PADDING_SZ = (of_nat ?n :: u32)"
    by (simp add: add.commute add.left_commute)
  moreover have "?n < 2 ^ 32"
    using b c L by (simp add: TAR_PADDING_SZ_def)
  then have "(of_nat ?n :: u32) > of_nat (cfg_half cfg) \<longleftrightarrow> ?n > cfg_half cfg"
    using c by (simp add: word_less_nat_alt unsigned_of_nat take_bit_nat_eq_self del: of_nat_add)
  ultimately show ?thesis by simp
qed

lemma factory_write_ok:
  assumes cfg: "cfg_ok cfg" and inv: "factory_inv cfg es st" and f: "tar_name path"
    and len: "unat len \<le> length buffer" "unat len < 2 ^ 30"
    and fit: "length (archive es) + 512 + blocks (unat len) + TAR_PADDING_SZ \<le> cfg_half cfg"
  shows "\<exists>st'. factory_write cfg path buffer len st = Some (0, st')
    \<and> factory_inv cfg (tar_rewrite path buffer len True True False es) st'
    \<and> factory_dirty st' \<and> factory_current_pp st' = factory_current_pp st
    \<and> factory_seq_num st' = factory_seq_num st \<and> factory_flash st' = factory_flash st"
proof -
  let ?es = "tar_rewrite path buffer len True True False es"
  have fit': "length (archive es) + 512 + blocks (unat len) < cfg_half cfg"
    using fit by (simp add: TAR_PADDING_SZ_def)
  obtain st' where st': "factory_rewrite cfg path buffer len True st = Some (int (length (archive ?es)), st')"
    "factory_inv cfg ?es st'" "factory_current_pp st' = factory_current_pp st"
    "factory_seq_num st' = factory_seq_num st" "factory_flash st' = factory_flash st"
    using factory_rewrite_inv [OF cfg inv f len(1) fit', of True] by blast
  have ok: "\<forall>e \<in> set es. entry_ok e" using inv by (simp add: factory_inv_def tar_area_def)
  have ne: "int (length (archive ?es)) \<noteq> 0"
    using rewrite_nonempty [OF ok f] by (simp del: length_0_conv)
  have "\<not> word_of_int (s32 (s32 (file_blocks len + factory_tarsize st) + 512)) + of_nat TAR_PADDING_SZ > (of_nat (cfg_half cfg) :: u32)"
    using fit unfolding factory_room [OF cfg inv len(2)] by linarith
  then have "factory_write cfg path buffer len st = Some (0, st'\<lparr>factory_dirty := True\<rparr>)"
    using inv st'(1) ne by (simp add: factory_write_def factory_inv_def)
  then show ?thesis
    using st' by (auto simp: factory_inv_def factory_buffer_def)
qed

lemma factory_read_inv:
  assumes cfg: "cfg_ok cfg" and inv: "factory_inv cfg es st"
  shows "\<exists>rc r. factory_read cfg path st = Some (rc, r)
    \<and> (case tar_lookup path es of
         None \<Rightarrow> rc = 1
       | Some d \<Rightarrow> rc = 0 \<and> (\<exists>a n. r = Some (a, n) \<and> unat n = length d
           \<and> take (unat n) (drop (unat (a - FACTORY_DATA_ADDR)) (factory_mem st)) = d))"
proof -
  from inv have area: "tar_area FACTORY_DATA_ADDR (of_nat (cfg_half cfg)) es (factory_buffer cfg st)"
    and rdy: "factory_ready st" by (simp_all add: factory_inv_def)
  let ?A = FACTORY_DATA_ADDR
  let ?r = "found_result ?A (tar_find path 0 es)"
  have t: "tar_read path ?A (factory_buffer cfg st) (of_nat (cfg_half cfg)) False [] =
      Some (?r, tar_listed False [] (tar_passed path es))"
    by (rule tar_read_area [OF area])
  have rb: "read_back ?A (factory_buffer cfg st) ?r = tar_lookup path es"
    by (rule read_back_found [OF area])
  show ?thesis
  proof (cases "tar_find path 0 es")
    case None
    then show ?thesis
      using t rb rdy by (simp add: factory_read_def found_result_def read_back_def)
  next
    case (Some q)
    obtain p e where q: "q = (p, e)" by (cases q)
    have ok: "\<forall>e \<in> set es. entry_ok e" using area by (simp add: tar_area_def)
    have lookup: "tar_lookup path es = Some (entry_data e)"
      using tar_find_lookup [of path 0 es] Some q by simp
    have e: "e \<in> set es" using Some q
    proof -
      have "tar_find path off es = Some (p, e) \<Longrightarrow> e \<in> set es" for off
        by (induction es arbitrary: off) (auto split: if_splits)
      then show ?thesis using Some q by simp
    qed
    have le: "hdr_len (fst e) \<le> length (snd e)" using ok e hdr_len_blocks by blast
    then have ld: "length (entry_data e) = hdr_len (fst e)" by (simp add: entry_data_def)
    have p: "p + 512 \<le> length (archive es)" using tar_find_offset [OF Some [unfolded q] ok] by simp
    have L: "length (archive es) < cfg_half cfg"
      using tar_area_archive_length [OF area] cfg_ok_unat [OF cfg] by simp
    have fd: "?A + of_nat p \<noteq> 0"
    proof
      assume z: "?A + of_nat p = 0"
      have "unat ?A + p < 2 ^ 31" using p L cfg by (simp add: FACTORY_DATA_ADDR_def cfg_ok_def)
      then have "sint (?A + of_nat p) = int (unat ?A + p)" by (rule sint_addr)
      then show False using z by (simp add: FACTORY_DATA_ADDR_def)
    qed
    have d: "take (unat (of_nat (hdr_len (fst e)) :: u32)) (drop (unat (?A + of_nat p + 512 - ?A)) (factory_buffer cfg st))
        = entry_data e"
      using rb lookup Some q by (simp add: read_back_def found_result_def)
    have "take (hdr_len (fst e)) (drop (unat (?A + of_nat p + 512 - ?A)) (factory_mem st)) = entry_data e"
    proof -
      let ?o = "unat (?A + of_nat p + 512 - ?A)"
      have "length (take (hdr_len (fst e)) (drop ?o (factory_buffer cfg st))) = hdr_len (fst e)"
        using d ld by (simp add: unat_of_hdr_len)
      then have "hdr_len (fst e) \<le> length (drop ?o (factory_buffer cfg st))" by simp
      moreover have "factory_mem st = factory_buffer cfg st @ factory_buffer2 cfg st"
        by (simp add: factory_buffer_def factory_buffer2_def)
      ultimately have "take (hdr_len (fst e)) (drop ?o (factory_mem st)) =
          take (hdr_len (fst e)) (drop ?o (factory_buffer cfg st))"
        by (cases "hdr_len (fst e) = 0") (simp_all add: )
      then show ?thesis using d by (simp add: unat_of_hdr_len)
    qed
    then show ?thesis
      using t rdy fd lookup ld Some q
      by (simp add: factory_read_def found_result_def unat_of_hdr_len)
  qed
qed

end
