(* ===== verification/Ping_Pong.thy ===== *)
theory Ping_Pong
  imports Factory
begin

text \<open>
  The factory store on flash: what a slot holds after a save, which of the two slots a boot picks,
  and what the next boot loads.

  The choice of the slot (\<open>factory_pick\<close>) rests on a contract of the medium, the locale
  \<open>ping_pong\<close>, interpreted on the SPI model. The first part is the stamped header and the bytes of a
  slot, the second the contract, the third the save to SPI flash and the load at the next boot.
\<close>

section \<open>The RTK header\<close>

lemma fill_writes:
  "fill_rtk_header len seqnum p =
     tar_fill_checksum (patches [(508, bytes_of ''RTK'' @ [0]), (504, le32 len), (500, le32 seqnum)] p)"
  by (simp add: fill_rtk_header_def patches_def)

lemma length_fill_rtk_header [simp]: "512 \<le> length p \<Longrightarrow> length (fill_rtk_header len s p) = length p"
  by (simp add: fill_rtk_header_def)

lemma rd_fill_rtk_header:
  assumes "512 \<le> length p" and "i < 148 \<or> 156 \<le> i"
  shows "rd (fill_rtk_header len s p) i =
    (if 500 \<le> i \<and> i < 504 then le32 s ! (i - 500)
     else if 504 \<le> i \<and> i < 508 then le32 len ! (i - 504)
     else if 508 \<le> i \<and> i < 512 then (bytes_of ''RTK'' @ [0]) ! (i - 508) else rd p i)"
proof -
  let ?ws = "[(508, bytes_of ''RTK'' @ [0]), (504, le32 len), (500, le32 s)]"
  have fit: "fst w + length (snd w) \<le> length p" if "w \<in> set ?ws" for w
    using that assms(1) by auto
  have "length (patches ?ws p) = length p" using fit by (rule length_patches)
  moreover have "rd (patches ?ws p) i = rd_writes (rev ?ws) p i" using fit by (rule rd_patches)
  ultimately show ?thesis
    using assms by (auto simp: fill_writes tar_fill_checksum_rd)
qed

lemma length_fill_patches:
  "512 \<le> length p \<Longrightarrow>
   length (patches [(508, bytes_of ''RTK'' @ [0]), (504, le32 len), (500, le32 s)] p) = length p"
  by (rule length_patches) auto

lemma fill_rtk_header_append:
  assumes "length h = 512"
  shows "fill_rtk_header len s (h @ r) = fill_rtk_header len s h @ r"
  unfolding fill_writes using assms
  by (subst patches_append) (auto intro!: tar_fill_checksum_append simp: length_fill_patches)

lemma rtk_fields_fill:
  assumes "512 \<le> length p"
  shows "rtk_seqnum (fill_rtk_header len s p) = s" and "rtk_tarsize (fill_rtk_header len s p) = len"
  unfolding rtk_seqnum_def rtk_tarsize_def
  by (rule rd32_le32; use assms in \<open>simp add: rd_fill_rtk_header\<close>)+

lemma rtk_signed_fill:
  assumes "length h = 512"
  shows "rtk_signed (fill_rtk_header len s h)"
  unfolding rtk_signed_def
proof (rule byte_list_eqI)
  show "length (take 4 (hdr_signature (fill_rtk_header len s h))) = length (bytes_of ''RTK'' @ [0])"
    using assms by (simp add: hdr_signature_def)
  fix i
  assume "i < length (take 4 (hdr_signature (fill_rtk_header len s h)))"
  then have i: "i < 4" by simp
  then have "rd (take 4 (hdr_signature (fill_rtk_header len s h))) i = rd (fill_rtk_header len s h) (508 + i)"
    using assms by (simp add: rd_def hdr_signature_def)
  also have "\<dots> = (bytes_of ''RTK'' @ [0]) ! i" using assms i by (simp add: rd_fill_rtk_header)
  also have "\<dots> = rd (bytes_of ''RTK'' @ [0]) i" using i by (simp add: rd_nth)
  finally show "rd (take 4 (hdr_signature (fill_rtk_header len s h))) i = rd (bytes_of ''RTK'' @ [0]) i" .
qed

lemma take_rd_cong:
  assumes "length p = length q" and "\<And>i. i < n \<Longrightarrow> rd p i = rd q i"
  shows "take n p = take n q"
proof (rule nth_equalityI)
  fix i
  assume "i < length (take n p)"
  then show "take n p ! i = take n q ! i"
    using assms(2) [of i] assms(1) by (simp add: rd_nth)
qed (simp add: assms(1))

lemma take_le_eq: "take m p = take m q \<Longrightarrow> n \<le> m \<Longrightarrow> take n p = take n q"
  by (metis min.absorb1 take_take)

lemma tar_check_rd: "isascii (rd p 0) \<Longrightarrow> 512 \<le> length p \<Longrightarrow> tar_check_header (tar_fill_checksum p) = 0"
  by (simp add: tar_check_fill)

lemma chksum_term_fill:
  assumes "512 \<le> length p"
  shows "0 \<in> set (take 8 (hdr_chksum (tar_fill_checksum p)))"
proof (rule in_take_rdI [of 6])
  show "6 < length (hdr_chksum (tar_fill_checksum p))" using assms by (simp add: hdr_chksum_def)
  show "rd (hdr_chksum (tar_fill_checksum p)) 6 = 0"
    using assms by (simp add: chksum_field_fill rd_append)
qed simp

lemma hdr_ok_fill:
  assumes "hdr_ok h"
  shows "hdr_ok (fill_rtk_header len s h)" and "cstr (fill_rtk_header len s h) = cstr h"
    and "hdr_len (fill_rtk_header len s h) = hdr_len h"
proof -
  let ?h = "fill_rtk_header len s h"
  have l: "length h = 512" using assms by (rule hdr_ok_length)
  have t: "take 148 ?h = take 148 h"
    using l by (intro take_rd_cong) (simp_all add: rd_fill_rtk_header)
  have t1: "take 100 ?h = take 100 h" by (rule take_le_eq [OF t]) simp
  have "take 136 ?h = take 136 h" by (rule take_le_eq [OF t]) simp
  then have t2: "take 12 (hdr_size ?h) = take 12 (hdr_size h)"
    using drop_take [of 124 136 ?h] drop_take [of 124 136 h] by (simp add: hdr_size_def)
  have z: "0 \<in> set (take 100 h)" "0 \<in> set (take 12 (hdr_size h))" "rd h 0 \<noteq> 0" "isascii (rd h 0)"
    using assms by (auto simp: hdr_ok_def tar_check_header_def split: if_splits)
  have r0: "rd ?h 0 = rd h 0" using l by (simp add: rd_fill_rtk_header)
  let ?p = "patches [(508, bytes_of ''RTK'' @ [0]), (504, le32 len), (500, le32 s)] h"
  have lp: "length ?p = 512" using l by (simp add: length_fill_patches)
  then have "rd ?p 0 = rd ?h 0" by (simp add: fill_writes tar_fill_checksum_rd)
  then have "tar_check_header ?h = 0"
    using z r0 lp unfolding fill_writes by (intro tar_check_rd) simp_all
  then show "hdr_ok ?h"
    using l z r0 t1 t2 chksum_term_fill [of ?p] lp by (simp add: hdr_ok_def fill_writes [symmetric])
  show "cstr ?h = cstr h"
    using z t1 cstr_take_term [of 100 ?h] cstr_take_term [of 100 h] by simp
  have "simple_strtol (hdr_size x) 8 = simple_strtol (take 12 (hdr_size x)) 8"
    if "0 \<in> set (take 12 (hdr_size x))" for x
    using simple_strtol_append_term [OF that, of "drop 12 (hdr_size x)" 8] by simp
  from this [of ?h] this [of h] show "hdr_len ?h = hdr_len h"
    using z t2 by (simp add: hdr_len_def)
qed

section \<open>Slots\<close>

text \<open>The archive with its first header stamped for a save.\<close>

fun stamp :: "u32 \<Rightarrow> u32 \<Rightarrow> entry list \<Rightarrow> entry list" where
  "stamp len s [] = []"
| "stamp len s ((h, b) # es) = (fill_rtk_header len s h, b) # es"

lemma archive_stamp:
  "\<forall>e \<in> set es. entry_ok e \<Longrightarrow> es \<noteq> [] \<Longrightarrow>
   fill_rtk_header len s (archive es @ r) = archive (stamp len s es) @ r"
  by (cases "(len, s, es)" rule: stamp.cases) (auto simp: fill_rtk_header_append dest: entry_ok_length)

lemma length_archive_stamp:
  "\<forall>e \<in> set es. entry_ok e \<Longrightarrow> length (archive (stamp len s es)) = length (archive es)"
  by (cases "(len, s, es)" rule: stamp.cases) (auto dest: entry_ok_length)

lemma stamp_ok: "\<forall>e \<in> set es. entry_ok e \<Longrightarrow> \<forall>e \<in> set (stamp len s es). entry_ok e"
  by (cases "(len, s, es)" rule: stamp.cases) (auto simp: entry_ok_def hdr_ok_fill)

lemma stamp_lookup: "\<forall>e \<in> set es. entry_ok e \<Longrightarrow> tar_lookup g (stamp len s es) = tar_lookup g es"
  by (cases "(len, s, es)" rule: stamp.cases) (auto simp: entry_ok_def entry_name_def entry_data_def hdr_ok_fill)

text \<open>The archive of the factory store starts with the directory entry \<^verbatim>\<open>tmp/factory/\<close>.\<close>

definition factory_root :: "entry list \<Rightarrow> bool" where
  "factory_root es \<longleftrightarrow> es \<noteq> [] \<and> entry_name (hd es) = FACTORY_HEADER_FILE_NAME"

lemma factory_header_name: "cstr FACTORY_HEADER_FILE_NAME = FACTORY_HEADER_FILE_NAME"
  "tar_name FACTORY_HEADER_FILE_NAME"
  by (simp_all add: FACTORY_HEADER_FILE_NAME_def bytes_of_def cstr_Cons tar_name_def isascii_def word_le_nat_alt)

lemma slot_header_ok_stamp:
  assumes "hdr_ok h" and "cstr h = FACTORY_HEADER_FILE_NAME" and "256 \<le> len" and "len < limit"
  shows "slot_header_ok (fill_rtk_header len s h) limit"
proof -
  let ?h = "fill_rtk_header len s h"
  have l: "length h = 512" using assms(1) by (rule hdr_ok_length)
  have "strcmp (hdr_signature (?h @ [])) (bytes_of ''RTK'') = 0"
    using rtk_signed_fill [OF l] l by (subst strcmp_RTK) simp_all
  moreover have "tar_check_header ?h = 0" using hdr_ok_fill(1) [OF assms(1)] by (simp add: hdr_ok_def)
  ultimately show ?thesis
    using assms l hdr_ok_fill(2) [OF assms(1)] factory_header_name
    by (simp add: slot_header_ok_def strcmp_eq_0 rtk_fields_fill)
qed


subsection \<open>SPI slots\<close>

definition slot_off :: "factory_cfg \<Rightarrow> nat \<Rightarrow> nat" where
  "slot_off cfg i = cfg_base cfg + cfg_half cfg * i"

definition slot_bytes :: "factory_cfg \<Rightarrow> byte list \<Rightarrow> nat \<Rightarrow> byte list" where
  "slot_bytes cfg flash i = take (cfg_half cfg) (drop (slot_off cfg i) flash)"

text \<open>A flash that holds the area, with sectors that do not straddle the slots.\<close>

definition spi_flash_ok :: "factory_cfg \<Rightarrow> flash_dev \<Rightarrow> byte list \<Rightarrow> bool" where
  "spi_flash_ok cfg dev flash \<longleftrightarrow> cfg_base cfg + cfg_size cfg \<le> length flash \<and> length flash \<le> 2 ^ 28
     \<and> sector_size (spi_flash_min_erase_size dev)
     \<and> unat (spi_flash_min_erase_size dev) dvd cfg_base cfg
     \<and> unat (spi_flash_min_erase_size dev) dvd cfg_half cfg"

lemma slot_fits:
  "cfg_ok cfg \<Longrightarrow> cfg_base cfg + cfg_size cfg \<le> length flash \<Longrightarrow> i < 2 \<Longrightarrow>
   slot_off cfg i + cfg_half cfg \<le> length flash"
  by (cases i) (auto simp: slot_off_def cfg_ok_def)

lemma spi_slot_addr_eq: "spi_slot_addr cfg i = SPI_RBUS_BASE_ADDR + of_nat (slot_off cfg i)"
  by (simp add: spi_slot_addr_def slot_off_def)

lemma spi_offset_slot: "slot_off cfg i < 2 ^ 32 \<Longrightarrow> spi_offset (spi_slot_addr cfg i) = slot_off cfg i"
  unfolding spi_slot_addr_eq spi_offset_def by (rule unat_addr_diff)

lemma spi_read_slot:
  assumes "slot_off cfg i + unat n \<le> length flash" and "length flash \<le> 2 ^ 28"
  shows "rtkspi_read32 flash (spi_slot_addr cfg i) n = take (unat n div 4 * 4) (drop (slot_off cfg i) flash)"
  using assms spi_offset_slot [of cfg i] by (subst rtkspi_read32_eq) simp_all

lemma spi_read_slot_at:
  assumes "slot_off cfg i + unat t + unat n \<le> length flash" and "length flash \<le> 2 ^ 28"
  shows "rtkspi_read32 flash (spi_slot_addr cfg i + t) n = take (unat n div 4 * 4) (drop (slot_off cfg i + unat t) flash)"
proof -
  have "spi_offset (spi_slot_addr cfg i + of_nat (unat t)) = spi_offset (spi_slot_addr cfg i) + unat t"
    using assms spi_offset_slot [of cfg i] by (intro spi_offset_add) simp
  then have "spi_offset (spi_slot_addr cfg i + t) = slot_off cfg i + unat t"
    using assms spi_offset_slot [of cfg i] by simp
  then show ?thesis
    using assms by (subst rtkspi_read32_eq) simp_all
qed

text \<open>What the check sees of a slot when the size in its header stays inside the slot.\<close>

definition slot_view :: "nat \<Rightarrow> byte list \<Rightarrow> (u32 \<times> u32) option" where
  "slot_view limit sl =
     (let h = take 512 sl in
      if slot_header_ok h (of_nat limit) \<and> take 512 (drop (unat (rtk_tarsize h)) sl) = h
      then Some (rtk_seqnum h, rtk_tarsize h) else None)"

definition slot_sane :: "factory_cfg \<Rightarrow> nat \<Rightarrow> byte list \<Rightarrow> bool" where
  "slot_sane cfg limit sl \<longleftrightarrow>
     (slot_header_ok (take 512 sl) (of_nat limit) \<longrightarrow> unat (rtk_tarsize (take 512 sl)) + 512 \<le> cfg_half cfg)"

lemma spi_check_slot_view:
  assumes cfg: "cfg_ok cfg" and fl: "cfg_base cfg + cfg_size cfg \<le> length flash" "length flash \<le> 2 ^ 28"
    and i: "i < 2" and sane: "slot_sane cfg (cfg_size cfg - 512) (slot_bytes cfg flash i)"
  shows "spi_check_slot cfg flash i = slot_view (cfg_size cfg - 512) (slot_bytes cfg flash i)"
proof -
  note fit = slot_fits [OF cfg fl(1) i]
  have half: "4096 \<le> cfg_half cfg" "cfg_size cfg = 2 * cfg_half cfg" using cfg by (simp_all add: cfg_ok_def)
  have lim: "of_nat (cfg_size cfg) - 512 = (of_nat (cfg_size cfg - 512) :: u32)"
    using half by (simp add: of_nat_diff)
  let ?h = "take 512 (slot_bytes cfg flash i)"
  have h: "rtkspi_read32 flash (spi_slot_addr cfg i) 512 = ?h"
    using half fit fl by (subst spi_read_slot) (simp_all add: slot_bytes_def)
  show ?thesis
  proof (cases "slot_header_ok ?h (of_nat (cfg_size cfg - 512))")
    case True
    then have t: "unat (rtk_tarsize ?h) + 512 \<le> cfg_half cfg" using sane by (simp add: slot_sane_def)
    define n where "n = rtk_tarsize ?h"
    have t': "unat n + 512 \<le> cfg_half cfg" using t by (simp only: n_def)
    have u: "unat (512::u32) = 512" by simp
    have "rtkspi_read32 flash (spi_slot_addr cfg i + n) 512 =
        take (unat (512::u32) div 4 * 4) (drop (slot_off cfg i + unat n) flash)"
      by (rule spi_read_slot_at) (use t' fit fl u in linarith)+
    also have "\<dots> = take 512 (drop (unat n) (slot_bytes cfg flash i))"
      unfolding u using t' by (simp add: slot_bytes_def drop_take add.commute)
    finally have "rtkspi_read32 flash (spi_slot_addr cfg i + rtk_tarsize ?h) 512 =
        take 512 (drop (unat (rtk_tarsize ?h)) (slot_bytes cfg flash i))"
      by (simp only: n_def)
    then show ?thesis
      unfolding spi_check_slot_def slot_view_def h lim using True by (simp add: Let_def)
  qed (simp add: spi_check_slot_def slot_view_def h lim)
qed

text \<open>A slot image as a save writes it.\<close>

definition slot_image :: "entry list \<Rightarrow> byte list \<Rightarrow> bool" where
  "slot_image es sl \<longleftrightarrow> (\<exists>r. sl = archive es @ take 512 (archive es) @ r)"

lemma slot_view_image:
  assumes ok: "\<forall>e \<in> set es. entry_ok e" and root: "factory_root es"
    and img: "slot_image (stamp len s es) sl"
    and len: "unat len = length (archive es)" "unat len < limit" "limit < 2 ^ 32"
  shows "slot_view limit sl = Some (s, len)"
    and "unat (rtk_tarsize (take 512 sl)) = length (archive es)"
proof -
  from root obtain h b es' where es: "es = (h, b) # es'"
    by (cases es) (auto simp: factory_root_def)
  have h: "hdr_ok h" using ok es by (simp add: entry_ok_def)
  have nm: "cstr h = FACTORY_HEADER_FILE_NAME" using root es by (simp add: factory_root_def entry_name_def)
  let ?h = "fill_rtk_header len s h"
  have l: "length h = 512" "length ?h = 512" using hdr_ok_length [OF h] by simp_all
  have L: "length (archive (stamp len s es)) = unat len" using length_archive_stamp [OF ok] len(1) by simp
  have L2: "512 \<le> unat len" using len(1) es l by simp
  from img obtain r where sl: "sl = archive (stamp len s es) @ take 512 (archive (stamp len s es)) @ r"
    by (auto simp: slot_image_def)
  have t: "take 512 sl = ?h" using sl es l by simp
  have d: "take 512 (drop (unat len) sl) = ?h"
    using sl L es l by simp
  have ok1: "slot_header_ok ?h (of_nat limit)"
    using L2 len by (intro slot_header_ok_stamp [OF h nm]) (simp_all add: word_le_nat_alt word_less_nat_alt unat_of_nat_u32)
  show "slot_view limit sl = Some (s, len)"
    using t d ok1 l by (simp add: slot_view_def rtk_fields_fill)
  show "unat (rtk_tarsize (take 512 sl)) = length (archive es)"
    using t l len(1) by (simp add: rtk_fields_fill)
qed

subsection \<open>Choosing between two slots\<close>

text \<open>The contract of a medium with two slots: a stored image is seen under its stamp (sequence
  number and size), and storing to one slot leaves the other as it was. The laws about which slot
  is current after a save follow from it once, for every medium.\<close>

lemma pick_succ1: "(s::u32) + 1 \<noteq> 0 \<Longrightarrow> s < s + 1"
  using unatSuc [of s] by (simp add: word_less_nat_alt add.commute)

lemma pick_succ0: "(s::u32) - (s + 1) > 0xFFFFFFF0"
proof -
  have "s - (s + 1) = 0xFFFFFFFF" by simp
  then show ?thesis by (simp only:) (simp add: word_less_nat_alt)
qed

locale ping_pong =
  fixes slot :: "'f \<Rightarrow> nat \<Rightarrow> (u32 \<times> u32) option"
    and wf_image :: "'f \<Rightarrow> nat \<Rightarrow> 'i \<Rightarrow> bool"
    and seal :: "'i \<Rightarrow> u32 \<times> u32"
    and store :: "'i \<Rightarrow> nat \<Rightarrow> 'f \<Rightarrow> 'f"
  assumes slot_same: "wf_image f i im \<Longrightarrow> i < 2 \<Longrightarrow> slot (store im i f) i = Some (seal im)"
    and slot_other: "wf_image f i im \<Longrightarrow> i < 2 \<Longrightarrow> j < 2 \<Longrightarrow> j \<noteq> i \<Longrightarrow> slot (store im i f) j = slot f j"
begin

lemma picks_stored:
  assumes "wf_image f (1 - p) im" and "p < 2"
    and seq: "\<And>s n. slot f p = Some (s, n) \<Longrightarrow> fst (seal im) = s + 1"
    and nowrap: "slot f p = None \<or> p = 1 \<or> fst (seal im) \<noteq> 0"
  shows "factory_pick (slot (store im (1 - p) f) 0) (slot (store im (1 - p) f) 1) = Some (1 - p)"
proof (cases "p = 0")
  case True
  have "slot (store im 1 f) 1 = Some (seal im)" "slot (store im 1 f) 0 = slot f 0"
    using slot_same [of f 1 im] slot_other [of f 1 im 0] assms(1) True by simp_all
  then show ?thesis
    using seq nowrap True pick_succ1 by (auto simp: factory_pick_def split: option.splits prod.splits)
next
  case False
  then have p: "p = 1" using assms(2) by simp
  have "slot (store im 0 f) 0 = Some (seal im)" "slot (store im 0 f) 1 = slot f 1"
    using slot_same [of f 0 im] slot_other [of f 0 im 1] assms(1) p by simp_all
  then show ?thesis
    using seq p pick_succ0 by (auto simp: factory_pick_def split: option.splits prod.splits)
qed

lemma keeps_current:
  assumes "slot f' p = slot f p" and "slot f p \<noteq> None" and "p < 2" and "slot f' (1 - p) = None"
  shows "factory_pick (slot f' 0) (slot f' 1) = Some p"
proof (cases "p = 0")
  case True
  then show ?thesis using assms by (auto simp: factory_pick_def split: option.splits)
next
  case False
  then have "p = 1" using assms(3) by simp
  then show ?thesis using assms by (auto simp: factory_pick_def split: option.splits)
qed

end

subsection \<open>The image a save writes\<close>

text \<open>The stamped archive, the copy of its first header, and the padding.\<close>

definition save_image :: "entry list \<times> u32 \<Rightarrow> byte list" where
  "save_image im =
     (let A = archive (stamp (of_nat (length (archive (fst im)))) (snd im) (fst im))
      in A @ take 512 A @ replicate TAR_PADDING_SZ 0)"

definition image_seal :: "entry list \<times> u32 \<Rightarrow> u32 \<times> u32" where
  "image_seal im = (snd im, of_nat (length (archive (fst im))))"

definition image_ok :: "factory_cfg \<Rightarrow> entry list \<times> u32 \<Rightarrow> bool" where
  "image_ok cfg im \<longleftrightarrow> (\<forall>e \<in> set (fst im). entry_ok e) \<and> factory_root (fst im)
     \<and> length (archive (fst im)) + 512 + TAR_PADDING_SZ \<le> cfg_half cfg"

lemma root_archive_length:
  assumes "\<forall>e \<in> set es. entry_ok e" and "factory_root es"
  shows "512 \<le> length (archive es)"
proof -
  obtain h b es' where "es = (h, b) # es'" using assms(2) by (cases es) (auto simp: factory_root_def)
  then show ?thesis using assms(1) entry_ok_length by force
qed

lemma length_save_image:
  assumes "\<forall>e \<in> set (fst im). entry_ok e" and "factory_root (fst im)"
  shows "length (save_image im) = length (archive (fst im)) + 512 + TAR_PADDING_SZ"
  using root_archive_length [OF assms] length_archive_stamp [OF assms(1)]
  by (simp add: save_image_def Let_def)

lemma slot_bytes_patch_same:
  assumes "slot_off cfg i + cfg_half cfg \<le> length flash" and "length data \<le> cfg_half cfg"
  shows "\<exists>r. slot_bytes cfg (patch (slot_off cfg i) data flash) i = data @ r"
  using assms by (simp add: slot_bytes_def patch_def)

lemma slot_bytes_patch_other:
  assumes "slot_off cfg i + cfg_half cfg \<le> length flash" and "length data \<le> cfg_half cfg" and "j \<noteq> i"
  shows "slot_bytes cfg (patch (slot_off cfg i) data flash) j = slot_bytes cfg flash j"
proof (cases "i < j")
  case True
  then have "slot_off cfg i + cfg_half cfg \<le> slot_off cfg j"
    using mult_le_mono2 [of "Suc i" j "cfg_half cfg"] by (simp add: slot_off_def)
  then show ?thesis using assms by (simp add: slot_bytes_def drop_patch_ge)
next
  case False
  then have le: "slot_off cfg j + cfg_half cfg \<le> slot_off cfg i"
    using assms(3) mult_le_mono2 [of "Suc j" i "cfg_half cfg"] by (simp add: slot_off_def)
  have sb: "slot_bytes cfg x j = drop (slot_off cfg j) (take (slot_off cfg j + cfg_half cfg) x)" for x
    by (simp add: slot_bytes_def drop_take)
  show ?thesis
    unfolding sb using assms le by (subst take_patch_le) simp_all
qed

section \<open>Saving to SPI flash\<close>

definition spi_store :: "factory_cfg \<Rightarrow> flash_dev \<Rightarrow> entry list \<times> u32 \<Rightarrow> nat \<Rightarrow> byte list \<Rightarrow> byte list" where
  "spi_store cfg dev im i flash =
     patch (slot_off cfg i) (save_image im)
       (erase_sector (slot_off cfg i)
         (round_up (length (save_image im)) (unat (spi_flash_min_erase_size dev))) flash)"

definition spi_image_ok ::
  "factory_cfg \<Rightarrow> flash_dev \<Rightarrow> byte list \<Rightarrow> nat \<Rightarrow> entry list \<times> u32 \<Rightarrow> bool" where
  "spi_image_ok cfg dev flash i im \<longleftrightarrow> cfg_ok cfg \<and> spi_flash_ok cfg dev flash \<and> image_ok cfg im
     \<and> (\<forall>j < 2. j \<noteq> i \<longrightarrow> slot_sane cfg (cfg_size cfg - 512) (slot_bytes cfg flash j))"

lemma spi_store_length:
  assumes "spi_image_ok cfg dev flash i im" and "i < 2"
  shows "length (spi_store cfg dev im i flash) = length flash"
    and "round_up (length (save_image im)) (unat (spi_flash_min_erase_size dev)) \<le> cfg_half cfg"
    and "slot_off cfg i + cfg_half cfg \<le> length flash"
proof -
  from assms have fl: "spi_flash_ok cfg dev flash" and cfg: "cfg_ok cfg" and im: "image_ok cfg im"
    by (simp_all add: spi_image_ok_def)
  obtain k where "unat (spi_flash_min_erase_size dev) = 2 ^ k"
    using fl sector_size_exp [of "spi_flash_min_erase_size dev"] by (auto simp: spi_flash_ok_def)
  then have pos: "0 < unat (spi_flash_min_erase_size dev)" by simp
  have l: "length (save_image im) \<le> cfg_half cfg"
    using im length_save_image [of im] by (simp add: image_ok_def)
  show r: "round_up (length (save_image im)) (unat (spi_flash_min_erase_size dev)) \<le> cfg_half cfg"
    using fl l pos by (intro round_up_le) (simp_all add: spi_flash_ok_def)
  show s: "slot_off cfg i + cfg_half cfg \<le> length flash"
    using fl by (intro slot_fits [OF cfg _ assms(2)]) (simp add: spi_flash_ok_def)
  show "length (spi_store cfg dev im i flash) = length flash"
    using s l by (simp add: spi_store_def)
qed

lemma spi_store_slots:
  assumes ok: "spi_image_ok cfg dev flash i im" and i: "i < 2"
  shows "\<exists>r. slot_bytes cfg (spi_store cfg dev im i flash) i = save_image im @ r"
    and "j \<noteq> i \<Longrightarrow> slot_bytes cfg (spi_store cfg dev im i flash) j = slot_bytes cfg flash j"
proof -
  note len = spi_store_length [OF ok i]
  let ?n = "round_up (length (save_image im)) (unat (spi_flash_min_erase_size dev))"
  let ?fl = "erase_sector (slot_off cfg i) ?n flash"
  have l: "length (save_image im) \<le> cfg_half cfg"
    using ok length_save_image [of im] by (simp add: spi_image_ok_def image_ok_def)
  show "\<exists>r. slot_bytes cfg (spi_store cfg dev im i flash) i = save_image im @ r"
    unfolding spi_store_def using len(3) l by (intro slot_bytes_patch_same) simp_all
  assume j: "j \<noteq> i"
  have "slot_bytes cfg (spi_store cfg dev im i flash) j = slot_bytes cfg ?fl j"
    unfolding spi_store_def using len(3) l j by (intro slot_bytes_patch_other) simp_all
  also have "?fl = patch (slot_off cfg i) (replicate ?n 0xFF) flash"
    using len(2,3) by (intro erase_sector_fit) simp
  also have "slot_bytes cfg (patch (slot_off cfg i) (replicate ?n 0xFF) flash) j = slot_bytes cfg flash j"
    using len(2,3) j by (intro slot_bytes_patch_other) simp_all
  finally show "slot_bytes cfg (spi_store cfg dev im i flash) j = slot_bytes cfg flash j" .
qed

lemma save_image_slot_image:
  "slot_image (stamp (of_nat (length (archive (fst im)))) (snd im) (fst im)) (save_image im @ r)"
  by (auto simp: slot_image_def save_image_def Let_def)

lemma slot_view_save_image:
  assumes "cfg_ok cfg" and "image_ok cfg im" and "cfg_half cfg - 512 \<le> limit" and "limit < 2 ^ 32"
  shows "slot_view limit (save_image im @ r) = Some (image_seal im)"
    and "slot_sane cfg limit (save_image im @ r)"
proof -
  let ?n = "length (archive (fst im))"
  have ok: "\<forall>e \<in> set (fst im). entry_ok e" "factory_root (fst im)"
    and fit: "?n + 512 + TAR_PADDING_SZ \<le> cfg_half cfg"
    using assms(2) by (simp_all add: image_ok_def)
  have u: "unat (of_nat ?n :: u32) = ?n"
    using fit assms(1) by (intro unat_of_nat_u32) (simp add: cfg_ok_def)
  have lt: "unat (of_nat ?n :: u32) < limit"
    using fit assms(3) unfolding u by (simp add: TAR_PADDING_SZ_def)
  note v = slot_view_image [OF ok save_image_slot_image [of im r] u lt assms(4)]
  show "slot_view limit (save_image im @ r) = Some (image_seal im)"
    using v(1) by (simp add: image_seal_def)
  show "slot_sane cfg limit (save_image im @ r)"
    unfolding slot_sane_def v(2) using fit by (simp add: TAR_PADDING_SZ_def)
qed

lemma spi_check_stored:
  assumes ok: "spi_image_ok cfg dev flash i im" and i: "i < 2"
  shows "spi_check_slot cfg (spi_store cfg dev im i flash) i = Some (image_seal im)"
proof -
  have cfg: "cfg_ok cfg" and im: "image_ok cfg im" and fl: "spi_flash_ok cfg dev flash"
    using ok by (simp_all add: spi_image_ok_def)
  obtain r where r: "slot_bytes cfg (spi_store cfg dev im i flash) i = save_image im @ r"
    using spi_store_slots(1) [OF ok i] by blast
  have lim: "cfg_half cfg - 512 \<le> cfg_size cfg - 512" "cfg_size cfg - 512 < 2 ^ 32"
    using cfg by (auto simp: cfg_ok_def)
  note v = slot_view_save_image [OF cfg im lim, of r]
  show ?thesis
    using v r fl spi_store_length(1) [OF ok i]
    by (subst spi_check_slot_view [OF cfg _ _ i]) (simp_all add: spi_flash_ok_def)
qed

lemma spi_check_other:
  assumes ok: "spi_image_ok cfg dev flash i im" and i: "i < 2" and j: "j < 2" "j \<noteq> i"
  shows "spi_check_slot cfg (spi_store cfg dev im i flash) j = spi_check_slot cfg flash j"
proof -
  have cfg: "cfg_ok cfg" and fl: "spi_flash_ok cfg dev flash"
    and sane: "slot_sane cfg (cfg_size cfg - 512) (slot_bytes cfg flash j)"
    using ok j by (simp_all add: spi_image_ok_def)
  have same: "slot_bytes cfg (spi_store cfg dev im i flash) j = slot_bytes cfg flash j"
    using j(2) by (rule spi_store_slots(2) [OF ok i])
  show ?thesis
    using fl sane same spi_store_length(1) [OF ok i]
    by (simp add: spi_check_slot_view [OF cfg _ _ j(1)] spi_flash_ok_def)
qed

interpretation spi: ping_pong "spi_check_slot cfg" "spi_image_ok cfg dev" image_seal "spi_store cfg dev"
  for cfg dev
  by unfold_locales (simp_all add: spi_check_stored spi_check_other)

subsection \<open>The save operation\<close>

lemma factory_inv_mem:
  assumes "cfg_ok cfg" and "factory_inv cfg es st"
  obtains d b2 where "factory_mem st = archive es @ replicate d 0 @ b2"
    and "length (archive es) + d = cfg_half cfg" and "0 < d" and "length b2 = cfg_half cfg"
    and "\<forall>e \<in> set es. entry_ok e"
proof -
  from assms(2) obtain d where d: "0 < d" "factory_buffer cfg st = archive es @ replicate d 0"
    and ok: "\<forall>e \<in> set es. entry_ok e" and ml: "length (factory_mem st) = cfg_size cfg"
    by (auto simp: factory_inv_def tar_area_def)
  have "factory_mem st = factory_buffer cfg st @ factory_buffer2 cfg st"
    by (simp add: factory_buffer_def factory_buffer2_def)
  moreover note factory_buffer_length [OF assms(1) ml]
  ultimately show thesis using d ok by (intro that [of d "factory_buffer2 cfg st"]) simp_all
qed

lemma factory_inv_memI:
  assumes cfg: "cfg_ok cfg" and "factory_ready st" and "factory_mem st = archive es @ replicate d 0 @ b2"
    and "length (archive es) + d = cfg_half cfg" and "0 < d" and "length b2 = cfg_half cfg"
    and "\<forall>e \<in> set es. entry_ok e" and "factory_tarsize st = int (length (archive es))"
  shows "factory_inv cfg es st"
proof -
  have b: "factory_buffer cfg st = archive es @ replicate d 0"
    unfolding factory_buffer_def assms(3) append_assoc [symmetric]
    using assms(4) by (subst take_append) simp
  have "unat FACTORY_DATA_ADDR + cfg_half cfg + 1024 < 2 ^ 31"
    using cfg by (simp add: cfg_ok_def FACTORY_DATA_ADDR_def)
  then show ?thesis
    unfolding factory_inv_def tar_area_def b cfg_ok_unat [OF cfg]
    using assms by (auto simp: cfg_ok_def)
qed

lemma seal_archive_eq:
  assumes mem: "factory_mem st = archive es @ replicate d 0 @ b2"
    and ok: "\<forall>e \<in> set es. entry_ok e" and root: "factory_root es"
    and len: "unat len = length (archive es)" and d: "512 \<le> d"
  shows "seal_archive len st =
    Some (archive (stamp len (next_seqnum st) es) @ take 512 (archive (stamp len (next_seqnum st) es))
      @ replicate (d - 512) 0 @ b2)"
proof -
  let ?A = "archive (stamp len (next_seqnum st) es)"
  have ne: "es \<noteq> []" using root by (simp add: factory_root_def)
  have L: "length ?A = unat len" using length_archive_stamp [OF ok] len by simp
  have L5: "512 \<le> unat len" using root_archive_length [OF ok root] len by simp
  have m1: "fill_rtk_header len (next_seqnum st) (factory_mem st) = ?A @ replicate d 0 @ b2"
    unfolding mem by (rule archive_stamp [OF ok ne])
  have "512 \<le> length (factory_mem st)" using mem L5 len by simp
  then have t: "rtk_tarsize (?A @ replicate d 0 @ b2) = len"
    unfolding m1 [symmetric] by (rule rtk_fields_fill)
  have t5: "take 512 (?A @ replicate d 0 @ b2) = take 512 ?A" using L L5 by simp
  have "memcpy_at (unat len) (take 512 ?A) (?A @ replicate d 0 @ b2) =
      Some (?A @ take 512 ?A @ replicate (d - 512) 0 @ b2)"
    using L L5 d by (simp add: memcpy_at_def patch_def)
  then show ?thesis
    unfolding seal_archive_def m1 Let_def t t5 using L L5 by simp
qed

lemma unseal_archive_eq:
  assumes mem: "mem = archive (stamp len s es) @ take 512 (archive (stamp len s es)) @ replicate (d - 512) 0 @ b2"
    and ok: "\<forall>e \<in> set es. entry_ok e" and root: "factory_root es"
    and len: "unat len = length (archive es)" and d: "512 \<le> d"
  shows "unseal_archive st mem = Some (archive (stamp len s es) @ replicate d 0 @ b2)"
proof -
  let ?A = "archive (stamp len s es)"
  have L: "length ?A = unat len" using length_archive_stamp [OF ok] len by simp
  have L5: "512 \<le> unat len" using root_archive_length [OF ok root] len by simp
  have ne: "es \<noteq> []" using root by (simp add: factory_root_def)
  have "mem = fill_rtk_header len s (archive es @ take 512 ?A @ replicate (d - 512) 0 @ b2)"
    unfolding mem by (rule archive_stamp [OF ok ne, symmetric])
  then have t: "rtk_tarsize mem = len" using L5 len by (simp add: rtk_fields_fill)
  have "replicate d (0::byte) = replicate 512 0 @ replicate (d - 512) 0"
    using d by (simp add: replicate_add [symmetric] del: replicate_add)
  then show ?thesis
    unfolding unseal_archive_def t using L L5 d by (simp add: memcpy_at_def patch_def mem)
qed

lemma next_pp_less: "next_pp st < 2"
  by (auto simp: next_pp_def nat_less_iff)

lemma factory_save_to_SPI_eq:
  assumes cfg: "cfg_ok cfg" and inv: "factory_inv cfg es st" and root: "factory_root es"
    and img: "spi_image_ok cfg dev (factory_flash st) (next_pp st) (es, next_seqnum st)"
    and prog: "\<And>b. spi_prog dev 0xFF b = b"
    and len: "len = of_nat (length (archive es))"
  shows "\<exists>st'. factory_save_to_SPI cfg dev len st = Some (0, st')
    \<and> factory_inv cfg (stamp len (next_seqnum st) es) st'
    \<and> factory_flash st' = spi_store cfg dev (es, next_seqnum st) (next_pp st) (factory_flash st)
    \<and> factory_current_pp st' = int (next_pp st) \<and> factory_seq_num st' = next_seqnum st"
proof -
  obtain d b2 where mem: "factory_mem st = archive es @ replicate d 0 @ b2"
    and dl: "length (archive es) + d = cfg_half cfg" "0 < d" and b2: "length b2 = cfg_half cfg"
    and ok: "\<forall>e \<in> set es. entry_ok e"
    by (rule factory_inv_mem [OF cfg inv])
  let ?s = "next_seqnum st" and ?i = "next_pp st" and ?fl = "factory_flash st"
  let ?A = "archive (stamp len ?s es)"
  let ?L = "length (archive es)"
  let ?im = "(es, ?s)"
  have im: "?L + 512 + TAR_PADDING_SZ \<le> cfg_half cfg" and fl: "spi_flash_ok cfg dev ?fl"
    using img by (simp_all add: spi_image_ok_def image_ok_def)
  have half: "cfg_half cfg \<le> 0x400000" using cfg by (simp add: cfg_ok_def)
  have ul: "unat len = ?L" unfolding len using im half by (intro unat_of_nat_u32) simp
  have d5: "512 \<le> d" "1536 \<le> d" using im dl(1) by (simp_all add: TAR_PADDING_SZ_def)
  let ?mem1 = "?A @ take 512 ?A @ replicate (d - 512) 0 @ b2"
  have seal: "seal_archive len st = Some ?mem1"
    by (rule seal_archive_eq [OF mem ok root ul d5(1)])
  have LA: "length ?A = ?L" by (rule length_archive_stamp [OF ok])
  have L5: "512 \<le> ?L" by (rule root_archive_length [OF ok root])
  define tot where "tot = len + 512 + of_nat TAR_PADDING_SZ"
  have ut: "unat tot = ?L + 512 + TAR_PADDING_SZ"
  proof -
    have "tot = of_nat (?L + 512 + TAR_PADDING_SZ)" by (simp add: tot_def len)
    moreover have "?L + 512 + TAR_PADDING_SZ < 2 ^ 32" using im half by simp
    ultimately show ?thesis by (simp only: unat_of_nat_u32)
  qed
  have nofit: "\<not> tot > of_nat (cfg_half cfg)"
    using im ut cfg_ok_unat [OF cfg] by (simp add: word_less_nat_alt)
  have data: "take (unat tot) ?mem1 = save_image ?im"
  proof -
    have "d - 512 = TAR_PADDING_SZ + (d - 1536)" using d5 by (simp add: TAR_PADDING_SZ_def)
    then have "replicate (d - 512) (0::byte) = replicate TAR_PADDING_SZ 0 @ replicate (d - 1536) 0"
      by (simp only: replicate_add)
    then show ?thesis using LA L5 ut by (simp add: save_image_def len Let_def)
  qed
  have lm: "\<not> length ?mem1 < unat tot" using ut LA L5 d5 by (simp add: TAR_PADDING_SZ_def)
  have lsi: "length (save_image ?im) = unat tot"
    using length_save_image [of ?im] ok root ut by simp
  note st_len = spi_store_length [OF img next_pp_less]
  let ?sz = "spi_flash_min_erase_size dev"
  let ?a = "spi_slot_addr cfg ?i"
  have flen: "length ?fl \<le> 2 ^ 28" using fl by (simp add: spi_flash_ok_def)
  have so: "spi_offset ?a = slot_off cfg ?i"
    using st_len(3) flen by (intro spi_offset_slot) simp
  obtain k where k: "k < 32" "?sz = 2 ^ k" "unat ?sz = 2 ^ k"
    using sector_size_exp [of ?sz] fl by (auto simp: spi_flash_ok_def)
  have ua: "unat ?a = 0xB8100000 + slot_off cfg ?i"
  proof -
    have "unat (of_nat (slot_off cfg ?i) :: u32) = slot_off cfg ?i"
      using st_len(3) flen by (intro unat_of_nat_u32) simp
    then show ?thesis
      using st_len(3) flen by (simp add: spi_slot_addr_eq SPI_RBUS_BASE_ADDR_def unat_word_ariths)
  qed
  have er: "rtkspi_erase ?sz ?a tot ?fl =
      Some (0, erase_sector (slot_off cfg ?i) (round_up (unat tot) (unat ?sz)) ?fl)"
    unfolding so [symmetric]
  proof (rule rtkspi_erase_eq)
    show "sector_size ?sz" using fl by (simp add: spi_flash_ok_def)
    show "unat ?sz dvd unat ?a"
    proof -
      have "unat ?sz dvd 0xB8100000" using fl by (auto simp: spi_flash_ok_def sector_size_def)
      moreover have "unat ?sz dvd slot_off cfg ?i" using fl by (simp add: spi_flash_ok_def slot_off_def)
      ultimately show ?thesis unfolding ua by (rule dvd_add)
    qed
    show "spi_offset ?a + round_up (unat tot) (unat ?sz) \<le> length ?fl"
      using st_len(2,3) lsi so by simp
    show "length ?fl < 2 ^ 32" using flen by simp
    have "unat ?sz \<le> 2 ^ 18" using fl by (auto simp: spi_flash_ok_def sector_size_def)
    then show "unat ?a + unat tot + unat ?sz < 2 ^ 32"
      using ua st_len(3) flen ut im half by simp
  qed
  have wr: "rtkspi_write8 (spi_prog dev) ?a (save_image ?im)
      (erase_sector (slot_off cfg ?i) (round_up (unat tot) (unat ?sz)) ?fl) = spi_store cfg dev ?im ?i ?fl"
  proof -
    let ?n = "round_up (unat tot) (unat ?sz)"
    have n: "unat tot \<le> ?n" using k(3) by (intro round_up_ge) simp
    have "take (length (save_image ?im)) (drop (slot_off cfg ?i) (erase_sector (slot_off cfg ?i) ?n ?fl)) =
        replicate (length (save_image ?im)) 0xFF"
      using n st_len(2,3) lsi by (simp add: erase_sector_fit patch_def min_def)
    then show ?thesis
      unfolding spi_store_def lsi [symmetric] so [symmetric]
      using st_len(2,3) flen lsi so n by (intro rtkspi_write8_erased prog) simp_all
  qed
  have us: "unseal_archive st ?mem1 = Some (?A @ replicate d 0 @ b2)"
    by (rule unseal_archive_eq [OF refl ok root ul d5(1)])
  let ?st = "st\<lparr>factory_mem := ?A @ replicate d 0 @ b2, factory_flash := spi_store cfg dev ?im ?i ?fl,
      factory_current_pp := int ?i, factory_seq_num := ?s\<rparr>"
  have "factory_save_to_SPI cfg dev len st = Some (0, ?st)"
    unfolding factory_save_to_SPI_def seal tot_def [symmetric]
    using nofit lm er wr us data by (simp del: length_append take_append)
  moreover have "factory_inv cfg (stamp len ?s es) ?st"
    by (rule factory_inv_memI [OF cfg, where d = d and ?b2.0 = b2])
      (use inv dl b2 LA stamp_ok [OF ok] in \<open>simp_all add: factory_inv_def\<close>)
  ultimately show ?thesis by simp
qed


subsection \<open>Loading\<close>

lemma archive_length_dvd: "\<forall>e \<in> set es. entry_ok e \<Longrightarrow> 512 dvd length (archive es)"
proof (induction es)
  case (Cons e es)
  obtain h b where e: "e = (h, b)" by (cases e)
  then have "length h = 512" "512 dvd length b"
    using Cons.prems entry_ok_length by (auto simp: entry_ok_def blocks_def)
  then show ?case using Cons e by simp
qed simp

lemma clear_buffer_eq:
  assumes "cfg_ok cfg" and "length mem = cfg_size cfg"
  shows "clear_buffer cfg mem = Some (replicate (cfg_half cfg) 0 @ drop (cfg_half cfg) mem)"
  using assms by (simp add: clear_buffer_def memcpy_at_def patch_def cfg_ok_def)

lemma load_into_buffer:
  assumes "length A \<le> half"
  shows "memcpy_at 0 A (replicate half 0 @ b2) = Some (A @ replicate (half - length A) 0 @ b2)"
  using assms by (simp add: memcpy_at_def patch_def)

lemma factory_check_sanity_from_SPI_load:
  assumes cfg: "cfg_ok cfg" and fl: "cfg_base cfg + cfg_size cfg \<le> length (factory_flash st)"
      "length (factory_flash st) \<le> 2 ^ 28"
    and ml: "length (factory_mem st) = cfg_size cfg" and pp: "pp < 2"
    and pick: "factory_pick (spi_check_slot cfg (factory_flash st) 0) (spi_check_slot cfg (factory_flash st) 1) = Some pp"
    and slot: "spi_check_slot cfg (factory_flash st) pp = Some (image_seal im)"
    and img: "image_ok cfg im"
    and bytes: "slot_image (stamp (of_nat (length (archive (fst im)))) (snd im) (fst im))
      (slot_bytes cfg (factory_flash st) pp)"
    and rdy: "factory_ready st"
  shows "\<exists>st'. factory_check_sanity_from_SPI cfg st = Some (int (length (archive (fst im))), st')
    \<and> factory_inv cfg (stamp (of_nat (length (archive (fst im)))) (snd im) (fst im))
        (st'\<lparr>factory_tarsize := int (length (archive (fst im)))\<rparr>)
    \<and> factory_current_pp st' = int pp \<and> factory_seq_num st' = snd im
    \<and> factory_flash st' = factory_flash st \<and> factory_dirty st' = factory_dirty st"
proof -
  obtain es s where im: "im = (es, s)" by (cases im)
  let ?L = "length (archive es)"
  let ?n = "of_nat ?L :: u32"
  let ?A = "archive (stamp ?n s es)"
  let ?fl = "factory_flash st"
  have ok: "\<forall>e \<in> set es. entry_ok e" and root: "factory_root es" and fit: "?L + 512 + TAR_PADDING_SZ \<le> cfg_half cfg"
    using img im by (simp_all add: image_ok_def)
  have half: "cfg_half cfg \<le> 0x400000" using cfg by (simp add: cfg_ok_def)
  have un: "unat ?n = ?L" using fit half by (intro unat_of_nat_u32) simp
  have sn: "sint ?n = int ?L" using fit half un by (intro sint_nat_u32) simp_all
  have LA: "length ?A = ?L" by (rule length_archive_stamp [OF ok])
  have fits: "slot_off cfg pp + cfg_half cfg \<le> length ?fl" by (rule slot_fits [OF cfg fl(1) pp])
  have "rtkspi_read32 ?fl (spi_slot_addr cfg pp) ?n = take (unat ?n div 4 * 4) (drop (slot_off cfg pp) ?fl)"
    using fits fit un by (intro spi_read_slot fl(2)) simp
  also have "unat ?n div 4 * 4 = ?L"
  proof -
    have "4 dvd ?L" by (rule dvd_trans [OF _ archive_length_dvd [OF ok]]) simp
    then show ?thesis unfolding un by simp
  qed
  also have "take ?L (drop (slot_off cfg pp) ?fl) = take ?L (slot_bytes cfg ?fl pp)"
    using fit by (simp add: slot_bytes_def min_def)
  also have "\<dots> = ?A" using bytes LA by (auto simp: slot_image_def im)
  finally have rd: "rtkspi_read32 ?fl (spi_slot_addr cfg pp) ?n = ?A" .
  let ?b2 = "drop (cfg_half cfg) (factory_mem st)"
  let ?mem = "?A @ replicate (cfg_half cfg - length ?A) 0 @ ?b2"
  have m: "memcpy_at 0 ?A (replicate (cfg_half cfg) 0 @ ?b2) = Some ?mem"
    using fit LA by (intro load_into_buffer) simp
  let ?st = "st\<lparr>factory_mem := ?mem, factory_current_pp := int pp, factory_seq_num := s\<rparr>"
  have "factory_check_sanity_from_SPI cfg st = Some (int ?L, ?st)"
    unfolding factory_check_sanity_from_SPI_def clear_buffer_eq [OF cfg ml]
    using pick slot rd m sn by (simp add: image_seal_def im)
  moreover have "factory_inv cfg (stamp ?n s es) (?st\<lparr>factory_tarsize := int ?L\<rparr>)"
    by (rule factory_inv_memI [OF cfg, where d = "cfg_half cfg - length ?A" and ?b2.0 = ?b2])
      (use rdy LA fit ml cfg stamp_ok [OF ok] in \<open>simp_all add: TAR_PADDING_SZ_def cfg_ok_def\<close>)
  ultimately show ?thesis by (simp add: im)
qed

end
