(* ===== verification/Power_Loss.thy ===== *)
theory Power_Loss
  imports Ping_Pong
begin

text \<open>
  A save to SPI flash interrupted at any point. The erase and program loops of
  \<^verbatim>\<open>factory_save_to_SPI\<close> are a step relation on the flash, one flash operation a step; whatever it
  reaches, the next \<^verbatim>\<open>factory_init\<close> loads the archive of before the save or the one being saved.
  The last part are the sessions of writes, deletions, saves and reboots that follow from it.
\<close>

section \<open>A save, one flash operation at a time\<close>

text \<open>The erase and program loops of a save as a machine whose steps are the single flash
  operations. Power may be lost between any two of them. One operation, the erase of a sector or the programming
  of a byte, is taken to be done or not done: what the chip holds after power is lost inside one is not modelled.\<close>

datatype save_phase = Erasing u32 | Programming u32 "byte list"

inductive save_step ::
  "(byte \<Rightarrow> byte \<Rightarrow> byte) \<Rightarrow> u32 \<Rightarrow> u32 \<Rightarrow> u32 \<Rightarrow> byte list \<Rightarrow>
   save_phase \<times> byte list \<Rightarrow> save_phase \<times> byte list \<Rightarrow> bool"
  for prog sz a e data where
  erase: "cur < e \<Longrightarrow> save_step prog sz a e data (Erasing cur, flash)
     (Erasing (cur + sz), erase_sector (spi_offset cur) (unat sz) flash)"
| switch: "\<not> cur < e \<Longrightarrow> save_step prog sz a e data (Erasing cur, flash) (Programming a data, flash)"
| program: "save_step prog sz a e data (Programming x (c # cs), flash)
     (Programming (x + 1) cs, flash[spi_offset x := prog (flash ! spi_offset x) c])"

inductive_cases save_step_erasing: "save_step prog sz a e data (Erasing cur, flash) s"
inductive_cases save_step_programming: "save_step prog sz a e data (Programming x cs, flash) s"

text \<open>The machine runs to the end of \<^verbatim>\<open>rtkspi_write8\<close> after \<^verbatim>\<open>rtkspi_erase\<close>.\<close>

lemma save_steps_program:
  "(save_step prog sz a e data)\<^sup>*\<^sup>* (Programming x cs, flash)
     (Programming (x + of_nat (length cs)) [], rtkspi_write8 prog x cs flash)"
proof (induction cs arbitrary: x flash)
  case (Cons c cs)
  have "save_step prog sz a e data (Programming x (c # cs), flash)
      (Programming (x + 1) cs, flash[spi_offset x := prog (flash ! spi_offset x) c])"
    by (rule program)
  with Cons.IH [of "x + 1" "flash[spi_offset x := prog (flash ! spi_offset x) c]"] show ?case
    by (simp add: Let_def add.assoc add.commute add.left_commute converse_rtranclp_into_rtranclp)
qed simp

lemma save_steps_erase:
  assumes "sector_size sz" and "unat e = unat cur + m * unat sz"
    and "spi_offset cur + m * unat sz \<le> length flash" and "length flash < 2 ^ 32"
  shows "(save_step prog sz a e data)\<^sup>*\<^sup>* (Erasing cur, flash)
    (Programming a data, erase_sector (spi_offset cur) (m * unat sz) flash)"
  using assms(2-4)
proof (induction m arbitrary: cur flash)
  case 0
  then have "\<not> cur < e" by (simp add: word_less_nat_alt)
  then show ?case using switch by (force simp: erase_sector_def)
next
  case (Suc m)
  obtain k where k: "unat sz = 2 ^ k" using sector_size_exp [OF assms(1)] by blast
  have lt: "cur < e" using Suc.prems(1) k by (simp add: word_less_nat_alt)
  have ub: "unat e < 2 ^ 32" by (rule unat_u32_less)
  have ua: "unat (cur + sz) = unat cur + unat sz"
    using Suc.prems(1) ub by (simp add: unat_word_ariths)
  have "spi_offset (cur + of_nat (unat sz)) = spi_offset cur + unat sz"
    using Suc.prems(2,3) by (intro spi_offset_add) simp
  then have o: "spi_offset (cur + sz) = spi_offset cur + unat sz" by simp
  let ?fl = "erase_sector (spi_offset cur) (unat sz) flash"
  have "(save_step prog sz a e data)\<^sup>*\<^sup>* (Erasing (cur + sz), ?fl)
      (Programming a data, erase_sector (spi_offset (cur + sz)) (m * unat sz) ?fl)"
    using Suc.prems ua o by (intro Suc.IH) simp_all
  moreover have "erase_sector (spi_offset cur + unat sz) (m * unat sz) ?fl =
      erase_sector (spi_offset cur) (Suc m * unat sz) flash"
    using Suc.prems(2) erase_erase [of "spi_offset cur" "unat sz" "m * unat sz" flash] by simp
  moreover have "save_step prog sz a e data (Erasing cur, flash) (Erasing (cur + sz), ?fl)"
    using lt by (rule erase)
  ultimately show ?case
    unfolding o by (metis converse_rtranclp_into_rtranclp)
qed

lemma unat_add_of_nat:
  assumes "unat (a :: u32) + n < 2 ^ 32"
  shows "unat (a + of_nat n) = unat a + n"
proof -
  have "unat (of_nat n :: u32) = n" using assms by (intro unat_of_nat_u32) simp
  then show ?thesis using assms by (simp add: unat_word_ariths)
qed

text \<open>Every intermediate state: some sectors erased, or all of them and a part of the data
  programmed.\<close>

definition save_inv :: "u32 \<Rightarrow> u32 \<Rightarrow> nat \<Rightarrow> byte list \<Rightarrow> byte list \<Rightarrow> save_phase \<times> byte list \<Rightarrow> bool" where
  "save_inv sz a m data flash0 s \<longleftrightarrow>
     (\<exists>j \<le> m. s = (Erasing (a + of_nat (j * unat sz)), erase_sector (spi_offset a) (j * unat sz) flash0))
     \<or> (\<exists>k \<le> length data. s = (Programming (a + of_nat k) (drop k data),
          patch (spi_offset a) (take k data) (erase_sector (spi_offset a) (m * unat sz) flash0)))"

lemma save_inv_step:
  assumes sz: "sector_size sz" and e: "unat e = unat a + m * unat sz"
    and fit: "spi_offset a + m * unat sz \<le> length flash0" "length flash0 < 2 ^ 32"
    and data: "length data \<le> m * unat sz" and prog: "\<And>b. prog 0xFF b = b"
    and step: "save_step prog sz a e data s s'" and inv: "save_inv sz a m data flash0 s"
  shows "save_inv sz a m data flash0 s'"
proof -
  have ub: "unat e < 2 ^ 32" by (rule unat_u32_less)
  from inv consider (er) j where "j \<le> m"
      "s = (Erasing (a + of_nat (j * unat sz)), erase_sector (spi_offset a) (j * unat sz) flash0)"
    | (pr) k where "k \<le> length data" "s = (Programming (a + of_nat k) (drop k data),
          patch (spi_offset a) (take k data) (erase_sector (spi_offset a) (m * unat sz) flash0))"
    by (auto simp: save_inv_def)
  then show ?thesis
  proof cases
    case er
    let ?c = "a + of_nat (j * unat sz)"
    have jm: "j * unat sz \<le> m * unat sz" using er(1) by simp
    have uc: "unat ?c = unat a + j * unat sz"
      using jm e ub by (intro unat_add_of_nat) linarith
    have so: "spi_offset ?c = spi_offset a + j * unat sz"
      using fit jm by (intro spi_offset_add) linarith
    from step er(2) consider "?c < e"
        "s' = (Erasing (?c + sz), erase_sector (spi_offset ?c) (unat sz) (erase_sector (spi_offset a) (j * unat sz) flash0))"
      | "\<not> ?c < e" "s' = (Programming a data, erase_sector (spi_offset a) (j * unat sz) flash0)"
      by (auto elim: save_step_erasing)
    then show ?thesis
    proof cases
      case 1
      have jl: "Suc j \<le> m"
      proof (rule ccontr)
        assume "\<not> Suc j \<le> m"
        then have "j = m" using er(1) by simp
        then show False using 1(1) e uc by (simp add: word_less_nat_alt)
      qed
      then have "Suc j * unat sz \<le> m * unat sz" by (rule mult_le_mono1)
      then have "spi_offset a + j * unat sz + unat sz \<le> length flash0" using fit(1) by simp
      then have "erase_sector (spi_offset ?c) (unat sz) (erase_sector (spi_offset a) (j * unat sz) flash0) =
          erase_sector (spi_offset a) (Suc j * unat sz) flash0"
        unfolding so using erase_erase [of "spi_offset a" "j * unat sz" "unat sz" flash0] by (simp add: add.commute)
      moreover have "?c + sz = a + of_nat (Suc j * unat sz)" by (simp add: algebra_simps)
      ultimately have "s' = (Erasing (a + of_nat (Suc j * unat sz)), erase_sector (spi_offset a) (Suc j * unat sz) flash0)"
        using 1(2) by simp
      then show ?thesis unfolding save_inv_def using jl by blast
    next
      case 2
      have "j = m"
      proof (rule ccontr)
        assume "j \<noteq> m"
        obtain k where "unat sz = 2 ^ k" using sector_size_exp [OF sz] by blast
        then have "j * unat sz < m * unat sz" using \<open>j \<noteq> m\<close> er(1) by simp
        then show False using 2(1) e uc by (simp add: word_less_nat_alt)
      qed
      then show ?thesis using 2(2) fit(1) by (auto simp: save_inv_def)
    qed
  next
    case pr
    let ?E = "erase_sector (spi_offset a) (m * unat sz) flash0"
    let ?F = "patch (spi_offset a) (take k data) ?E"
    from step pr(2) obtain c cs where dk: "drop k data = c # cs" and s': "s' = (Programming (a + of_nat k + 1) cs,
        ?F[spi_offset (a + of_nat k) := prog (?F ! spi_offset (a + of_nat k)) c])"
      by (auto elim: save_step_programming)
    have kl: "k < length data" using dk by (metis drop_all linorder_not_less list.distinct(1))
    have cs: "cs = drop (Suc k) data" "c = data ! k" using dk kl by (simp_all add: Cons_nth_drop_Suc [symmetric])
    have so: "spi_offset (a + of_nat k) = spi_offset a + k" using fit data kl by (intro spi_offset_add) linarith
    have lE: "length ?E = length flash0" by simp
    have fitk: "spi_offset a + k < length ?E" using fit data kl by simp
    have at: "?F ! (spi_offset a + k) = 0xFF"
    proof -
      have "?F ! (spi_offset a + k) = ?E ! (spi_offset a + k)"
        using fitk kl by (simp add: patch_def nth_append)
      also have "\<dots> = 0xFF"
        using fit(1) data kl by (simp add: erase_sector_fit patch_def nth_append)
      finally show ?thesis .
    qed
    have "?F[spi_offset a + k := c] = patch (spi_offset a) (take (Suc k) data) ?E"
    proof (rule nth_equalityI)
      show "length (?F[spi_offset a + k := c]) = length (patch (spi_offset a) (take (Suc k) data) ?E)"
        using fitk kl by simp
      fix i
      assume "i < length (?F[spi_offset a + k := c])"
      then show "?F[spi_offset a + k := c] ! i = patch (spi_offset a) (take (Suc k) data) ?E ! i"
        using fitk kl cs(2)
        by (auto simp: nth_list_update patch_def nth_append less_Suc_eq take_Suc_conv_app_nth)
    qed
    then show ?thesis
      using s' so at prog cs kl by (auto simp: save_inv_def add.assoc add.commute intro!: exI [of _ "Suc k"])
  qed
qed

section \<open>What an interrupted save leaves\<close>

abbreviation stamped :: "entry list \<times> u32 \<Rightarrow> entry list" where
  "stamped im \<equiv> stamp (of_nat (length (archive (fst im)))) (snd im) (fst im)"

lemma header_unsigned:
  assumes "rd sl 511 = 0xFF"
  shows "\<not> slot_header_ok (take 512 sl) lim"
proof
  assume ok: "slot_header_ok (take 512 sl) lim"
  have l: "511 < length sl" using assms by (auto simp: rd_def split: if_splits)
  then have "length (take 512 sl) = 512" by simp
  then have "rtk_signed (take 512 sl)"
    using ok strcmp_RTK [of "take 512 sl" "[]"] by (simp add: slot_header_ok_def)
  then have "take 4 (drop 508 (take 512 sl)) ! 3 = (bytes_of ''RTK'' @ [0]) ! 3"
    by (simp add: rtk_signed_def hdr_signature_def)
  moreover have "take 4 (drop 508 (take 512 sl)) ! 3 = sl ! 511" using l by simp
  ultimately show False using assms l by (simp add: rd_def bytes_of_def)
qed

lemma unsigned_view: "rd sl 511 = 0xFF \<Longrightarrow> slot_view limit sl = None \<and> slot_sane cfg limit sl"
  by (simp add: slot_view_def slot_sane_def header_unsigned)

lemma stamped_header:
  assumes "image_ok cfg im"
  shows "rd (archive (stamped im)) 511 = 0" and "length (archive (stamped im)) = length (archive (fst im))"
    and "512 \<le> length (archive (fst im))" and "rtk_tarsize (archive (stamped im)) = of_nat (length (archive (fst im)))"
    and "length (save_image im) = length (archive (fst im)) + 512 + TAR_PADDING_SZ"
proof -
  have ok: "\<forall>e \<in> set (fst im). entry_ok e" and root: "factory_root (fst im)"
    using assms by (simp_all add: image_ok_def)
  let ?A = "archive (fst im)" and ?n = "of_nat (length (archive (fst im))) :: u32"
  show L: "512 \<le> length ?A" by (rule root_archive_length [OF ok root])
  have ne: "fst im \<noteq> []" using root by (simp add: factory_root_def)
  have s: "archive (stamped im) = fill_rtk_header ?n (snd im) ?A"
    using archive_stamp [OF ok ne, of ?n "snd im" "[]"] by simp
  show "rd (archive (stamped im)) 511 = 0" unfolding s using L by (simp add: rd_fill_rtk_header bytes_of_def)
  show "rtk_tarsize (archive (stamped im)) = ?n" unfolding s using L by (simp add: rtk_fields_fill)
  show "length (archive (stamped im)) = length ?A" by (rule length_archive_stamp [OF ok])
  show "length (save_image im) = length ?A + 512 + TAR_PADDING_SZ" by (rule length_save_image [OF ok root])
qed

lemma partial_image:
  assumes cfg: "cfg_ok cfg" and im: "image_ok cfg im" and lim: "limit < 2 ^ 32"
    and k: "k \<le> length (save_image im)" "length (save_image im) \<le> k + n"
    and sl: "sl = take k (save_image im) @ replicate n 0xFF @ r"
  shows "k < length (archive (fst im)) + 512 \<Longrightarrow> slot_view limit sl = None \<and> slot_sane cfg limit sl"
    and "length (archive (fst im)) + 512 \<le> k \<Longrightarrow> slot_image (stamped im) sl"
proof -
  let ?L = "length (archive (fst im))" and ?A = "archive (stamped im)"
  note h = stamped_header [OF im]
  have S: "save_image im = ?A @ take 512 ?A @ replicate TAR_PADDING_SZ 0"
    by (simp add: save_image_def Let_def)
  show "slot_image (stamped im) sl" if "?L + 512 \<le> k"
  proof -
    have "take k (save_image im) = ?A @ take 512 ?A @ take (k - (?L + 512)) (replicate TAR_PADDING_SZ 0)"
      unfolding S using that h(2,3) by simp
    then show ?thesis unfolding slot_image_def sl by auto
  qed
  assume lt: "k < ?L + 512"
  show "slot_view limit sl = None \<and> slot_sane cfg limit sl"
  proof (cases "k < 512")
    case True
    have "511 - k < n" using True k h(3,5) by linarith
    then have "rd sl 511 = 0xFF" using True k h(3,5) by (simp add: sl rd_append rd_nth)
    then show ?thesis by (rule unsigned_view)
  next
    case False
    have half: "?L + 512 + TAR_PADDING_SZ \<le> cfg_half cfg" "cfg_half cfg \<le> 0x400000"
      using im cfg by (simp_all add: image_ok_def cfg_ok_def)
    have hd: "take 512 sl = take 512 ?A" using False h(2,3,5) k(1) S by (simp add: sl)
    have tz: "rtk_tarsize (take 512 sl) = of_nat ?L"
    proof -
      have "rd32 (take 512 ?A) 504 = rd32 ?A 504" using h(2,3) by (simp add: rd32_def rd_def)
      then show ?thesis using h(4) unfolding hd by (simp add: rtk_tarsize_def)
    qed
    have ut: "unat (rtk_tarsize (take 512 sl)) = ?L"
      unfolding tz using half by (intro unat_of_nat_u32) simp
    have n: "?L + 511 - k < n" using lt k h(3,5) by linarith
    have "rd (take 512 (drop ?L sl)) 511 = rd sl (?L + 511)"
    proof -
      have "?L + 511 < length sl" using n k lt h(3,5) by (simp add: sl)
      then show ?thesis by (simp add: rd_def)
    qed
    also have "\<dots> = 0xFF"
      using n k lt h(3,5) by (simp add: sl rd_append rd_nth)
    finally have "rd (take 512 (drop ?L sl)) 511 = 0xFF" .
    moreover have "rd (take 512 sl) 511 = 0" using hd h(1,2,3) by (simp add: rd_def)
    ultimately have "take 512 (drop ?L sl) \<noteq> take 512 sl" by auto
    then show ?thesis
      using ut half by (simp add: slot_view_def slot_sane_def Let_def)
  qed
qed

subsection \<open>Committed images\<close>

text \<open>A boot picks slot \<open>p\<close>, and what it finds there is the image \<open>im\<close>.\<close>

definition spi_committed :: "factory_cfg \<Rightarrow> byte list \<Rightarrow> nat \<Rightarrow> entry list \<times> u32 \<Rightarrow> bool" where
  "spi_committed cfg flash p im \<longleftrightarrow> p < 2 \<and> image_ok cfg im
     \<and> slot_image (stamped im) (slot_bytes cfg flash p)
     \<and> factory_pick (spi_check_slot cfg flash 0) (spi_check_slot cfg flash 1) = Some p
     \<and> (\<forall>j < 2. slot_sane cfg (cfg_size cfg - 512) (slot_bytes cfg flash j))"

lemma slot_image_check:
  assumes cfg: "cfg_ok cfg" and fl: "spi_flash_ok cfg dev flash" and p: "p < 2" and im: "image_ok cfg im"
    and sl: "slot_image (stamped im) (slot_bytes cfg flash p)"
  shows "spi_check_slot cfg flash p = Some (image_seal im)"
    and "slot_sane cfg (cfg_size cfg - 512) (slot_bytes cfg flash p)"
proof -
  let ?n = "length (archive (fst im))"
  have ok: "\<forall>e \<in> set (fst im). entry_ok e" and root: "factory_root (fst im)"
    and fit: "?n + 512 + TAR_PADDING_SZ \<le> cfg_half cfg" using im by (simp_all add: image_ok_def)
  have half: "cfg_half cfg \<le> 0x400000" "cfg_size cfg = 2 * cfg_half cfg" using cfg by (simp_all add: cfg_ok_def)
  have u: "unat (of_nat ?n :: u32) = ?n" using fit half by (intro unat_of_nat_u32) simp
  have lt: "unat (of_nat ?n :: u32) < cfg_size cfg - 512" "cfg_size cfg - 512 < 2 ^ 32"
    using fit half unfolding u by (simp_all add: TAR_PADDING_SZ_def)
  note v = slot_view_image [OF ok root sl u lt]
  show sane: "slot_sane cfg (cfg_size cfg - 512) (slot_bytes cfg flash p)"
    unfolding slot_sane_def v(2) using fit by (simp add: TAR_PADDING_SZ_def)
  show "spi_check_slot cfg flash p = Some (image_seal im)"
    using fl v(1) by (subst spi_check_slot_view [OF cfg _ _ p sane]) (simp_all add: spi_flash_ok_def image_seal_def)
qed

lemma factory_init_committed:
  assumes cfg: "cfg_ok cfg" "cfg_flash_type cfg = BOOT_NOR_SERIAL" and fl: "spi_flash_ok cfg dev (factory_flash st)"
    and ml: "length (factory_mem st) = cfg_size cfg" and com: "spi_committed cfg (factory_flash st) p im"
  shows "\<exists>st'. factory_init cfg dev h1 h2 st = Some (0, st') \<and> factory_inv cfg (stamped im) st'
    \<and> factory_current_pp st' = int p \<and> factory_seq_num st' = snd im
    \<and> factory_flash st' = factory_flash st \<and> factory_dirty st' = factory_dirty st"
proof -
  let ?st = "st\<lparr>factory_ready := True\<rparr>"
  have p: "p < 2" and im: "image_ok cfg im" and sl: "slot_image (stamped im) (slot_bytes cfg (factory_flash st) p)"
    and pick: "factory_pick (spi_check_slot cfg (factory_flash st) 0) (spi_check_slot cfg (factory_flash st) 1) = Some p"
    using com by (simp_all add: spi_committed_def)
  have fl': "cfg_base cfg + cfg_size cfg \<le> length (factory_flash ?st)" "length (factory_flash ?st) \<le> 2 ^ 28"
    using fl by (simp_all add: spi_flash_ok_def)
  obtain st' where "factory_check_sanity_from_SPI cfg ?st = Some (int (length (archive (fst im))), st')"
    "factory_inv cfg (stamped im) (st'\<lparr>factory_tarsize := int (length (archive (fst im)))\<rparr>)"
    "factory_current_pp st' = int p" "factory_seq_num st' = snd im"
    "factory_flash st' = factory_flash st" "factory_dirty st' = factory_dirty st"
    using factory_check_sanity_from_SPI_load [OF cfg(1) fl' _ p _ _ im] ml pick sl
      slot_image_check(1) [OF cfg(1) fl p im sl] by auto
  then show ?thesis using cfg(2) by (simp add: factory_init_def)
qed


subsection \<open>Every state of a save\<close>

lemma slot_bytes_split:
  assumes "slot_off cfg i + cfg_half cfg \<le> length flash" and "k \<le> n" and "n \<le> cfg_half cfg"
    and "length d = k"
  shows "\<exists>r. slot_bytes cfg (patch (slot_off cfg i) d (erase_sector (slot_off cfg i) n flash)) i =
    d @ replicate (n - k) 0xFF @ r"
proof -
  have "erase_sector (slot_off cfg i) n flash = patch (slot_off cfg i) (replicate n 0xFF) flash"
    using assms by (intro erase_sector_fit) simp
  moreover have "min (cfg_half cfg - k) (n - k) = n - k" using assms by simp
  ultimately show ?thesis
    using assms by (simp add: slot_bytes_def patch_def)
qed

lemma slot_bytes_other:
  assumes "slot_off cfg i + cfg_half cfg \<le> length flash" and "length d \<le> n" and "n \<le> cfg_half cfg" and "j \<noteq> i"
  shows "slot_bytes cfg (patch (slot_off cfg i) d (erase_sector (slot_off cfg i) n flash)) j = slot_bytes cfg flash j"
proof -
  have e: "erase_sector (slot_off cfg i) n flash = patch (slot_off cfg i) (replicate n 0xFF) flash"
    using assms by (intro erase_sector_fit) simp
  have "slot_bytes cfg (patch (slot_off cfg i) d (erase_sector (slot_off cfg i) n flash)) j =
      slot_bytes cfg (erase_sector (slot_off cfg i) n flash) j"
    using assms by (intro slot_bytes_patch_other) simp_all
  also have "\<dots> = slot_bytes cfg flash j"
    unfolding e using assms by (intro slot_bytes_patch_other) simp_all
  finally show ?thesis .
qed

lemma committed_transfer:
  assumes cfg: "cfg_ok cfg" and fl: "spi_flash_ok cfg dev flash" and com: "spi_committed cfg flash p im0"
    and len: "length f = length flash" and same: "slot_bytes cfg f p = slot_bytes cfg flash p"
    and other: "slot_view (cfg_size cfg - 512) (slot_bytes cfg f (1 - p)) = None
      \<and> slot_sane cfg (cfg_size cfg - 512) (slot_bytes cfg f (1 - p))"
  shows "spi_committed cfg f p im0"
proof -
  have p: "p < 2" "1 - p < 2" and im: "image_ok cfg im0" and sl: "slot_image (stamped im0) (slot_bytes cfg f p)"
    using com same by (auto simp: spi_committed_def)
  have flf: "spi_flash_ok cfg dev f" using fl len by (simp add: spi_flash_ok_def)
  note c = slot_image_check [OF cfg flf p(1) im sl]
  have "spi_check_slot cfg f (1 - p) = None"
    using flf other by (subst spi_check_slot_view [OF cfg _ _ p(2)]) (simp_all add: spi_flash_ok_def)
  then have "factory_pick (spi_check_slot cfg f 0) (spi_check_slot cfg f 1) = Some p"
    using c(1) p(1) by (intro spi.keeps_current [of cfg f p f]) simp_all
  moreover have "slot_sane cfg (cfg_size cfg - 512) (slot_bytes cfg f j)" if "j < 2" for j
  proof -
    have "j = p \<or> j = 1 - p" using that p(1) by auto
    then show ?thesis using c(2) other by auto
  qed
  ultimately show ?thesis using p im sl by (simp add: spi_committed_def)
qed

lemma committed_new:
  assumes cfg: "cfg_ok cfg" and fl: "spi_flash_ok cfg dev flash" and com: "spi_committed cfg flash p im0"
    and im: "image_ok cfg im" "snd im = snd im0 + 1" "p = 1 \<or> snd im \<noteq> 0"
    and len: "length f = length flash" and same: "slot_bytes cfg f p = slot_bytes cfg flash p"
    and new: "slot_image (stamped im) (slot_bytes cfg f (1 - p))"
  shows "spi_committed cfg f (1 - p) im"
proof -
  have p: "p < 2" "1 - p < 2" and im0: "image_ok cfg im0" and sl: "slot_image (stamped im0) (slot_bytes cfg f p)"
    using com same by (auto simp: spi_committed_def)
  have flf: "spi_flash_ok cfg dev f" using fl len by (simp add: spi_flash_ok_def)
  note c = slot_image_check [OF cfg flf p(1) im0 sl]
  note n = slot_image_check [OF cfg flf p(2) im(1) new]
  have "factory_pick (spi_check_slot cfg f 0) (spi_check_slot cfg f 1) = Some (1 - p)"
  proof (cases "p = 0")
    case True
    then show ?thesis using c(1) n(1) im pick_succ1 [of "snd im0"] by (simp add: factory_pick_def image_seal_def)
  next
    case False
    then have "p = 1" using p by simp
    then show ?thesis using c(1) n(1) im pick_succ0 [of "snd im0"] by (simp add: factory_pick_def image_seal_def)
  qed
  moreover have "slot_sane cfg (cfg_size cfg - 512) (slot_bytes cfg f j)" if "j < 2" for j
  proof -
    have "j = p \<or> j = 1 - p" using that p(1) by auto
    then show ?thesis using c(2) n(2) by auto
  qed
  ultimately show ?thesis using p im new by (simp add: spi_committed_def)
qed


text \<open>The states a save of \<open>im\<close> to slot \<open>i\<close> can be stopped in.\<close>

definition save_reaches ::
  "factory_cfg \<Rightarrow> flash_dev \<Rightarrow> entry list \<times> u32 \<Rightarrow> nat \<Rightarrow> byte list \<Rightarrow> save_phase \<times> byte list \<Rightarrow> bool" where
  "save_reaches cfg dev im i flash =
     (let sz = spi_flash_min_erase_size dev; a = spi_slot_addr cfg i in
      (save_step (spi_prog dev) sz a (a + of_nat (round_up (length (save_image im)) (unat sz))) (save_image im))\<^sup>*\<^sup>*
        (Erasing a, flash))"

lemma save_geometry:
  assumes img: "spi_image_ok cfg dev flash i im" and i: "i < 2"
  defines "sz \<equiv> spi_flash_min_erase_size dev" and "a \<equiv> spi_slot_addr cfg i"
    and "m \<equiv> (length (save_image im) + unat (spi_flash_min_erase_size dev) - 1) div unat (spi_flash_min_erase_size dev)"
  shows "sector_size sz" and "round_up (length (save_image im)) (unat sz) = m * unat sz"
    and "unat (a + of_nat (m * unat sz)) = unat a + m * unat sz" and "spi_offset a = slot_off cfg i"
    and "slot_off cfg i + m * unat sz \<le> length flash" and "m * unat sz \<le> cfg_half cfg"
    and "length (save_image im) \<le> m * unat sz" and "length flash < 2 ^ 32"
proof -
  have fl: "spi_flash_ok cfg dev flash" using img by (simp add: spi_image_ok_def)
  have flen: "length flash \<le> 2 ^ 28" using fl by (simp add: spi_flash_ok_def)
  note len = spi_store_length [OF img i]
  show ss: "sector_size sz" using fl by (simp add: spi_flash_ok_def sz_def)
  obtain k where k: "unat sz = 2 ^ k" using sector_size_exp [OF ss] by blast
  show r: "round_up (length (save_image im)) (unat sz) = m * unat sz"
    by (simp add: round_up_def m_def sz_def)
  show mh: "m * unat sz \<le> cfg_half cfg" using len(2) r by (simp add: sz_def)
  show fit: "slot_off cfg i + m * unat sz \<le> length flash" using len(3) mh by simp
  show "spi_offset a = slot_off cfg i"
    unfolding a_def using len(3) flen by (intro spi_offset_slot) simp
  show "length (save_image im) \<le> m * unat sz"
    unfolding r [symmetric] using k by (intro round_up_ge) simp
  show "length flash < 2 ^ 32" using flen by simp
  have ua: "unat a = 0xB8100000 + slot_off cfg i"
  proof -
    have "unat (SPI_RBUS_BASE_ADDR + of_nat (slot_off cfg i)) = unat SPI_RBUS_BASE_ADDR + slot_off cfg i"
      using fit flen by (intro unat_add_of_nat) (simp add: SPI_RBUS_BASE_ADDR_def)
    then show ?thesis by (simp add: a_def spi_slot_addr_eq SPI_RBUS_BASE_ADDR_def)
  qed
  show "unat (a + of_nat (m * unat sz)) = unat a + m * unat sz"
    using ua fit flen by (intro unat_add_of_nat) simp
qed

lemma save_reaches_inv:
  assumes img: "spi_image_ok cfg dev flash i im" and i: "i < 2" and prog: "\<And>b. spi_prog dev 0xFF b = b"
    and s: "save_reaches cfg dev im i flash s"
  shows "save_inv (spi_flash_min_erase_size dev) (spi_slot_addr cfg i)
    ((length (save_image im) + unat (spi_flash_min_erase_size dev) - 1) div unat (spi_flash_min_erase_size dev))
    (save_image im) flash s"
proof -
  note g = save_geometry [OF img i]
  let ?sz = "spi_flash_min_erase_size dev" and ?a = "spi_slot_addr cfg i"
  let ?m = "(length (save_image im) + unat ?sz - 1) div unat ?sz"
  have "(save_step (spi_prog dev) ?sz ?a (?a + of_nat (?m * unat ?sz)) (save_image im))\<^sup>*\<^sup>* (Erasing ?a, flash) s"
    using s unfolding save_reaches_def Let_def g(2) .
  then show ?thesis
  proof (induction rule: rtranclp_induct)
    case base
    have "save_inv ?sz ?a ?m (save_image im) flash
        (Erasing (?a + of_nat (0 * unat ?sz)), erase_sector (spi_offset ?a) (0 * unat ?sz) flash)"
      unfolding save_inv_def by blast
    then show ?case by (simp add: erase_sector_def)
  next
    case (step s s')
    show ?case
      by (rule save_inv_step [OF g(1,3) _ g(8) g(7) prog step(2,3)]) (use g(4,5) in simp)
  qed
qed

text \<open>The save of the code is a run of the machine to its end.\<close>

lemma save_reaches_store:
  assumes img: "spi_image_ok cfg dev flash i im" and i: "i < 2" and prog: "\<And>b. spi_prog dev 0xFF b = b"
  shows "\<exists>x. save_reaches cfg dev im i flash (Programming x [], spi_store cfg dev im i flash)"
proof -
  note g = save_geometry [OF img i]
  let ?sz = "spi_flash_min_erase_size dev" and ?a = "spi_slot_addr cfg i"
  let ?m = "(length (save_image im) + unat ?sz - 1) div unat ?sz"
  let ?R = "save_step (spi_prog dev) ?sz ?a (?a + of_nat (?m * unat ?sz)) (save_image im)"
  let ?E = "erase_sector (slot_off cfg i) (?m * unat ?sz) flash"
  have r1: "?R\<^sup>*\<^sup>* (Erasing ?a, flash) (Programming ?a (save_image im), ?E)"
    unfolding g(4) [symmetric] by (rule save_steps_erase [OF g(1,3) _ g(8)]) (use g(4,5) in simp)
  have r2: "?R\<^sup>*\<^sup>* (Programming ?a (save_image im), ?E)
      (Programming (?a + of_nat (length (save_image im))) [], rtkspi_write8 (spi_prog dev) ?a (save_image im) ?E)"
    by (rule save_steps_program)
  have "rtkspi_write8 (spi_prog dev) ?a (save_image im) ?E = spi_store cfg dev im i flash"
  proof -
    have "take (length (save_image im)) (drop (slot_off cfg i) ?E) = replicate (length (save_image im)) 0xFF"
      using g(5,7) by (simp add: erase_sector_fit patch_def min_def)
    then show ?thesis
      unfolding spi_store_def g(2) g(4) [symmetric]
      using g(4,5,7,8) by (intro rtkspi_write8_erased prog) simp_all
  qed
  with rtranclp_trans [OF r1 r2] show ?thesis
    unfolding save_reaches_def Let_def g(2) by auto
qed

lemma save_reaches_committed:
  assumes img: "spi_image_ok cfg dev flash (1 - p) im" and prog: "\<And>b. spi_prog dev 0xFF b = b"
    and com: "spi_committed cfg flash p im0" and seq: "snd im = snd im0 + 1" "p = 1 \<or> snd im \<noteq> 0"
    and s: "save_reaches cfg dev im (1 - p) flash (ph, f)"
  shows "(spi_committed cfg f p im0 \<or> spi_committed cfg f (1 - p) im) \<and> length f = length flash"
proof -
  have cfg: "cfg_ok cfg" and fl: "spi_flash_ok cfg dev flash" and im: "image_ok cfg im"
    using img by (simp_all add: spi_image_ok_def)
  have "p < 2" using com by (simp add: spi_committed_def)
  then have p: "p < 2" "1 - p < 2" "p \<noteq> 1 - p" by arith+
  let ?sz = "spi_flash_min_erase_size dev" and ?i = "1 - p"
  let ?m = "(length (save_image im) + unat ?sz - 1) div unat ?sz"
  note g = save_geometry [OF img p(2)] and st = spi_store_length(3) [OF img p(2)]
  have lim: "cfg_size cfg - 512 < 2 ^ 32" using cfg by (auto simp: cfg_ok_def)
  have sz: "512 \<le> unat ?sz" using g(1) by (auto simp: sector_size_def)
  from save_reaches_inv [OF img p(2) prog s] consider
      (er) j where "j \<le> ?m" "f = erase_sector (slot_off cfg ?i) (j * unat ?sz) flash"
    | (pr) k where "k \<le> length (save_image im)"
        "f = patch (slot_off cfg ?i) (take k (save_image im)) (erase_sector (slot_off cfg ?i) (?m * unat ?sz) flash)"
    unfolding save_inv_def g(4) by auto
  then show ?thesis
  proof cases
    case er
    show ?thesis
    proof (cases "j = 0")
      case True
      then show ?thesis using er com by (simp add: erase_sector_def)
    next
      case False
      have jm: "j * unat ?sz \<le> ?m * unat ?sz" using er(1) by simp
      have j5: "512 \<le> j * unat ?sz" using False sz by (cases j) auto
      have f: "f = patch (slot_off cfg ?i) [] (erase_sector (slot_off cfg ?i) (j * unat ?sz) flash)"
        using er(2) by (simp add: patch_def)
      have len: "length f = length flash" using er(2) by simp
      obtain r where r: "slot_bytes cfg f ?i = replicate (j * unat ?sz) 0xFF @ r"
        using slot_bytes_split [OF st, of 0 "j * unat ?sz" "[]"] g(6) jm unfolding f by auto
      have "rd (slot_bytes cfg f ?i) 511 = 0xFF" unfolding r using j5 by (simp add: rd_append rd_nth)
      then have "spi_committed cfg f p im0"
        using slot_bytes_other [OF st, of "[]" "j * unat ?sz" p] g(6) jm p(3) unfolding f [symmetric]
        by (intro committed_transfer [OF cfg fl com len] unsigned_view) simp_all
      then show ?thesis using len by simp
    qed
  next
    case pr
    have len: "length f = length flash" using pr g(5,7) by simp
    have same: "slot_bytes cfg f p = slot_bytes cfg flash p"
      unfolding pr(2) using g(6,7) pr(1) p(3) by (intro slot_bytes_other [OF st]) simp_all
    obtain r where r: "slot_bytes cfg f ?i = take k (save_image im) @ replicate (?m * unat ?sz - k) 0xFF @ r"
      using slot_bytes_split [OF st, of k "?m * unat ?sz" "take k (save_image im)"] g(6,7) pr by auto
    note part = partial_image [OF cfg im lim pr(1) _ r]
    show ?thesis
    proof (cases "k < length (archive (fst im)) + 512")
      case True
      then have "spi_committed cfg f p im0"
        using g(7) by (intro committed_transfer [OF cfg fl com len same] part) simp_all
      then show ?thesis using len by simp
    next
      case False
      then have "spi_committed cfg f ?i im"
        using g(7) by (intro committed_new [OF cfg fl com im seq len same] part) simp_all
      then show ?thesis using len by simp
    qed
  qed
qed

section \<open>The store as its users see it\<close>

text \<open>The contents \<^verbatim>\<open>factory_read\<close> hands out under a name.\<close>

definition factory_contents :: "factory_cfg \<Rightarrow> factory \<Rightarrow> byte list \<Rightarrow> byte list option" where
  "factory_contents cfg st path =
     (case factory_read cfg path st of
        Some (rc, Some (a, n)) \<Rightarrow>
          if rc = 0 then Some (take (unat n) (drop (unat (a - FACTORY_DATA_ADDR)) (factory_mem st))) else None
      | _ \<Rightarrow> None)"

lemma factory_contents_inv:
  assumes "cfg_ok cfg" and "factory_inv cfg es st"
  shows "factory_contents cfg st = (\<lambda>path. tar_lookup path es)"
proof
  fix path
  from factory_read_inv [OF assms, of path] show "factory_contents cfg st path = tar_lookup path es"
    by (auto simp: factory_contents_def split: option.splits)
qed

lemma factory_inv_stamped:
  assumes "\<forall>e \<in> set es. entry_ok e" and "cfg_ok cfg" and "factory_inv cfg (stamp n s es) st"
  shows "factory_contents cfg st = (\<lambda>path. tar_lookup path es)"
  using factory_contents_inv [OF assms(2,3)] stamp_lookup [OF assms(1)] by simp

text \<open>RAM holds the entries \<open>es\<close>; the flash is committed to the image \<open>im\<close> in slot \<open>p\<close>, the one the
  state calls current.\<close>

definition factory_synced ::
  "factory_cfg \<Rightarrow> flash_dev \<Rightarrow> entry list \<Rightarrow> nat \<Rightarrow> entry list \<times> u32 \<Rightarrow> factory \<Rightarrow> bool" where
  "factory_synced cfg dev es p im st \<longleftrightarrow> cfg_ok cfg \<and> cfg_flash_type cfg = BOOT_NOR_SERIAL
     \<and> factory_inv cfg es st \<and> factory_root es \<and> spi_flash_ok cfg dev (factory_flash st)
     \<and> spi_committed cfg (factory_flash st) p im
     \<and> factory_current_pp st = int p \<and> factory_seq_num st = snd im"

lemma factory_synced_next:
  assumes "factory_synced cfg dev es p im st"
  shows "next_pp st = 1 - p" and "next_seqnum st = snd im + 1" and "p < 2"
proof -
  have p: "p < 2" "factory_current_pp st = int p" "factory_seq_num st = snd im"
    using assms by (simp_all add: factory_synced_def spi_committed_def)
  show "p < 2" by (rule p)
  have "p = 0 \<or> p = 1" using p(1) by auto
  then show "next_pp st = 1 - p" using p by (auto simp: next_pp_def)
  show "next_seqnum st = snd im + 1" using p by (simp add: next_seqnum_def)
qed

lemma factory_synced_image:
  assumes "factory_synced cfg dev es p im st"
    and "length (archive es) + 512 + TAR_PADDING_SZ \<le> cfg_half cfg"
  shows "spi_image_ok cfg dev (factory_flash st) (1 - p) (es, snd im + 1)"
  using assms by (auto simp: factory_synced_def spi_image_ok_def image_ok_def spi_committed_def
    factory_inv_def tar_area_def)

lemma factory_save_store:
  assumes syn: "factory_synced cfg dev es p im st" and dirty: "factory_dirty st"
    and room: "length (archive es) + 512 + TAR_PADDING_SZ \<le> cfg_half cfg"
    and prog: "\<And>b. spi_prog dev 0xFF b = b"
  shows "\<exists>st'. factory_save cfg dev st = Some (0, st') \<and> factory_inv cfg (stamped (es, snd im + 1)) st'
    \<and> factory_root (stamped (es, snd im + 1))
    \<and> factory_flash st' = spi_store cfg dev (es, snd im + 1) (1 - p) (factory_flash st)
    \<and> factory_current_pp st' = int (1 - p) \<and> factory_seq_num st' = snd im + 1"
proof -
  let ?im = "(es, snd im + 1)"
  note nx = factory_synced_next [OF syn]
  have cfg: "cfg_ok cfg" "cfg_flash_type cfg = BOOT_NOR_SERIAL" and inv: "factory_inv cfg es st"
    and root: "factory_root es"
    using syn by (simp_all add: factory_synced_def)
  have ok: "\<forall>e \<in> set es. entry_ok e" using inv by (simp add: factory_inv_def tar_area_def)
  have img: "spi_image_ok cfg dev (factory_flash st) (1 - p) ?im" by (rule factory_synced_image [OF syn room])
  obtain st' where sv: "factory_save_to_SPI cfg dev (of_nat (length (archive es))) st = Some (0, st')"
    and st': "factory_inv cfg (stamped ?im) st'"
      "factory_flash st' = spi_store cfg dev ?im (1 - p) (factory_flash st)"
      "factory_current_pp st' = int (1 - p)" "factory_seq_num st' = snd im + 1"
    using factory_save_to_SPI_eq [OF cfg(1) inv root _ prog refl] img unfolding nx(1,2) by auto
  have L: "0 < length (archive es)" using root_archive_length [OF ok root] by linarith
  have t: "factory_tarsize st = int (length (archive es))" and rdy: "factory_ready st"
    using inv by (simp_all add: factory_inv_def)
  have "factory_save cfg dev st = Some (0, st'\<lparr>factory_dirty := False\<rparr>)"
    using dirty L t rdy cfg(2) sv by (simp add: factory_save_def)
  moreover have "factory_root (stamped ?im)"
    using root ok by (cases es) (auto simp: factory_root_def entry_name_def hdr_ok_fill entry_ok_def)
  ultimately show ?thesis
    using st' by (auto simp: factory_inv_def factory_buffer_def)
qed

lemma spi_store_committed:
  assumes img: "spi_image_ok cfg dev flash (1 - p) im" and com: "spi_committed cfg flash p im0"
    and seq: "snd im = snd im0 + 1" "p = 1 \<or> snd im \<noteq> 0"
  shows "spi_committed cfg (spi_store cfg dev im (1 - p) flash) (1 - p) im"
proof -
  have cfg: "cfg_ok cfg" and fl: "spi_flash_ok cfg dev flash" and im: "image_ok cfg im"
    using img by (simp_all add: spi_image_ok_def)
  have "p < 2" using com by (simp add: spi_committed_def)
  then have pn: "p \<noteq> 1 - p" and i: "1 - p < 2" by arith+
  let ?f = "spi_store cfg dev im (1 - p) flash"
  obtain r where r: "slot_bytes cfg ?f (1 - p) = save_image im @ r"
    using spi_store_slots(1) [OF img i] by blast
  have "slot_image (stamped im) (slot_bytes cfg ?f (1 - p))"
    unfolding r by (rule save_image_slot_image)
  then show ?thesis
    using spi_store_length(1) [OF img i] spi_store_slots(2) [OF img i pn]
    by (intro committed_new [OF cfg fl com im seq])
qed

lemma factory_save_synced:
  assumes syn: "factory_synced cfg dev es p im st" and dirty: "factory_dirty st"
    and room: "length (archive es) + 512 + TAR_PADDING_SZ \<le> cfg_half cfg"
    and prog: "\<And>b. spi_prog dev 0xFF b = b" and nowrap: "p = 1 \<or> snd im + 1 \<noteq> 0"
  shows "\<exists>st' x. factory_save cfg dev st = Some (0, st')
    \<and> factory_synced cfg dev (stamped (es, snd im + 1)) (1 - p) (es, snd im + 1) st'
    \<and> save_reaches cfg dev (es, snd im + 1) (1 - p) (factory_flash st) (Programming x [], factory_flash st')"
proof -
  let ?im = "(es, snd im + 1)"
  let ?f = "spi_store cfg dev ?im (1 - p) (factory_flash st)"
  have img: "spi_image_ok cfg dev (factory_flash st) (1 - p) ?im" by (rule factory_synced_image [OF syn room])
  have i: "1 - p < 2" by simp
  have com: "spi_committed cfg ?f (1 - p) ?im"
    using syn nowrap by (intro spi_store_committed [OF img]) (simp_all add: factory_synced_def)
  obtain x where x: "save_reaches cfg dev ?im (1 - p) (factory_flash st) (Programming x [], ?f)"
    using save_reaches_store [OF img i prog] by blast
  have "spi_flash_ok cfg dev ?f"
    using syn spi_store_length(1) [OF img i] by (simp add: spi_flash_ok_def factory_synced_def)
  with factory_save_store [OF syn dirty room prog] com x show ?thesis
    using syn by (auto simp: factory_synced_def)
qed

subsection \<open>Writing and deleting\<close>

lemma rewrite_root:
  assumes "factory_root es" and "\<not> name_match f FACTORY_HEADER_FILE_NAME"
  shows "factory_root (tar_rewrite f src len add True False es)"
proof -
  obtain h b es' where es: "es = (h, b) # es'" using assms(1) by (cases es) (auto simp: factory_root_def)
  have "cstr h = FACTORY_HEADER_FILE_NAME" using assms(1) es by (simp add: factory_root_def entry_name_def)
  then have "\<not> name_match f h"
    using assms(2) factory_header_name(1) by (simp add: name_match_def)
  then show ?thesis using assms(1) es by (simp add: factory_root_def)
qed

lemma factory_write_synced:
  assumes syn: "factory_synced cfg dev es p im st" and f: "tar_name path" "\<not> name_match path FACTORY_HEADER_FILE_NAME"
    and len: "unat len \<le> length buffer" "unat len < 2 ^ 30"
    and fit: "length (archive es) + 512 + blocks (unat len) + TAR_PADDING_SZ \<le> cfg_half cfg"
  shows "\<exists>st'. factory_write cfg path buffer len st = Some (0, st') \<and> factory_dirty st'
    \<and> factory_synced cfg dev (tar_rewrite path buffer len True True False es) p im st'"
proof -
  have cfg: "cfg_ok cfg" and inv: "factory_inv cfg es st" and root: "factory_root es"
    using syn by (simp_all add: factory_synced_def)
  from factory_write_ok [OF cfg inv f(1) len fit] obtain st' where
    "factory_write cfg path buffer len st = Some (0, st')" "factory_dirty st'"
    "factory_inv cfg (tar_rewrite path buffer len True True False es) st'"
    "factory_current_pp st' = factory_current_pp st" "factory_seq_num st' = factory_seq_num st"
    "factory_flash st' = factory_flash st"
    by blast
  then show ?thesis using syn rewrite_root [OF root f(2)] by (auto simp: factory_synced_def)
qed

lemma factory_delete_synced:
  assumes syn: "factory_synced cfg dev es p im st" and f: "tar_name path" "\<not> name_match path FACTORY_HEADER_FILE_NAME"
    and fit: "length (archive es) + 512 < cfg_half cfg"
  shows "\<exists>st'. factory_delete cfg path st = Some (0, st') \<and> factory_dirty st'
    \<and> factory_synced cfg dev (tar_rewrite path [] 0 False True False es) p im st'"
proof -
  have cfg: "cfg_ok cfg" and inv: "factory_inv cfg es st" and root: "factory_root es"
    using syn by (simp_all add: factory_synced_def)
  have rdy: "factory_ready st" using inv by (simp add: factory_inv_def)
  have b0: "blocks (unat (0::u32)) = 0" by (simp add: blocks_def)
  have "unat (0::u32) \<le> length ([]::byte list)" by simp
  from factory_rewrite_inv [OF cfg inv f(1) this, of False] obtain st' where
    "factory_rewrite cfg path [] 0 False st = Some (int (length (archive (tar_rewrite path [] 0 False True False es))), st')"
    "factory_inv cfg (tar_rewrite path [] 0 False True False es) st'"
    "factory_current_pp st' = factory_current_pp st" "factory_seq_num st' = factory_seq_num st"
    "factory_flash st' = factory_flash st"
    using fit b0 by auto
  then show ?thesis using syn rewrite_root [OF root f(2)] rdy
    by (auto simp: factory_synced_def factory_delete_def factory_inv_def factory_buffer_def)
qed

subsection \<open>A first save, and a sample store\<close>

lemma committed_first:
  assumes img: "spi_image_ok cfg dev flash 0 im" and blank: "rd (slot_bytes cfg flash 1) 511 = 0xFF"
  shows "spi_committed cfg (spi_store cfg dev im 0 flash) 0 im"
proof -
  have cfg: "cfg_ok cfg" and fl: "spi_flash_ok cfg dev flash" and im: "image_ok cfg im"
    using img by (simp_all add: spi_image_ok_def)
  let ?f = "spi_store cfg dev im 0 flash"
  have flf: "spi_flash_ok cfg dev ?f"
    using fl spi_store_length(1) [OF img] by (simp add: spi_flash_ok_def)
  obtain r where r: "slot_bytes cfg ?f 0 = save_image im @ r"
    using spi_store_slots(1) [OF img] by auto
  have sl: "slot_image (stamped im) (slot_bytes cfg ?f 0)"
    unfolding r by (rule save_image_slot_image)
  have o: "slot_bytes cfg ?f 1 = slot_bytes cfg flash 1"
    using spi_store_slots(2) [OF img, of 1] by simp
  have v: "slot_view (cfg_size cfg - 512) (slot_bytes cfg ?f 1) = None
      \<and> slot_sane cfg (cfg_size cfg - 512) (slot_bytes cfg ?f 1)"
    unfolding o using blank by (rule unsigned_view)
  note c = slot_image_check [OF cfg flf _ im sl]
  have "spi_check_slot cfg ?f 1 = None"
    using v flf by (subst spi_check_slot_view [OF cfg]) (simp_all add: spi_flash_ok_def)
  then have "factory_pick (spi_check_slot cfg ?f 0) (spi_check_slot cfg ?f 1) = Some 0"
    using c(1) by (simp add: factory_pick_def)
  moreover have "slot_sane cfg (cfg_size cfg - 512) (slot_bytes cfg ?f j)" if "j < 2" for j
    using that v c(2) by (cases j) auto
  ultimately show ?thesis using im sl by (simp add: spi_committed_def)
qed

text \<open>The NAS board, \<^verbatim>\<open>rtd1195_nas_spi.h\<close>, with 4 KB sectors and a flash that was blank before one save
  of the empty archive.\<close>

definition nas_cfg :: factory_cfg where
  "nas_cfg = \<lparr>cfg_flash_type = BOOT_NOR_SERIAL, cfg_size = 0x20000, cfg_base = 0x110000\<rparr>"

definition nas_dev :: flash_dev where
  "nas_dev = \<lparr>spi_flash_min_erase_size = 0x1000, spi_prog = and, emmc_rerr = (\<lambda>_ _. False),
     emmc_werr = (\<lambda>_ _ _. None), nand_oobblock = 0, nand_erasesize = 0, nand_read = (\<lambda>_ _ _. (0, [])),
     nand_erase = (\<lambda>_ _ f. (0, f)), nand_write_ecc = (\<lambda>_ _ f. (0, f)),
     nand_oobsize = 0, sizeof_erase_info = 0, nand_malloc = (\<lambda>_. True)\<rparr>"

definition root_es :: "entry list" where
  "root_es = [(tar_build_header (replicate 512 0) FACTORY_HEADER_FILE_NAME 0 53, [])]"

definition nas_flash :: "u32 \<Rightarrow> byte list" where
  "nas_flash s = spi_store nas_cfg nas_dev (root_es, s) 0 (replicate 0x130000 0xFF)"

definition nas_state :: "u32 \<Rightarrow> factory" where
  "nas_state s = \<lparr>factory_dirty = True, factory_ready = True,
     factory_mem = archive root_es @ replicate (0x10000 - 512) 0 @ replicate 0x10000 0,
     factory_tarsize = 512, factory_current_pp = 0, factory_seq_num = s, factory_flash = nas_flash s\<rparr>"

lemma root_es_ok: "\<forall>e \<in> set root_es. entry_ok e" "factory_root root_es" "length (archive root_es) = 512"
proof -
  let ?h = "tar_build_header (replicate 512 0) FACTORY_HEADER_FILE_NAME 0 53"
  have h: "hdr_ok ?h" by (rule hdr_ok_build_header) (simp_all add: factory_header_name)
  have l: "hdr_len ?h = 0"
    using simple_strtol_build_header [of "replicate 512 0" FACTORY_HEADER_FILE_NAME 0 53]
      tar_name_length [OF factory_header_name(2)] by (simp add: hdr_len_def)
  have n: "cstr ?h = FACTORY_HEADER_FILE_NAME"
    using tar_name_length [OF factory_header_name(2)] factory_header_name(1) by (simp add: cstr_build_header)
  show "\<forall>e \<in> set root_es. entry_ok e" using h l by (simp add: root_es_def entry_ok_def blocks_def)
  show "factory_root root_es" using n by (simp add: root_es_def factory_root_def entry_name_def)
  show "length (archive root_es) = 512" using hdr_ok_length [OF h] by (simp add: root_es_def)
qed

lemma nas_cfg_ok: "cfg_ok nas_cfg" "cfg_half nas_cfg = 0x10000" "cfg_flash_type nas_cfg = BOOT_NOR_SERIAL"
  by (simp_all add: cfg_ok_def nas_cfg_def cfg_half_def)

lemma nas_prog: "spi_prog nas_dev 0xFF b = b"
proof -
  have "(0xFF::byte) = - 1" by simp
  then have "and 0xFF b = b" by (metis and.left_neutral)
  then show ?thesis by (simp add: nas_dev_def)
qed

lemma nas_synced: "factory_synced nas_cfg nas_dev root_es 0 (root_es, s) (nas_state s)"
proof -
  let ?blank = "replicate 0x130000 (0xFF::byte)"
  have fl: "spi_flash_ok nas_cfg nas_dev ?blank"
    by (simp add: spi_flash_ok_def nas_cfg_def nas_dev_def cfg_half_def sector_size_def dvd_def)
  have sl: "slot_bytes nas_cfg ?blank i = replicate 0x10000 0xFF" if "i < 2" for i
    using that by (cases i) (auto simp: slot_bytes_def slot_off_def nas_cfg_def cfg_half_def)
  have bl: "rd (slot_bytes nas_cfg ?blank i) 511 = 0xFF" if "i < 2" for i
    unfolding sl [OF that] by (simp add: rd_nth)
  have im: "image_ok nas_cfg (root_es, s)"
    using root_es_ok nas_cfg_ok by (simp add: image_ok_def TAR_PADDING_SZ_def)
  have img: "spi_image_ok nas_cfg nas_dev ?blank 0 (root_es, s)"
    using fl im nas_cfg_ok(1) bl unsigned_view by (simp add: spi_image_ok_def)
  have com: "spi_committed nas_cfg (nas_flash s) 0 (root_es, s)"
    unfolding nas_flash_def by (rule committed_first [OF img]) (simp add: bl)
  have "spi_flash_ok nas_cfg nas_dev (nas_flash s)"
    using fl spi_store_length(1) [OF img] by (simp add: spi_flash_ok_def nas_flash_def)
  moreover have "factory_inv nas_cfg root_es (nas_state s)"
    by (rule factory_inv_memI [OF nas_cfg_ok(1), where d = "0x10000 - 512" and ?b2.0 = "replicate 0x10000 0"])
      (use root_es_ok nas_cfg_ok in \<open>simp_all add: nas_state_def\<close>)
  ultimately show ?thesis
    using com root_es_ok nas_cfg_ok by (simp add: factory_synced_def nas_state_def)
qed

section \<open>Properties\<close>

lemma boot_committed:
  assumes syn: "factory_synced cfg dev es p im st" and len: "length f = length (factory_flash st)"
    and com: "spi_committed cfg f q im'"
    and boot: "factory_flash boot = f" "length (factory_mem boot) = cfg_size cfg"
  shows "\<exists>st'. factory_init cfg dev h1 h2 boot = Some (0, st')
    \<and> factory_contents cfg st' = (\<lambda>path. tar_lookup path (fst im')) \<and> factory_current_pp st' = int q"
proof -
  have cfg: "cfg_ok cfg" "cfg_flash_type cfg = BOOT_NOR_SERIAL"
    and fl: "spi_flash_ok cfg dev (factory_flash boot)"
    using syn len boot by (simp_all add: factory_synced_def spi_flash_ok_def)
  have ok: "\<forall>e \<in> set (fst im'). entry_ok e" using com by (simp add: spi_committed_def image_ok_def)
  obtain st' where "factory_init cfg dev h1 h2 boot = Some (0, st')" "factory_inv cfg (stamped im') st'"
    "factory_current_pp st' = int q"
    using factory_init_committed [OF cfg fl boot(2)] com boot(1) by blast
  then show ?thesis using factory_inv_stamped [OF ok cfg(1)] by blast
qed

lemma save_atomic:
  assumes "factory_synced cfg dev es p im st"
    and "length (archive es) + 512 + TAR_PADDING_SZ \<le> cfg_half cfg"
    and "\<And>b. spi_prog dev 0xFF b = b" and "p = 1 \<or> snd im + 1 \<noteq> 0"
    and "save_reaches cfg dev (es, snd im + 1) (1 - p) (factory_flash st) (ph, f)"
    and "factory_flash boot = f" and "length (factory_mem boot) = cfg_size cfg"
  shows "\<exists>st'. factory_init cfg dev h1 h2 boot = Some (0, st')
    \<and> (factory_contents cfg st' = (\<lambda>path. tar_lookup path (fst im))
       \<or> factory_contents cfg st' = factory_contents cfg st)"
proof -
  have com: "spi_committed cfg (factory_flash st) p im" and inv: "cfg_ok cfg" "factory_inv cfg es st"
    using assms(1) by (simp_all add: factory_synced_def)
  have "(spi_committed cfg f p im \<or> spi_committed cfg f (1 - p) (es, snd im + 1))
      \<and> length f = length (factory_flash st)"
    by (rule save_reaches_committed [OF factory_synced_image [OF assms(1,2)] assms(3) com _ _ assms(5)])
      (use assms(4) in simp_all)
  then show ?thesis
    using boot_committed [OF assms(1) _ _ assms(6,7)] factory_contents_inv [OF inv]
    by (metis fst_conv)
qed

lemma factory_save_run:
  assumes syn: "factory_synced cfg dev es p im st" and dirty: "factory_dirty st"
    and room: "length (archive es) + 512 + TAR_PADDING_SZ \<le> cfg_half cfg" and prog: "\<And>b. spi_prog dev 0xFF b = b"
  shows "\<exists>st1 x. factory_save cfg dev st = Some (0, st1)
    \<and> save_reaches cfg dev (es, snd im + 1) (1 - p) (factory_flash st) (Programming x [], factory_flash st1)"
proof -
  have "1 - p < 2" by simp
  then show ?thesis
    using factory_save_store [OF syn dirty room prog] save_reaches_store [OF factory_synced_image [OF syn room] _ prog]
    by metis
qed

text \<open>C3. A save to SPI flash is atomic under power loss. Stop the erase and program operations of a
  save at any point: the next \<^verbatim>\<open>factory_init\<close> succeeds, and \<^verbatim>\<open>factory_read\<close> then hands out, for every
  name, what was stored before the save, or for every name what was being saved. The operations are those of
  \<^verbatim>\<open>factory_save\<close>: run to the end they leave the flash it leaves.\<close>

theorem factory_save_atomic:
  assumes "factory_synced cfg dev es p im st"
    and "length (archive es) + 512 + TAR_PADDING_SZ \<le> cfg_half cfg"
    and "\<And>b. spi_prog dev 0xFF b = b" and "p = 1 \<or> snd im + 1 \<noteq> 0"
    and "save_reaches cfg dev (es, snd im + 1) (1 - p) (factory_flash st) (ph, f)"
    and "factory_flash boot = f" and "length (factory_mem boot) = cfg_size cfg"
  shows "(factory_dirty st \<longrightarrow> (\<exists>st1 x. factory_save cfg dev st = Some (0, st1)
      \<and> save_reaches cfg dev (es, snd im + 1) (1 - p) (factory_flash st) (Programming x [], factory_flash st1)))
    \<and> (\<exists>st'. factory_init cfg dev h1 h2 boot = Some (0, st')
      \<and> (factory_contents cfg st' = (\<lambda>path. tar_lookup path (fst im))
         \<or> factory_contents cfg st' = factory_contents cfg st))"
  using factory_save_run [OF assms(1) _ assms(2,3)] save_atomic [OF assms] by blast

text \<open>The flash after the first sector of slot 1 was erased.\<close>

definition nas_cut :: "byte list" where
  "nas_cut = erase_sector (spi_offset (spi_slot_addr nas_cfg 1)) 0x1000 (nas_flash 0)"

lemma nas_cut_reached:
  "save_reaches nas_cfg nas_dev (root_es, 1) 1 (nas_flash 0) (Erasing (spi_slot_addr nas_cfg 1 + 0x1000), nas_cut)"
proof -
  have "length (save_image (root_es, 1)) = 2048"
    using length_save_image [of "(root_es, 1)"] root_es_ok by (simp add: TAR_PADDING_SZ_def)
  then have "spi_slot_addr nas_cfg 1 < spi_slot_addr nas_cfg 1 + of_nat (round_up (length (save_image (root_es, 1))) 0x1000)"
    by (simp add: round_up_def spi_slot_addr_def nas_cfg_def cfg_half_def SPI_RBUS_BASE_ADDR_def)
  from save_step.erase [OF this, where prog = "spi_prog nas_dev" and sz = "0x1000" and
    a = "spi_slot_addr nas_cfg 1" and data = "save_image (root_es, 1)" and flash = "nas_flash 0"]
  show ?thesis
    by (simp add: save_reaches_def nas_cut_def nas_dev_def Let_def r_into_rtranclp)
qed

theorem factory_save_atomic_witness:
  "(\<exists>st1 x. factory_save nas_cfg nas_dev (nas_state 0) = Some (0, st1)
      \<and> save_reaches nas_cfg nas_dev (root_es, snd (root_es, 0 :: u32) + 1) (1 - 0) (factory_flash (nas_state 0))
          (Programming x [], factory_flash st1))
    \<and> (\<exists>st'. factory_init nas_cfg nas_dev [] [] ((nas_state 0)\<lparr>factory_flash := nas_cut\<rparr>) = Some (0, st')
      \<and> (factory_contents nas_cfg st' = (\<lambda>path. tar_lookup path (fst (root_es, 0 :: u32)))
         \<or> factory_contents nas_cfg st' = factory_contents nas_cfg (nas_state 0)))"
  (is "?save \<and> ?boot")
proof -
  have "(factory_dirty (nas_state 0) \<longrightarrow> ?save) \<and> ?boot"
    by (rule factory_save_atomic [OF nas_synced, where ph = "Erasing (spi_slot_addr nas_cfg 1 + 0x1000)" and f = nas_cut])
      (use root_es_ok nas_cfg_ok nas_prog nas_cut_reached in \<open>simp_all add: TAR_PADDING_SZ_def nas_state_def nas_cfg_def\<close>)
  moreover have "factory_dirty (nas_state 0)" by (simp add: nas_state_def)
  ultimately show ?thesis by blast
qed

lemma write_save_boot:
  assumes "factory_synced cfg dev es p im st" and "tar_name path" and "\<not> name_match path FACTORY_HEADER_FILE_NAME"
    and "unat len \<le> length buffer" and "unat len < 2 ^ 30"
    and "length (archive es) + 512 + blocks (unat len) + TAR_PADDING_SZ \<le> cfg_half cfg"
    and "length (archive (tar_rewrite path buffer len True True False es)) + 512 + TAR_PADDING_SZ \<le> cfg_half cfg"
    and "\<And>b. spi_prog dev 0xFF b = b" and "p = 1 \<or> snd im + 1 \<noteq> 0"
    and "\<forall>e \<in> set (tl es). \<not> rtk_signed (fst e)" and "length m = cfg_size cfg"
  shows "\<exists>st1 st2 st3. factory_write cfg path buffer len st = Some (0, st1)
    \<and> factory_save cfg dev st1 = Some (0, st2)
    \<and> factory_init cfg dev h1 h2 (boot\<lparr>factory_mem := m, factory_flash := factory_flash st2\<rparr>) = Some (0, st3)
    \<and> (\<forall>g. tar_name g \<longrightarrow> factory_contents cfg st3 g =
         (if cstr g = cstr path then Some (take (unat len) buffer)
          else if name_match path g then None else factory_contents cfg st g))"
proof -
  let ?es = "tar_rewrite path buffer len True True False es"
  have cfg: "cfg_ok cfg" and inv: "factory_inv cfg es st" using assms(1) by (simp_all add: factory_synced_def)
  have ok: "\<forall>e \<in> set es. entry_ok e" using inv by (simp add: factory_inv_def tar_area_def)
  obtain st1 where 1: "factory_write cfg path buffer len st = Some (0, st1)" "factory_dirty st1"
    "factory_synced cfg dev ?es p im st1"
    using factory_write_synced [OF assms(1-6)] by blast
  obtain st2 where 2: "factory_save cfg dev st1 = Some (0, st2)"
    "factory_synced cfg dev (stamped (?es, snd im + 1)) (1 - p) (?es, snd im + 1) st2"
    using factory_save_synced [OF 1(3,2) assms(7-9)] by blast
  let ?b = "boot\<lparr>factory_mem := m, factory_flash := factory_flash st2\<rparr>"
  have com: "spi_committed cfg (factory_flash st2) (1 - p) (?es, snd im + 1)"
    using 2(2) by (simp add: factory_synced_def)
  obtain st3 where 3: "factory_init cfg dev h1 h2 ?b = Some (0, st3)"
    "factory_contents cfg st3 = (\<lambda>path. tar_lookup path ?es)"
    using boot_committed [OF 2(2) refl com, of ?b] assms(11) by auto
  have "tar_lookup g ?es = (if cstr g = cstr path then Some (take (unat len) buffer)
      else if name_match path g then None else tar_lookup g es)" if g: "tar_name g" for g
  proof -
    have "tar_lookup path ?es = Some (take (unat len) buffer)"
      by (rule lookup_after_add [OF ok assms(2,4)])
    then have "tar_lookup g ?es = Some (take (unat len) buffer)" if "cstr g = cstr path"
      using that by (simp add: tar_lookup_def)
    moreover have "tar_lookup g ?es = None" if "cstr g \<noteq> cstr path" "name_match path g"
      using that by (intro lookup_removed [OF ok g _ assms(2)]) simp_all
    moreover have "tar_lookup g ?es = tar_lookup g es" if "\<not> name_match path g"
      using assms(10) by (intro lookup_others [OF ok g that assms(2)]) simp
    ultimately show ?thesis
      using name_match_self [of g path] by auto
  qed
  then show ?thesis using 1(1) 2(1) 3 factory_contents_inv [OF cfg inv] by auto
qed

text \<open>C4. What is written, saved and loaded again after a restart is what is read: with room in the
  archive and no entry behind the first that carries the mark of an RTK header, \<^verbatim>\<open>factory_write\<close> and
  \<^verbatim>\<open>factory_save\<close> succeed, and after any later \<^verbatim>\<open>factory_init\<close> from the
  same flash \<^verbatim>\<open>factory_read\<close> hands out, for every name, the written bytes when it is the written one, nothing when
  it only begins with the written one, and otherwise what was stored in RAM before. The step of the
  sequence number is not the one that wraps from slot 0 to slot 1.\<close>

theorem factory_write_save_boot:
  assumes "factory_synced cfg dev es p im st" and "tar_name path" and "\<not> name_match path FACTORY_HEADER_FILE_NAME"
    and "unat len \<le> length buffer" and "unat len < 2 ^ 30"
    and "length (archive es) + 512 + blocks (unat len) + TAR_PADDING_SZ \<le> cfg_half cfg"
    and "length (archive (tar_rewrite path buffer len True True False es)) + 512 + TAR_PADDING_SZ \<le> cfg_half cfg"
    and "\<And>b. spi_prog dev 0xFF b = b" and "p = 1 \<or> snd im + 1 \<noteq> 0"
    and "\<forall>e \<in> set (tl es). \<not> rtk_signed (fst e)" and "length m = cfg_size cfg"
  shows "\<exists>st1 st2 st3. factory_write cfg path buffer len st = Some (0, st1)
    \<and> factory_save cfg dev st1 = Some (0, st2)
    \<and> factory_init cfg dev h1 h2 (boot\<lparr>factory_mem := m, factory_flash := factory_flash st2\<rparr>) = Some (0, st3)
    \<and> (\<forall>g. tar_name g \<longrightarrow> factory_contents cfg st3 g =
         (if cstr g = cstr path then Some (take (unat len) buffer)
          else if name_match path g then None else factory_contents cfg st g))"
  by (rule write_save_boot [OF assms])

lemma root_path: "tar_name (bytes_of ''tmp/a'')" "\<not> name_match (bytes_of ''tmp/a'') FACTORY_HEADER_FILE_NAME"
  by (rule sample_names) (simp add: name_match_def FACTORY_HEADER_FILE_NAME_def bytes_of_def cstr_Cons)

lemma root_rewrite_length:
  assumes "tar_name path" and "\<not> name_match path FACTORY_HEADER_FILE_NAME" and "unat len \<le> length buffer"
  shows "length (archive (tar_rewrite path buffer len True True False root_es)) = 1024 + blocks (unat len)"
    and "tl root_es = []"
proof -
  let ?h = "tar_build_header (replicate 512 0) FACTORY_HEADER_FILE_NAME 0 53"
  have "cstr ?h = FACTORY_HEADER_FILE_NAME"
    using root_es_ok(2) by (simp add: factory_root_def root_es_def entry_name_def)
  then have "\<not> name_match path ?h" using assms(2) factory_header_name(1) by (simp add: name_match_def)
  moreover have "length ?h = 512" using root_es_ok(3) by (simp add: root_es_def)
  moreover have "length (tar_build_header (replicate 512 0) path len 48) = 512"
    using tar_name_length [OF assms(1)] by simp
  ultimately show "length (archive (tar_rewrite path buffer len True True False root_es)) = 1024 + blocks (unat len)"
    using assms(3) by (simp add: root_es_def del: length_tar_build_header)
  show "tl root_es = []" by (simp add: root_es_def)
qed

theorem factory_write_save_boot_witness:
  "\<exists>st1 st2 st3. factory_write nas_cfg (bytes_of ''tmp/a'') [1, 2, 3] 3 (nas_state 0) = Some (0, st1)
    \<and> factory_save nas_cfg nas_dev st1 = Some (0, st2)
    \<and> factory_init nas_cfg nas_dev [] [] ((nas_state 0)\<lparr>factory_mem := replicate 0x20000 7, factory_flash := factory_flash st2\<rparr>)
        = Some (0, st3)
    \<and> (\<forall>g. tar_name g \<longrightarrow> factory_contents nas_cfg st3 g =
         (if cstr g = cstr (bytes_of ''tmp/a'') then Some (take (unat (3::u32)) [1, 2, 3])
          else if name_match (bytes_of ''tmp/a'') g then None else factory_contents nas_cfg (nas_state 0) g))"
  by (rule factory_write_save_boot [OF nas_synced root_path])
    (use root_es_ok nas_cfg_ok nas_prog root_rewrite_length [OF root_path, of 3 "[1, 2, 3]"] in
      \<open>simp_all add: TAR_PADDING_SZ_def blocks_def nas_cfg_def\<close>)

text \<open>C22. \<^verbatim>\<open>factory_write\<close> keeps the store well-formed or leaves it alone. When the file fits, the
  archive in RAM is the old one with the file stored in it, its first entry still the directory
  \<^verbatim>\<open>tmp/factory/\<close>, and the flash and the current slot are untouched; when it does not, the result is -1 and no
  variable has changed.\<close>

theorem factory_write_invariant:
  assumes "factory_synced cfg dev es p im st" and "tar_name path" and "\<not> name_match path FACTORY_HEADER_FILE_NAME"
    and "unat len \<le> length buffer" and "unat len < 2 ^ 30"
  shows "if length (archive es) + 512 + blocks (unat len) + TAR_PADDING_SZ \<le> cfg_half cfg
    then \<exists>st'. factory_write cfg path buffer len st = Some (0, st') \<and> factory_dirty st'
      \<and> factory_synced cfg dev (tar_rewrite path buffer len True True False es) p im st'
    else factory_write cfg path buffer len st = Some (- 1, st)"
proof (cases "length (archive es) + 512 + blocks (unat len) + TAR_PADDING_SZ \<le> cfg_half cfg")
  case True
  then show ?thesis using factory_write_synced [OF assms True] by simp
next
  case False
  have cfg: "cfg_ok cfg" and inv: "factory_inv cfg es st" using assms(1) by (simp_all add: factory_synced_def)
  have "word_of_int (s32 (s32 (file_blocks len + factory_tarsize st) + 512)) + of_nat TAR_PADDING_SZ > (of_nat (cfg_half cfg) :: u32)"
    using False unfolding factory_room [OF cfg inv assms(5)] by linarith
  then show ?thesis using False inv by (simp add: factory_write_def factory_inv_def Let_def)
qed

theorem factory_write_invariant_witness:
  "if length (archive root_es) + 512 + blocks (unat (3::u32)) + TAR_PADDING_SZ \<le> cfg_half nas_cfg
    then \<exists>st'. factory_write nas_cfg (bytes_of ''tmp/a'') [1, 2, 3] 3 (nas_state 0) = Some (0, st') \<and> factory_dirty st'
      \<and> factory_synced nas_cfg nas_dev
          (tar_rewrite (bytes_of ''tmp/a'') [1, 2, 3] 3 True True False root_es) 0 (root_es, 0) st'
    else factory_write nas_cfg (bytes_of ''tmp/a'') [1, 2, 3] 3 (nas_state 0) = Some (- 1, (nas_state 0))"
  by (rule factory_write_invariant [OF nas_synced root_path]) simp_all

text \<open>C23. \<^verbatim>\<open>factory_delete\<close> keeps the store well-formed, and afterwards the file and every file whose
  name begins with its name are not found, while other names read as before.\<close>

theorem factory_delete_invariant:
  assumes "factory_synced cfg dev es p im st" and "tar_name path" and "\<not> name_match path FACTORY_HEADER_FILE_NAME"
    and "length (archive es) + 512 < cfg_half cfg" and "\<forall>e \<in> set (tl es). \<not> rtk_signed (fst e)"
  shows "\<exists>st'. factory_delete cfg path st = Some (0, st') \<and> factory_dirty st'
    \<and> factory_synced cfg dev (tar_rewrite path [] 0 False True False es) p im st'
    \<and> (\<forall>g. tar_name g \<longrightarrow> factory_contents cfg st' g =
         (if name_match path g then None else factory_contents cfg st g))"
proof -
  let ?es = "tar_rewrite path [] 0 False True False es"
  have cfg: "cfg_ok cfg" and inv: "factory_inv cfg es st" using assms(1) by (simp_all add: factory_synced_def)
  have ok: "\<forall>e \<in> set es. entry_ok e" using inv by (simp add: factory_inv_def tar_area_def)
  obtain st' where st': "factory_delete cfg path st = Some (0, st')" "factory_dirty st'"
    "factory_synced cfg dev ?es p im st'"
    using factory_delete_synced [OF assms(1-4)] by blast
  have inv': "factory_inv cfg ?es st'" using st'(3) by (simp add: factory_synced_def)
  have "tar_lookup g ?es = (if name_match path g then None else tar_lookup g es)" if g: "tar_name g" for g
  proof (cases "name_match path g")
    case True
    then show ?thesis using lookup_removed [OF ok g True assms(2), of False False] by simp
  next
    case False
    then show ?thesis using lookup_others [OF ok g False assms(2), of True] assms(5) by simp
  qed
  then show ?thesis
    using st' factory_contents_inv [OF cfg inv] factory_contents_inv [OF cfg inv'] by auto
qed

theorem factory_delete_invariant_witness:
  "\<exists>st'. factory_delete nas_cfg (bytes_of ''tmp/a'') (nas_state 0) = Some (0, st') \<and> factory_dirty st'
    \<and> factory_synced nas_cfg nas_dev (tar_rewrite (bytes_of ''tmp/a'') [] 0 False True False root_es) 0 (root_es, 0) st'
    \<and> (\<forall>g. tar_name g \<longrightarrow> factory_contents nas_cfg st' g =
         (if name_match (bytes_of ''tmp/a'') g then None else factory_contents nas_cfg (nas_state 0) g))"
  by (rule factory_delete_invariant [OF nas_synced root_path])
    (use root_es_ok nas_cfg_ok in \<open>simp_all add: root_es_def\<close>)

text \<open>C33. The sequence number wraps one way only. With slot 0 current under number 0xFFFFFFFF, a save
  to slot 1 succeeds with number 0, but the next start picks slot 0 again: everything stored since
  then is lost, and again with every following save and restart.\<close>

theorem factory_save_wrap_lost:
  assumes "factory_synced cfg dev es 0 im st" and "snd im = 0xFFFFFFFF" and "factory_dirty st"
    and "length (archive es) + 512 + TAR_PADDING_SZ \<le> cfg_half cfg"
    and "\<And>b. spi_prog dev 0xFF b = b" and "length m = cfg_size cfg"
  shows "\<exists>st1 st2. factory_save cfg dev st = Some (0, st1)
    \<and> spi_check_slot cfg (factory_flash st1) 1 = Some (0, of_nat (length (archive es)))
    \<and> factory_init cfg dev h1 h2 (boot\<lparr>factory_mem := m, factory_flash := factory_flash st1\<rparr>) = Some (0, st2)
    \<and> factory_contents cfg st2 = (\<lambda>path. tar_lookup path (fst im)) \<and> factory_current_pp st2 = 0"
proof -
  let ?im = "(es, snd im + 1)"
  let ?f = "spi_store cfg dev ?im (1 - 0) (factory_flash st)"
  have seq: "snd im + 1 = 0" using assms(2) by simp
  have img: "spi_image_ok cfg dev (factory_flash st) (1 - 0) ?im" by (rule factory_synced_image [OF assms(1,4)])
  have cfg: "cfg_ok cfg" and fl: "spi_flash_ok cfg dev (factory_flash st)"
    and com: "spi_committed cfg (factory_flash st) 0 im" using assms(1) by (simp_all add: factory_synced_def)
  have im: "image_ok cfg ?im" using img by (simp add: spi_image_ok_def)
  obtain st1 where 1: "factory_save cfg dev st = Some (0, st1)" "factory_flash st1 = ?f"
    using factory_save_store [OF assms(1,3-5)] by blast
  have len: "length ?f = length (factory_flash st)" by (rule spi_store_length(1) [OF img]) simp
  have flf: "spi_flash_ok cfg dev ?f" using fl len by (simp add: spi_flash_ok_def)
  have s1: "spi_check_slot cfg ?f 1 = Some (image_seal ?im)" using spi_check_stored [OF img] by simp
  have s0: "spi_check_slot cfg ?f 0 = Some (image_seal im)"
    using spi_check_other [OF img, of 0] slot_image_check(1) [OF cfg fl _ _, of 0 im] com
    by (simp add: spi_committed_def)
  have b0: "slot_bytes cfg ?f 0 = slot_bytes cfg (factory_flash st) 0"
    using spi_store_slots(2) [OF img, of 0] by simp
  obtain r where r: "slot_bytes cfg ?f (1 - 0) = save_image ?im @ r" using spi_store_slots(1) [OF img] by auto
  have sane1: "slot_sane cfg (cfg_size cfg - 512) (slot_bytes cfg ?f 1)"
    using slot_image_check(2) [OF cfg flf _ im, of 1] r save_image_slot_image [of ?im r] by simp
  have "factory_pick (spi_check_slot cfg ?f 0) (spi_check_slot cfg ?f 1) = Some 0"
    unfolding s0 s1 using seq by (simp add: factory_pick_def image_seal_def)
  then have com': "spi_committed cfg ?f 0 im"
    using com b0 sane1 by (auto simp: spi_committed_def less_2_cases_iff)
  let ?b = "boot\<lparr>factory_mem := m, factory_flash := factory_flash st1\<rparr>"
  obtain st2 where "factory_init cfg dev h1 h2 ?b = Some (0, st2)"
    "factory_contents cfg st2 = (\<lambda>path. tar_lookup path (fst im))" "factory_current_pp st2 = 0"
    using boot_committed [OF assms(1) len com', of ?b] 1(2) assms(6) by auto
  moreover have "spi_check_slot cfg (factory_flash st1) 1 = Some (0, of_nat (length (archive es)))"
    using s1 seq 1(2) by (simp add: image_seal_def)
  ultimately show ?thesis using 1(1) by blast
qed

theorem factory_save_wrap_lost_witness:
  "\<exists>st1 st2. factory_save nas_cfg nas_dev (nas_state 0xFFFFFFFF) = Some (0, st1)
    \<and> spi_check_slot nas_cfg (factory_flash st1) 1 = Some (0, of_nat (length (archive root_es)))
    \<and> factory_init nas_cfg nas_dev [] []
        ((nas_state 0)\<lparr>factory_mem := replicate 0x20000 7, factory_flash := factory_flash st1\<rparr>) = Some (0, st2)
    \<and> factory_contents nas_cfg st2 = (\<lambda>path. tar_lookup path (fst (root_es, 0xFFFFFFFF :: u32)))
    \<and> factory_current_pp st2 = 0"
  by (rule factory_save_wrap_lost [OF nas_synced])
    (use root_es_ok nas_cfg_ok nas_prog in \<open>simp_all add: TAR_PADDING_SZ_def nas_state_def nas_cfg_def\<close>)

lemma factory_save_refused:
  assumes syn: "factory_synced cfg dev es p im st" and dirty: "factory_dirty st"
    and full: "cfg_half cfg < length (archive es) + 512 + TAR_PADDING_SZ" and tail: "length (archive es) + 512 \<le> cfg_half cfg"
  shows "\<exists>st'. factory_save cfg dev st = Some (1, st') \<and> factory_save cfg dev st' = Some (0, st')
    \<and> factory_flash st' = factory_flash st"
proof -
  have cfg: "cfg_ok cfg" "cfg_flash_type cfg = BOOT_NOR_SERIAL" and inv: "factory_inv cfg es st"
    and root: "factory_root es" using syn by (simp_all add: factory_synced_def)
  obtain d b2 where mem: "factory_mem st = archive es @ replicate d 0 @ b2"
    and dl: "length (archive es) + d = cfg_half cfg" and ok: "\<forall>e \<in> set es. entry_ok e"
    by (rule factory_inv_mem [OF cfg(1) inv])
  let ?n = "of_nat (length (archive es)) :: u32"
  let ?L = "length (archive es)"
  have half: "cfg_half cfg \<le> 0x400000" using cfg by (simp add: cfg_ok_def)
  have un: "unat ?n = ?L" using tail half by (intro unat_of_nat_u32) simp
  have d5: "512 \<le> d" using tail dl by simp
  from seal_archive_eq [OF mem ok root un d5] obtain mem1 where seal: "seal_archive ?n st = Some mem1" by blast
  have "?n + 512 + of_nat TAR_PADDING_SZ > of_nat (cfg_half cfg)"
  proof -
    have "?n + 512 + of_nat TAR_PADDING_SZ = of_nat (?L + 512 + TAR_PADDING_SZ)" by simp
    moreover have "?L + 512 + TAR_PADDING_SZ < 2 ^ 32" using tail half by (simp add: TAR_PADDING_SZ_def)
    ultimately have "unat (?n + 512 + of_nat TAR_PADDING_SZ) = ?L + 512 + TAR_PADDING_SZ"
      by (simp only: unat_of_nat_u32)
    then show ?thesis using full cfg_ok_unat [OF cfg(1)] by (simp add: word_less_nat_alt)
  qed
  then have sv: "factory_save_to_SPI cfg dev ?n st = Some (1, st\<lparr>factory_mem := mem1\<rparr>)"
    using seal by (simp add: factory_save_to_SPI_def)
  have L: "0 < ?L" using root_archive_length [OF ok root] by linarith
  have t: "factory_tarsize st = int ?L" and rdy: "factory_ready st" using inv by (simp_all add: factory_inv_def)
  let ?st = "st\<lparr>factory_mem := mem1, factory_dirty := False\<rparr>"
  have "factory_save cfg dev st = Some (1, ?st)"
    using sv L t rdy dirty cfg(2) by (simp add: factory_save_def)
  moreover have "factory_save cfg dev ?st = Some (0, ?st)"
    using rdy by (simp add: factory_save_def)
  ultimately show ?thesis by auto
qed

text \<open>C34. A write that \<^verbatim>\<open>factory_write\<close> accepts may never be saved. Its test leaves out the copy of the
  header that a save puts behind the archive: when the stored file takes the archive within 1536
  bytes of the slot size, the save is refused with 1 and the flash stays as it was, and because the dirty flag is
  cleared all the same, saving again reports success without writing anything.\<close>

theorem factory_save_refused_then_ok:
  assumes "factory_synced cfg dev es p im st" and "tar_name path" and "\<not> name_match path FACTORY_HEADER_FILE_NAME"
    and "unat len \<le> length buffer" and "unat len < 2 ^ 30"
    and "length (archive es) + 512 + blocks (unat len) + TAR_PADDING_SZ \<le> cfg_half cfg"
    and "cfg_half cfg < length (archive (tar_rewrite path buffer len True True False es)) + 512 + TAR_PADDING_SZ"
    and "length (archive (tar_rewrite path buffer len True True False es)) + 512 \<le> cfg_half cfg"
  shows "\<exists>st1 st2. factory_write cfg path buffer len st = Some (0, st1)
    \<and> factory_save cfg dev st1 = Some (1, st2) \<and> factory_save cfg dev st2 = Some (0, st2)
    \<and> factory_flash st2 = factory_flash st"
proof -
  let ?es = "tar_rewrite path buffer len True True False es"
  have cfg: "cfg_ok cfg" and inv: "factory_inv cfg es st" using assms(1) by (simp_all add: factory_synced_def)
  obtain st1 where 1: "factory_write cfg path buffer len st = Some (0, st1)" "factory_dirty st1"
    "factory_synced cfg dev ?es p im st1"
    using factory_write_synced [OF assms(1-6)] by blast
  have "factory_flash st1 = factory_flash st"
    using factory_write_ok [OF cfg inv assms(2,4-6)] 1(1) by auto
  with factory_save_refused [OF 1(3,2) assms(7,8)] 1(1) show ?thesis by auto
qed

theorem factory_save_refused_then_ok_witness:
  "\<exists>st1 st2. factory_write nas_cfg (bytes_of ''tmp/a'') (replicate 63488 7) 63488 (nas_state 0) = Some (0, st1)
    \<and> factory_save nas_cfg nas_dev st1 = Some (1, st2) \<and> factory_save nas_cfg nas_dev st2 = Some (0, st2)
    \<and> factory_flash st2 = factory_flash (nas_state 0)"
  by (rule factory_save_refused_then_ok [OF nas_synced root_path])
    (use root_es_ok nas_cfg_ok root_rewrite_length [OF root_path, of 63488 "replicate 63488 7"] in
      \<open>simp_all add: TAR_PADDING_SZ_def blocks_def\<close>)

text \<open>C35. On eMMC one read error hides the other slot: when the header of slot 0 cannot be read, the
  rest of the loop rejects slot 1 too, whatever it holds. \<^verbatim>\<open>factory_init\<close> of a freshly
  started loader reports success with an empty archive, and the next save overwrites slot 1.\<close>

theorem factory_emmc_read_error:
  assumes "cfg_flash_type cfg = BOOT_EMMC" and "cfg_ok cfg" and "length (factory_mem st) = cfg_size cfg"
    and "emmc_rerr dev (cfg_base cfg div 512) 1" and "factory_current_pp st = 0" and "factory_seq_num st = 0"
  shows "\<exists>st'. factory_init cfg dev h1 h2 st = Some (0, st') \<and> factory_tarsize st' = 512
    \<and> factory_mem st' = factory_empty (factory_seq_num st)
         (replicate (cfg_half cfg) 0 @ drop (cfg_half cfg) (factory_mem st))
    \<and> next_pp st' = 1 \<and> next_seqnum st' = 1"
proof -
  let ?fl = "factory_flash st"
  have r: "fst (rtk_eMMC_read (emmc_rerr dev) ?fl (cfg_base cfg div 512) 512 b) = 0" for b
  proof -
    have t: "total_blk_cont 512 = 1" by (simp add: total_blk_cont_def)
    show ?thesis
      unfolding rtk_eMMC_read_def t using assms(4)
      by (subst rtk_eMMC_read_loop.simps) (simp add: EMMC_MAX_XFER_BLKCNT_def Let_def)
  qed
  have s0: "fst (emmc_check_slot cfg dev ?fl 0 ec) = None \<and> ec_failed (snd (emmc_check_slot cfg dev ?fl 0 ec))" for ec
    using r [of "ec_start ec"]
    by (auto simp: emmc_check_slot_def emmc_slot_start_def EMMC_BLOCK_SIZE_def Let_def split: prod.splits)
  have s1: "ec_failed ec \<Longrightarrow> fst (emmc_check_slot cfg dev ?fl 1 ec) = None" for ec
    by (auto simp: emmc_check_slot_def Let_def split: prod.splits)
  let ?ec = "\<lparr>ec_failed = False, ec_start = h1, ec_buf = h2\<rparr>"
  obtain ec0 where e0: "emmc_check_slot cfg dev ?fl 0 ?ec = (None, ec0)" "ec_failed ec0"
    using s0 [of ?ec] by (cases "emmc_check_slot cfg dev ?fl 0 ?ec") auto
  obtain ec1 where e1: "emmc_check_slot cfg dev ?fl 1 ec0 = (None, ec1)"
    using s1 [OF e0(2)] by (cases "emmc_check_slot cfg dev ?fl 1 ec0") auto
  have "factory_check_sanity_from_eMMC cfg dev h1 h2 (st\<lparr>factory_ready := True\<rparr>) =
      Some (512, st\<lparr>factory_ready := True,
        factory_mem := factory_empty (factory_seq_num st) (replicate (cfg_half cfg) 0 @ drop (cfg_half cfg) (factory_mem st))\<rparr>)"
    using clear_buffer_eq [OF assms(2,3)] e0 e1 by (simp add: factory_check_sanity_from_eMMC_def factory_pick_def)
  then show ?thesis
    using assms(1,5,6) by (simp add: factory_init_def next_pp_def next_seqnum_def)
qed


theorem factory_emmc_read_error_witness:
  "\<exists>st'. factory_init (nas_cfg\<lparr>cfg_flash_type := BOOT_EMMC\<rparr>) (nas_dev\<lparr>emmc_rerr := \<lambda>a n. a = 0x110000 div 512\<rparr>) (replicate 512 0) (replicate 1024 0)
      ((nas_state 0)\<lparr>factory_mem := replicate 0x20000 0\<rparr>) = Some (0, st')
    \<and> factory_tarsize st' = 512
    \<and> factory_mem st' = factory_empty (factory_seq_num ((nas_state 0)\<lparr>factory_mem := replicate 0x20000 0\<rparr>))
         (replicate (cfg_half (nas_cfg\<lparr>cfg_flash_type := BOOT_EMMC\<rparr>)) 0 @
          drop (cfg_half (nas_cfg\<lparr>cfg_flash_type := BOOT_EMMC\<rparr>))
            (factory_mem ((nas_state 0)\<lparr>factory_mem := replicate 0x20000 0\<rparr>)))
    \<and> next_pp st' = 1 \<and> next_seqnum st' = 1"
  by (rule factory_emmc_read_error) (simp_all add: nas_cfg_def cfg_ok_def cfg_half_def nas_state_def)

end
