(* ===== verification/Crc32.thy ===== *)
theory Crc32
  imports Boot_Prelude
begin

text \<open>
  The checksum of environments and images, \<^verbatim>\<open>u-boot32/lib/crc32.c\<close>: the routine that works through
  the buffer a word at a time with a table of 256 entries, its equivalence with the shift
  register that defines the code, and what the checksum detects. The address of the buffer is an
  argument, since the first loop of the routine depends on its alignment.
\<close>

section \<open>The table-driven routine\<close>

definition crc_table :: "u32 list" where
  "crc_table = [
    0x00000000, 0x77073096, 0xee0e612c, 0x990951ba, 0x076dc419, 0x706af48f, 0xe963a535, 0x9e6495a3,
    0x0edb8832, 0x79dcb8a4, 0xe0d5e91e, 0x97d2d988, 0x09b64c2b, 0x7eb17cbd, 0xe7b82d07, 0x90bf1d91,
    0x1db71064, 0x6ab020f2, 0xf3b97148, 0x84be41de, 0x1adad47d, 0x6ddde4eb, 0xf4d4b551, 0x83d385c7,
    0x136c9856, 0x646ba8c0, 0xfd62f97a, 0x8a65c9ec, 0x14015c4f, 0x63066cd9, 0xfa0f3d63, 0x8d080df5,
    0x3b6e20c8, 0x4c69105e, 0xd56041e4, 0xa2677172, 0x3c03e4d1, 0x4b04d447, 0xd20d85fd, 0xa50ab56b,
    0x35b5a8fa, 0x42b2986c, 0xdbbbc9d6, 0xacbcf940, 0x32d86ce3, 0x45df5c75, 0xdcd60dcf, 0xabd13d59,
    0x26d930ac, 0x51de003a, 0xc8d75180, 0xbfd06116, 0x21b4f4b5, 0x56b3c423, 0xcfba9599, 0xb8bda50f,
    0x2802b89e, 0x5f058808, 0xc60cd9b2, 0xb10be924, 0x2f6f7c87, 0x58684c11, 0xc1611dab, 0xb6662d3d,
    0x76dc4190, 0x01db7106, 0x98d220bc, 0xefd5102a, 0x71b18589, 0x06b6b51f, 0x9fbfe4a5, 0xe8b8d433,
    0x7807c9a2, 0x0f00f934, 0x9609a88e, 0xe10e9818, 0x7f6a0dbb, 0x086d3d2d, 0x91646c97, 0xe6635c01,
    0x6b6b51f4, 0x1c6c6162, 0x856530d8, 0xf262004e, 0x6c0695ed, 0x1b01a57b, 0x8208f4c1, 0xf50fc457,
    0x65b0d9c6, 0x12b7e950, 0x8bbeb8ea, 0xfcb9887c, 0x62dd1ddf, 0x15da2d49, 0x8cd37cf3, 0xfbd44c65,
    0x4db26158, 0x3ab551ce, 0xa3bc0074, 0xd4bb30e2, 0x4adfa541, 0x3dd895d7, 0xa4d1c46d, 0xd3d6f4fb,
    0x4369e96a, 0x346ed9fc, 0xad678846, 0xda60b8d0, 0x44042d73, 0x33031de5, 0xaa0a4c5f, 0xdd0d7cc9,
    0x5005713c, 0x270241aa, 0xbe0b1010, 0xc90c2086, 0x5768b525, 0x206f85b3, 0xb966d409, 0xce61e49f,
    0x5edef90e, 0x29d9c998, 0xb0d09822, 0xc7d7a8b4, 0x59b33d17, 0x2eb40d81, 0xb7bd5c3b, 0xc0ba6cad,
    0xedb88320, 0x9abfb3b6, 0x03b6e20c, 0x74b1d29a, 0xead54739, 0x9dd277af, 0x04db2615, 0x73dc1683,
    0xe3630b12, 0x94643b84, 0x0d6d6a3e, 0x7a6a5aa8, 0xe40ecf0b, 0x9309ff9d, 0x0a00ae27, 0x7d079eb1,
    0xf00f9344, 0x8708a3d2, 0x1e01f268, 0x6906c2fe, 0xf762575d, 0x806567cb, 0x196c3671, 0x6e6b06e7,
    0xfed41b76, 0x89d32be0, 0x10da7a5a, 0x67dd4acc, 0xf9b9df6f, 0x8ebeeff9, 0x17b7be43, 0x60b08ed5,
    0xd6d6a3e8, 0xa1d1937e, 0x38d8c2c4, 0x4fdff252, 0xd1bb67f1, 0xa6bc5767, 0x3fb506dd, 0x48b2364b,
    0xd80d2bda, 0xaf0a1b4c, 0x36034af6, 0x41047a60, 0xdf60efc3, 0xa867df55, 0x316e8eef, 0x4669be79,
    0xcb61b38c, 0xbc66831a, 0x256fd2a0, 0x5268e236, 0xcc0c7795, 0xbb0b4703, 0x220216b9, 0x5505262f,
    0xc5ba3bbe, 0xb2bd0b28, 0x2bb45a92, 0x5cb36a04, 0xc2d7ffa7, 0xb5d0cf31, 0x2cd99e8b, 0x5bdeae1d,
    0x9b64c2b0, 0xec63f226, 0x756aa39c, 0x026d930a, 0x9c0906a9, 0xeb0e363f, 0x72076785, 0x05005713,
    0x95bf4a82, 0xe2b87a14, 0x7bb12bae, 0x0cb61b38, 0x92d28e9b, 0xe5d5be0d, 0x7cdcefb7, 0x0bdbdf21,
    0x86d3d2d4, 0xf1d4e242, 0x68ddb3f8, 0x1fda836e, 0x81be16cd, 0xf6b9265b, 0x6fb077e1, 0x18b74777,
    0x88085ae6, 0xff0f6a70, 0x66063bca, 0x11010b5c, 0x8f659eff, 0xf862ae69, 0x616bffd3, 0x166ccf45,
    0xa00ae278, 0xd70dd2ee, 0x4e048354, 0x3903b3c2, 0xa7672661, 0xd06016f7, 0x4969474d, 0x3e6e77db,
    0xaed16a4a, 0xd9d65adc, 0x40df0b66, 0x37d83bf0, 0xa9bcae53, 0xdebb9ec5, 0x47b2cf7f, 0x30b5ffe9,
    0xbdbdf21c, 0xcabac28a, 0x53b39330, 0x24b4a3a6, 0xbad03605, 0xcdd70693, 0x54de5729, 0x23d967bf,
    0xb3667a2e, 0xc4614ab8, 0x5d681b02, 0x2a6f2b94, 0xb40bbe37, 0xc30c8ea1, 0x5a05df1b, 0x2d02ef8d]"

text \<open>The macro \<^verbatim>\<open>DO_CRC\<close> on a little-endian machine.\<close>

definition DO_CRC :: "u32 \<Rightarrow> u32 \<Rightarrow> u32" where
  "DO_CRC crc x = crc_table ! unat ((crc XOR x) AND 255) XOR drop_bit 8 crc"

text \<open>The three loops. \<open>a\<close> is the address \<^verbatim>\<open>p\<close> points to; a loop returns what it leaves of the buffer.\<close>

function crc_align :: "u32 \<Rightarrow> byte list \<Rightarrow> u32 \<Rightarrow> nat \<Rightarrow> u32 \<times> byte list \<times> nat" where
  "crc_align a p crc len =
     (let crc = DO_CRC crc (ucast (rd p 0)); p = tl p; len = len - 1 in
      if len \<noteq> 0 \<and> (a + 1) AND 3 \<noteq> 0 then crc_align (a + 1) p crc len else (crc, p, len))"
  by auto
termination by (relation "measure (\<lambda>(a, p, crc, len). len)") auto

declare crc_align.simps [simp del]

fun crc_words :: "byte list \<Rightarrow> u32 \<Rightarrow> nat \<Rightarrow> u32 \<times> byte list" where
  "crc_words b crc 0 = (crc, b)"
| "crc_words b crc (Suc len) =
     (let crc = crc XOR rd32 b 0;
          crc = DO_CRC crc 0; crc = DO_CRC crc 0; crc = DO_CRC crc 0; crc = DO_CRC crc 0
      in crc_words (drop 4 b) crc len)"

fun crc_rest :: "byte list \<Rightarrow> u32 \<Rightarrow> nat \<Rightarrow> u32" where
  "crc_rest p crc 0 = crc"
| "crc_rest p crc (Suc len) = crc_rest (tl p) (DO_CRC crc (ucast (rd p 0))) len"

definition crc32_no_comp :: "u32 \<Rightarrow> u32 \<Rightarrow> byte list \<Rightarrow> nat \<Rightarrow> u32" where
  "crc32_no_comp a crc buf len =
     (let (crc, b, len) = (if a AND 3 \<noteq> 0 \<and> len \<noteq> 0 then crc_align a buf crc len else (crc, buf, len));
          rem_len = len mod 4;
          (crc, b) = crc_words b crc (len div 4)
      in crc_rest b crc rem_len)"

definition crc32 :: "u32 \<Rightarrow> u32 \<Rightarrow> byte list \<Rightarrow> nat \<Rightarrow> u32" where
  "crc32 a crc p len = crc32_no_comp a (crc XOR 0xffffffff) p len XOR 0xffffffff"

section \<open>The shift register\<close>

text \<open>One step of \<^verbatim>\<open>make_crc_table\<close>, the reference the table was made with.\<close>

definition crc_shift :: "u32 \<Rightarrow> u32" where
  "crc_shift c = (if c AND 1 \<noteq> 0 then 0xedb88320 XOR drop_bit 1 c else drop_bit 1 c)"

definition crc_shift8 :: "u32 \<Rightarrow> u32" where
  "crc_shift8 c = crc_shift (crc_shift (crc_shift (crc_shift
     (crc_shift (crc_shift (crc_shift (crc_shift c)))))))"

definition crc_byte :: "u32 \<Rightarrow> byte \<Rightarrow> u32" where
  "crc_byte c x = crc_shift8 (c XOR ucast x)"

definition crc_spec :: "u32 \<Rightarrow> byte list \<Rightarrow> u32" where
  "crc_spec c xs = foldl crc_byte (c XOR 0xffffffff) xs XOR 0xffffffff"

text \<open>The polynomial of \<^verbatim>\<open>make_crc_table\<close>.\<close>

definition crc_terms :: "nat list" where
  "crc_terms = [0, 1, 2, 4, 5, 7, 8, 10, 11, 12, 16, 22, 23, 26]"

lemma crc_poly: "foldl (\<lambda>q n. q OR push_bit (31 - n) 1) 0 crc_terms = (0xedb88320 :: u32)"
  by (simp add: crc_terms_def)

lemma byte_values: "map of_nat [0..<256] = ([0, 1, 2, 3, 4, 5, 6, 7, 8, 9, 10, 11, 12, 13, 14, 15, 16, 17, 18, 19, 20, 21, 22, 23, 24,
     25, 26, 27, 28, 29, 30, 31, 32, 33, 34, 35, 36, 37, 38, 39, 40, 41, 42, 43, 44, 45, 46,
     47, 48, 49, 50, 51, 52, 53, 54, 55, 56, 57, 58, 59, 60, 61, 62, 63, 64, 65, 66, 67, 68,
     69, 70, 71, 72, 73, 74, 75, 76, 77, 78, 79, 80, 81, 82, 83, 84, 85, 86, 87, 88, 89, 90,
     91, 92, 93, 94, 95, 96, 97, 98, 99, 100, 101, 102, 103, 104, 105, 106, 107, 108, 109, 110,
     111, 112, 113, 114, 115, 116, 117, 118, 119, 120, 121, 122, 123, 124, 125, 126, 127, 128,
     129, 130, 131, 132, 133, 134, 135, 136, 137, 138, 139, 140, 141, 142, 143, 144, 145, 146,
     147, 148, 149, 150, 151, 152, 153, 154, 155, 156, 157, 158, 159, 160, 161, 162, 163, 164,
     165, 166, 167, 168, 169, 170, 171, 172, 173, 174, 175, 176, 177, 178, 179, 180, 181, 182,
     183, 184, 185, 186, 187, 188, 189, 190, 191, 192, 193, 194, 195, 196, 197, 198, 199, 200,
     201, 202, 203, 204, 205, 206, 207, 208, 209, 210, 211, 212, 213, 214, 215, 216, 217, 218,
     219, 220, 221, 222, 223, 224, 225, 226, 227, 228, 229, 230, 231, 232, 233, 234, 235, 236,
     237, 238, 239, 240, 241, 242, 243, 244, 245, 246, 247, 248, 249, 250, 251, 252, 253, 254,
     255] :: u32 list)"
proof -
  have "[0..<256] = 0 # 1 # [2..<256]" by (simp add: upt_conv_Cons numeral_2_eq_2)
  then show ?thesis by simp
qed

lemma crc_table_shift8: "crc_table = map crc_shift8 [0, 1, 2, 3, 4, 5, 6, 7, 8, 9, 10, 11, 12, 13, 14, 15, 16, 17, 18, 19, 20, 21, 22, 23, 24,
     25, 26, 27, 28, 29, 30, 31, 32, 33, 34, 35, 36, 37, 38, 39, 40, 41, 42, 43, 44, 45, 46,
     47, 48, 49, 50, 51, 52, 53, 54, 55, 56, 57, 58, 59, 60, 61, 62, 63, 64, 65, 66, 67, 68,
     69, 70, 71, 72, 73, 74, 75, 76, 77, 78, 79, 80, 81, 82, 83, 84, 85, 86, 87, 88, 89, 90,
     91, 92, 93, 94, 95, 96, 97, 98, 99, 100, 101, 102, 103, 104, 105, 106, 107, 108, 109, 110,
     111, 112, 113, 114, 115, 116, 117, 118, 119, 120, 121, 122, 123, 124, 125, 126, 127, 128,
     129, 130, 131, 132, 133, 134, 135, 136, 137, 138, 139, 140, 141, 142, 143, 144, 145, 146,
     147, 148, 149, 150, 151, 152, 153, 154, 155, 156, 157, 158, 159, 160, 161, 162, 163, 164,
     165, 166, 167, 168, 169, 170, 171, 172, 173, 174, 175, 176, 177, 178, 179, 180, 181, 182,
     183, 184, 185, 186, 187, 188, 189, 190, 191, 192, 193, 194, 195, 196, 197, 198, 199, 200,
     201, 202, 203, 204, 205, 206, 207, 208, 209, 210, 211, 212, 213, 214, 215, 216, 217, 218,
     219, 220, 221, 222, 223, 224, 225, 226, 227, 228, 229, 230, 231, 232, 233, 234, 235, 236,
     237, 238, 239, 240, 241, 242, 243, 244, 245, 246, 247, 248, 249, 250, 251, 252, 253, 254,
     255]"
  by (simp add: crc_table_def crc_shift8_def crc_shift_def)

lemma crc_table_nth:
  assumes "n < 256"
  shows "crc_table ! n = crc_shift8 (of_nat n)"
proof -
  have "crc_table = map crc_shift8 (map of_nat [0..<256])"
    unfolding byte_values by (rule crc_table_shift8)
  from arg_cong [OF this, of "\<lambda>t. t ! n"] show ?thesis using assms by simp
qed

section \<open>Equivalence\<close>

text \<open>The shift register is linear, so the byte below and the bits above can be shifted apart.\<close>

lemma crc_shift_bit: "crc_shift c = (if bit c 0 then 0xedb88320 XOR drop_bit 1 c else drop_bit 1 c)"
  by (simp add: crc_shift_def and_one_eq bit_0 odd_iff_mod_2_eq_one)

lemma crc_shift_xor: "crc_shift (a XOR b) = crc_shift a XOR crc_shift b"
  by (auto simp: crc_shift_bit bit_xor_iff drop_bit_xor xor.assoc xor.left_commute)

lemma crc_shift8_xor: "crc_shift8 (a XOR b) = crc_shift8 a XOR crc_shift8 b"
  by (simp add: crc_shift8_def crc_shift_xor)

lemma crc_shift8_high:
  assumes "\<And>i. i < 8 \<Longrightarrow> \<not> bit h i"
  shows "crc_shift8 h = drop_bit 8 h"
proof -
  have step: "crc_shift (drop_bit k h) = drop_bit (Suc k) h" if "k < 8" for k
    using assms [OF that] by (simp add: crc_shift_bit bit_drop_bit_eq drop_bit_drop_bit del: drop_bit_Suc)
  show ?thesis
    using step [of 0] step [of 1] step [of 2] step [of 3] step [of 4] step [of 5] step [of 6] step [of 7]
    by (simp add: crc_shift8_def eval_nat_numeral del: drop_bit_Suc)
qed

lemma xor_and_not: "(c AND m) XOR (c AND NOT m) = (c :: u32)"
  by (rule bit_word_eqI) (auto simp: bit_xor_iff bit_and_iff bit_not_iff)

lemma crc_shift8_split: "crc_shift8 c = crc_shift8 (c AND 255) XOR drop_bit 8 c"
proof -
  define m :: u32 where "m = mask 8"
  have m: "255 = m" by (simp add: m_def mask_eq_exp_minus_1)
  have b: "bit m i \<longleftrightarrow> i < 8" if "i < 32" for i using that by (simp add: m_def bit_mask_iff)
  have "crc_shift8 (c AND NOT m) = drop_bit 8 (c AND NOT m)"
    by (rule crc_shift8_high) (simp add: bit_and_iff bit_not_iff b)
  also have "\<dots> = drop_bit 8 c"
    by (rule bit_word_eqI) (auto simp: bit_drop_bit_eq bit_and_iff bit_not_iff b dest: bit_imp_le_length)
  finally show ?thesis
    unfolding m using xor_and_not [of c m] crc_shift8_xor [of "c AND m" "c AND NOT m"] by simp
qed

lemma unat_and_255: "unat (c AND 255 :: u32) < 256"
proof -
  have "c AND 255 \<le> 255" by (rule word_and_le1)
  then show ?thesis by (simp add: word_le_nat_alt)
qed

lemma DO_CRC_byte: "DO_CRC c (ucast x) = crc_byte c x"
proof -
  let ?y = "c XOR ucast x"
  have "crc_table ! unat (?y AND 255) = crc_shift8 (?y AND 255)"
    using crc_table_nth [OF unat_and_255] by simp
  moreover have "drop_bit 8 ?y = drop_bit 8 c"
    by (rule bit_word_eqI) (auto simp: bit_drop_bit_eq bit_xor_iff bit_ucast_iff dest: bit_imp_le_length)
  ultimately show ?thesis
    unfolding DO_CRC_def crc_byte_def crc_shift8_split [of ?y] by simp
qed

text \<open>A word is folded in by xoring it into the register first.\<close>

lemma DO_CRC_xor: "DO_CRC (c XOR w) 0 = DO_CRC c w XOR drop_bit 8 w"
  by (simp add: DO_CRC_def drop_bit_xor xor.assoc)

lemma DO_CRC_low: "DO_CRC c w = DO_CRC c (ucast (ucast w :: byte))"
proof -
  have "(c XOR w) AND 255 = (c XOR ucast (ucast w :: byte)) AND 255"
  proof -
    define m :: u32 where "m = mask 8"
    have m: "255 = m" by (simp add: m_def mask_eq_exp_minus_1)
    have b: "bit m i \<longleftrightarrow> i < 8" if "i < 32" for i using that by (simp add: m_def bit_mask_iff)
    show ?thesis
      unfolding m by (rule bit_word_eqI) (auto simp: bit_and_iff bit_xor_iff bit_ucast_iff b)
  qed
  then show ?thesis by (simp add: DO_CRC_def)
qed

lemma word_bytes:
  "(ucast (rd32 b 0) :: byte) = rd b 0" "(ucast (drop_bit 8 (rd32 b 0)) :: byte) = rd b 1"
  "(ucast (drop_bit 16 (rd32 b 0)) :: byte) = rd b 2" "(ucast (drop_bit 24 (rd32 b 0)) :: byte) = rd b 3"
  by (rule bit_word_eqI; auto simp: rd32_def bit_ucast_iff bit_or_iff bit_push_bit_iff bit_drop_bit_eq numeral_2_eq_2 numeral_3_eq_3 dest: bit_imp_le_length)+

lemma DO_CRC_word:
  "DO_CRC (DO_CRC (DO_CRC (DO_CRC (c XOR rd32 b 0) 0) 0) 0) 0 =
     crc_byte (crc_byte (crc_byte (crc_byte c (rd b 0)) (rd b 1)) (rd b 2)) (rd b 3)"
proof -
  let ?w = "rd32 b 0"
  have z: "drop_bit 32 ?w = 0"
    by (rule bit_word_eqI) (auto simp: bit_drop_bit_eq dest: bit_imp_le_length)
  have 1: "DO_CRC (c XOR ?w) 0 = crc_byte c (rd b 0) XOR drop_bit 8 ?w" for c
    using DO_CRC_xor [of c ?w] DO_CRC_low [of c ?w] by (simp add: DO_CRC_byte word_bytes)
  have 2: "DO_CRC (c XOR drop_bit 8 ?w) 0 = crc_byte c (rd b 1) XOR drop_bit 16 ?w" for c
    using DO_CRC_xor [of c "drop_bit 8 ?w"] DO_CRC_low [of c "drop_bit 8 ?w"]
    by (simp add: DO_CRC_byte word_bytes)
  have 3: "DO_CRC (c XOR drop_bit 16 ?w) 0 = crc_byte c (rd b 2) XOR drop_bit 24 ?w" for c
    using DO_CRC_xor [of c "drop_bit 16 ?w"] DO_CRC_low [of c "drop_bit 16 ?w"]
    by (simp add: DO_CRC_byte word_bytes)
  have 4: "DO_CRC (c XOR drop_bit 24 ?w) 0 = crc_byte c (rd b 3)" for c
    using DO_CRC_xor [of c "drop_bit 24 ?w"] DO_CRC_low [of c "drop_bit 24 ?w"] z
    by (simp add: DO_CRC_byte word_bytes)
  show ?thesis unfolding 1 2 3 4 ..
qed


lemma crc_rest_eq: "n \<le> length p \<Longrightarrow> crc_rest p crc n = foldl crc_byte crc (take n p)"
proof (induction n arbitrary: p crc)
  case (Suc n)
  then show ?case by (cases p) (simp_all add: DO_CRC_byte)
qed simp

lemma crc_words_eq:
  "4 * n \<le> length b \<Longrightarrow> crc_words b crc n = (foldl crc_byte crc (take (4 * n) b), drop (4 * n) b)"
proof (induction n arbitrary: b crc)
  case (Suc n)
  have b: "b = rd b 0 # rd b 1 # rd b 2 # rd b 3 # drop 4 b"
    using Suc.prems by (intro nth_equalityI) (auto simp: rd_def nth_Cons numeral_eq_Suc split: nat.splits)
  have t: "take (4 * Suc n) b = [rd b 0, rd b 1, rd b 2, rd b 3] @ take (4 * n) (drop 4 b)"
    by (subst b) (simp add: eval_nat_numeral)
  show ?case
    unfolding t using Suc.IH [of "drop 4 b"] Suc.prems by (simp add: Let_def DO_CRC_word add.commute)
qed simp

lemma crc_align_eq:
  assumes "0 < len" and "len \<le> length p"
  shows "\<exists>k. 0 < k \<and> k \<le> len \<and> crc_align a p crc len = (foldl crc_byte crc (take k p), drop k p, len - k)"
  using assms
proof (induction a p crc len rule: crc_align.induct)
  case (1 a p crc len)
  obtain x q where p: "p = x # q" using 1(2,3) by (cases p) auto
  show ?case
  proof (cases "len - 1 \<noteq> 0 \<and> (a + 1) AND 3 \<noteq> 0")
    case True
    obtain k where k: "0 < k" "k \<le> len - 1"
      "crc_align (a + 1) q (crc_byte crc x) (len - 1) = (foldl crc_byte (crc_byte crc x) (take k q), drop k q, len - 1 - k)"
    proof -
      have "len - 1 \<le> length q" using 1(3) p by simp
      then show ?thesis using that 1(1) [OF refl refl refl True] True p by (auto simp: DO_CRC_byte)
    qed
    have "crc_align a p crc len = crc_align (a + 1) q (crc_byte crc x) (len - 1)"
      using True by (subst crc_align.simps) (simp add: p DO_CRC_byte Let_def)
    then show ?thesis using k p by (intro exI [of _ "Suc k"]) auto
  next
    case False
    have "crc_align a p crc len = (crc_byte crc x, q, len - 1)"
      using False by (subst crc_align.simps) (auto simp: p DO_CRC_byte Let_def)
    then show ?thesis using 1(2) p by (intro exI [of _ 1]) auto
  qed
qed

lemma crc32_no_comp_eq:
  assumes "len \<le> length buf"
  shows "crc32_no_comp a crc buf len = foldl crc_byte crc (take len buf)"
proof -
  have main: "(case crc_words b c (n div 4) of (c', b') \<Rightarrow> crc_rest b' c' (n mod 4)) = foldl crc_byte c (take n b)"
    if "n \<le> length b" for b c n
  proof -
    have "4 * (n div 4) \<le> length b" using that by linarith
    moreover have "n mod 4 \<le> length (drop (4 * (n div 4)) b)"
    proof -
      have "4 * (n div 4) + n mod 4 = n" by simp
      then show ?thesis using that unfolding length_drop by linarith
    qed
    moreover have "take n b = take (4 * (n div 4)) b @ take (n mod 4) (drop (4 * (n div 4)) b)"
      by (metis mult_div_mod_eq take_add)
    ultimately show ?thesis by (simp add: crc_words_eq crc_rest_eq)
  qed
  show ?thesis
  proof (cases "a AND 3 \<noteq> 0 \<and> len \<noteq> 0")
    case True
    then obtain k where k: "k \<le> len" "crc_align a buf crc len = (foldl crc_byte crc (take k buf), drop k buf, len - k)"
      using crc_align_eq [of len buf a crc] assms by auto
    have "take len buf = take k buf @ take (len - k) (drop k buf)"
      using k(1) by (metis le_add_diff_inverse take_add)
    then show ?thesis
      using True k main [of "len - k" "drop k buf"] assms by (simp add: crc32_no_comp_def Let_def)
  next
    case False
    then show ?thesis using main [OF assms] by (auto simp: crc32_no_comp_def Let_def)
  qed
qed

subsection \<open>Injectivity\<close>

lemma xor_cancel: "a XOR x = a XOR y \<longleftrightarrow> x = (y :: u32)" "x XOR a = y XOR a \<longleftrightarrow> x = y"
proof -
  have "a XOR (a XOR z) = z" for z by (simp add: xor.assoc [symmetric])
  then show "a XOR x = a XOR y \<longleftrightarrow> x = y" by metis
  then show "x XOR a = y XOR a \<longleftrightarrow> x = y" by (simp add: xor.commute)
qed

lemma crc_shift_inj:
  assumes "crc_shift a = crc_shift b"
  shows "a = b"
proof -
  have top: "bit (crc_shift c) 31 \<longleftrightarrow> bit c 0" for c
  proof -
    have "\<not> bit (drop_bit 1 c) 31" by (auto simp: bit_drop_bit_eq dest: bit_imp_le_length)
    moreover have "bit (0xedb88320 :: u32) 31" by simp
    ultimately show ?thesis by (simp add: crc_shift_bit bit_xor_iff)
  qed
  have b0: "bit a 0 \<longleftrightarrow> bit b 0" using top [of a] top [of b] assms by simp
  have d: "drop_bit 1 a = drop_bit 1 b"
    using assms b0 by (auto simp: crc_shift_bit xor_cancel split: if_splits)
  show ?thesis
  proof (rule bit_word_eqI)
    fix n
    show "bit a n = bit b n"
    proof (cases n)
      case (Suc k)
      have "bit (drop_bit 1 a) k = bit (drop_bit 1 b) k" using d by simp
      then show ?thesis using Suc by (simp add: bit_drop_bit_eq)
    qed (simp add: b0)
  qed
qed

lemma crc_shift8_inj: "crc_shift8 a = crc_shift8 b \<Longrightarrow> a = b"
  by (auto simp: crc_shift8_def dest!: crc_shift_inj)

lemma crc_byte_inj: "crc_byte a x = crc_byte b x \<Longrightarrow> a = b" "crc_byte a x = crc_byte a y \<Longrightarrow> x = y"
proof -
  show "crc_byte a x = crc_byte b x \<Longrightarrow> a = b"
    by (auto simp: crc_byte_def xor_cancel dest: crc_shift8_inj)
  assume "crc_byte a x = crc_byte a y"
  then have "(ucast x :: u32) = ucast y"
    by (auto simp: crc_byte_def xor_cancel dest: crc_shift8_inj)
  then have b: "bit (ucast x :: u32) n = bit (ucast y :: u32) n" for n by simp
  show "x = y"
  proof (rule bit_word_eqI)
    fix n
    assume "n < LENGTH(8)"
    then show "bit x n = bit y n" using b [of n] by (simp add: bit_ucast_iff)
  qed
qed

lemma crc_fold_inj: "foldl crc_byte a xs = foldl crc_byte b xs \<Longrightarrow> a = b"
proof (induction xs arbitrary: a b)
  case (Cons x xs)
  then have "crc_byte a x = crc_byte b x" by simp
  then show ?case by (rule crc_byte_inj)
qed simp

section \<open>Properties\<close>

text \<open>C24. \<^verbatim>\<open>crc32\<close>, which works a word at a time from a table after aligning its pointer, computes the bit-serial CRC of
  the first \<open>len\<close> bytes, the shift register the table was generated with, whatever the alignment of the buffer.\<close>

theorem crc32_bitwise:
  assumes "len \<le> length p"
  shows "crc32 a crc p len = crc_spec crc (take len p)"
  using assms by (simp add: crc32_def crc_spec_def crc32_no_comp_eq)

theorem crc32_bitwise_witness:
  "crc32 0x1501 0 (bytes_of ''123456789'') 9 = crc_spec 0 (take 9 (bytes_of ''123456789''))"
  by (rule crc32_bitwise) simp

text \<open>The checksum of two areas one after the other can be computed in two calls, the second
  starting from the result of the first.\<close>

lemma crc32_append:
  "crc32 b (crc32 a crc p (length p)) q (length q) = crc32 c crc (p @ q) (length (p @ q))"
  by (simp add: crc32_def crc32_no_comp_eq xor.assoc)

lemma crc32_differs:
  assumes "i < length p" and "x \<noteq> p ! i"
  shows "crc32 a crc (p[i := x]) (length p) \<noteq> crc32 b crc p (length p)"
proof
  assume eq: "crc32 a crc (p[i := x]) (length p) = crc32 b crc p (length p)"
  let ?c = "foldl crc_byte (crc XOR 0xffffffff) (take i p)"
  have p: "p = take i p @ p ! i # drop (Suc i) p" using assms(1) by (rule id_take_nth_drop)
  have u: "p[i := x] = take i p @ x # drop (Suc i) p" using assms(1) by (rule upd_conv_take_nth_drop)
  have "foldl crc_byte (crc XOR 0xffffffff) (p[i := x]) = foldl crc_byte (crc XOR 0xffffffff) p"
    using eq by (simp add: crc32_def crc32_no_comp_eq xor_cancel)
  then have "foldl crc_byte (crc_byte ?c x) (drop (Suc i) p) = foldl crc_byte (crc_byte ?c (p ! i)) (drop (Suc i) p)"
    by (subst (asm) u, subst (asm) (3) p) simp
  then have "crc_byte ?c x = crc_byte ?c (p ! i)" by (rule crc_fold_inj)
  then show False using assms(2) crc_byte_inj(2) by blast
qed

text \<open>C25. Every corruption of a single byte changes the checksum.\<close>

theorem crc32_detects_byte:
  assumes "i < length p" and "x \<noteq> p ! i"
  shows "crc32 a crc (p[i := x]) (length p) \<noteq> crc32 b crc p (length p)"
  by (rule crc32_differs [OF assms])

theorem crc32_detects_byte_witness:
  "crc32 0 0 ([1, 2, 3][1 := 7]) (length [1, 2, 3 :: byte]) \<noteq> crc32 0 0 [1, 2, 3] (length [1, 2, 3 :: byte])"
  by (rule crc32_detects_byte) simp_all

end
