(* ===== verification/Cstring.thy ===== *)
theory Cstring
  imports Vsprintf "HOL-Library.Monad_Syntax"
begin

text \<open>
  The string and memory routines of \<^verbatim>\<open>u-boot32/lib/string.c\<close> on one memory: a byte list, with
  pointers as positions in it, so that source and destination may overlap. A routine gives
  \<open>None\<close> when it leaves the memory. \<^verbatim>\<open>strcmp\<close> and \<^verbatim>\<open>strncmp\<close> are in \<open>Boot_Prelude\<close>.
\<close>

section \<open>One memory\<close>

definition ld :: "byte list \<Rightarrow> nat \<Rightarrow> byte option" where
  "ld m p = (if p < length m then Some (m ! p) else None)"

definition sto :: "byte list \<Rightarrow> nat \<Rightarrow> byte \<Rightarrow> byte list option" where
  "sto m p b = (if p < length m then Some (m[p := b]) else None)"

section \<open>Copying and appending strings\<close>

partial_function (option) strcpy_loop :: "byte list \<Rightarrow> nat \<Rightarrow> nat \<Rightarrow> byte list option" where
  "strcpy_loop m dest src = do {
     b \<leftarrow> ld m src;
     m \<leftarrow> sto m dest b;
     if b \<noteq> 0 then strcpy_loop m (dest + 1) (src + 1) else Some m
   }"

definition strcpy :: "byte list \<Rightarrow> nat \<Rightarrow> nat \<Rightarrow> byte list option" where
  "strcpy m dest src = strcpy_loop m dest src"

fun strncpy :: "byte list \<Rightarrow> nat \<Rightarrow> nat \<Rightarrow> nat \<Rightarrow> byte list option" where
  "strncpy m dest src 0 = Some m"
| "strncpy m dest src (Suc count) = do {
     b \<leftarrow> ld m src;
     m \<leftarrow> sto m dest b;
     if b \<noteq> 0 then strncpy m (dest + 1) (src + 1) count else Some m
   }"

text \<open>\<^verbatim>\<open>while (*dest) dest++\<close>\<close>

partial_function (option) str_end :: "byte list \<Rightarrow> nat \<Rightarrow> nat option" where
  "str_end m p = do { b \<leftarrow> ld m p; if b \<noteq> 0 then str_end m (p + 1) else Some p }"

definition strcat :: "byte list \<Rightarrow> nat \<Rightarrow> nat \<Rightarrow> byte list option" where
  "strcat m dest src = do { dest \<leftarrow> str_end m dest; strcpy_loop m dest src }"

fun strncat_loop :: "byte list \<Rightarrow> nat \<Rightarrow> nat \<Rightarrow> nat \<Rightarrow> byte list option" where
  "strncat_loop m dest src 0 = Some m"
| "strncat_loop m dest src (Suc count) = do {
     b \<leftarrow> ld m src;
     m \<leftarrow> sto m dest b;
     if b \<noteq> 0 then
       if count = 0 then sto m (dest + 1) 0 else strncat_loop m (dest + 1) (src + 1) count
     else Some m
   }"

definition strncat :: "byte list \<Rightarrow> nat \<Rightarrow> nat \<Rightarrow> nat \<Rightarrow> byte list option" where
  "strncat m dest src count =
     (if count \<noteq> 0 then do { dest \<leftarrow> str_end m dest; strncat_loop m dest src count } else Some m)"

section \<open>Searching\<close>

text \<open>A pointer result is \<open>None\<close> for NULL inside the \<open>option\<close> of the access errors.\<close>

partial_function (option) strchr :: "byte list \<Rightarrow> nat \<Rightarrow> byte \<Rightarrow> nat option option" where
  "strchr m s c = do {
     b \<leftarrow> ld m s;
     if b \<noteq> c then if b = 0 then Some None else strchr m (s + 1) c
     else Some (Some s)
   }"

definition strlen :: "byte list \<Rightarrow> nat \<Rightarrow> nat option" where
  "strlen m s = do { sc \<leftarrow> str_end m s; Some (sc - s) }"

text \<open>\<^verbatim>\<open>strrchr\<close>, backwards from the terminator; \<open>n\<close> is \<^verbatim>\<open>p - s\<close>.\<close>

fun strrchr_loop :: "byte list \<Rightarrow> nat \<Rightarrow> byte \<Rightarrow> nat \<Rightarrow> nat option option" where
  "strrchr_loop m s c n = do {
     b \<leftarrow> ld m (s + n);
     if b = c then Some (Some (s + n))
     else case n of 0 \<Rightarrow> Some None | Suc k \<Rightarrow> strrchr_loop m s c k
   }"

declare strrchr_loop.simps [simp del]

definition strrchr :: "byte list \<Rightarrow> nat \<Rightarrow> byte \<Rightarrow> nat option option" where
  "strrchr m s c = do { n \<leftarrow> strlen m s; strrchr_loop m s c n }"

fun strnlen_loop :: "byte list \<Rightarrow> nat \<Rightarrow> nat \<Rightarrow> nat option" where
  "strnlen_loop m sc 0 = Some sc"
| "strnlen_loop m sc (Suc count) = do { b \<leftarrow> ld m sc; if b \<noteq> 0 then strnlen_loop m (sc + 1) count else Some sc }"

definition strnlen :: "byte list \<Rightarrow> nat \<Rightarrow> nat \<Rightarrow> nat option" where
  "strnlen m s count = do { sc \<leftarrow> strnlen_loop m s count; Some (sc - s) }"

text \<open>\<^verbatim>\<open>strdup\<close> of a string held elsewhere, with \<open>mem\<close> for what \<^verbatim>\<open>malloc\<close> can provide: a fixed
  answer for each size, which does not change from one request to the next.\<close>

definition strdup :: "(nat \<Rightarrow> bool) \<Rightarrow> byte list option \<Rightarrow> byte list option" where
  "strdup mem s = (case s of None \<Rightarrow> None | Some s \<Rightarrow> if mem (length s + 1) then Some s else None)"

text \<open>The inner loops of \<^verbatim>\<open>strspn\<close> and \<^verbatim>\<open>strpbrk\<close>: is the character in the set?\<close>

partial_function (option) str_mem :: "byte list \<Rightarrow> byte \<Rightarrow> nat \<Rightarrow> bool option" where
  "str_mem m c a = do {
     b \<leftarrow> ld m a;
     if b \<noteq> 0 then if c = b then Some True else str_mem m c (a + 1) else Some False
   }"

partial_function (option) strspn_loop :: "byte list \<Rightarrow> nat \<Rightarrow> nat \<Rightarrow> nat \<Rightarrow> nat option" where
  "strspn_loop m p accept count = do {
     b \<leftarrow> ld m p;
     if b \<noteq> 0 then do {
       found \<leftarrow> str_mem m b accept;
       if \<not> found then Some count else strspn_loop m (p + 1) accept (count + 1)
     }
     else Some count
   }"

definition strspn :: "byte list \<Rightarrow> nat \<Rightarrow> nat \<Rightarrow> nat option" where
  "strspn m s accept = strspn_loop m s accept 0"

partial_function (option) strpbrk :: "byte list \<Rightarrow> nat \<Rightarrow> nat \<Rightarrow> nat option option" where
  "strpbrk m cs ct = do {
     b \<leftarrow> ld m cs;
     if b \<noteq> 0 then do {
       found \<leftarrow> str_mem m b ct;
       if found then Some (Some cs) else strpbrk m (cs + 1) ct
     }
     else Some None
   }"

section \<open>Tokens\<close>

text \<open>\<^verbatim>\<open>strtok\<close> with its static variable \<^verbatim>\<open>___strtok\<close> as state, and \<^verbatim>\<open>strsep\<close> with \<^verbatim>\<open>*s\<close>.\<close>

definition strtok ::
  "byte list \<Rightarrow> nat option \<Rightarrow> nat option \<Rightarrow> nat \<Rightarrow> (nat option \<times> nat option \<times> byte list) option" where
  "strtok m strtok_ptr s ct =
     (case (case s of Some _ \<Rightarrow> s | None \<Rightarrow> strtok_ptr) of
        None \<Rightarrow> Some (None, strtok_ptr, m)
      | Some sbegin \<Rightarrow> do {
          n \<leftarrow> strspn m sbegin ct;
          let sbegin = sbegin + n;
          b \<leftarrow> ld m sbegin;
          if b = 0 then Some (None, None, m)
          else do {
            send \<leftarrow> strpbrk m sbegin ct;
            (case send of
               None \<Rightarrow> Some (Some sbegin, None, m)
             | Some e \<Rightarrow> do { m \<leftarrow> sto m e 0; Some (Some sbegin, Some (e + 1), m) })
          }
        })"

definition strsep :: "byte list \<Rightarrow> nat option \<Rightarrow> nat \<Rightarrow> (nat option \<times> nat option \<times> byte list) option" where
  "strsep m s ct =
     (case s of
        None \<Rightarrow> Some (None, None, m)
      | Some sbegin \<Rightarrow> do {
          e \<leftarrow> strpbrk m sbegin ct;
          (case e of
             None \<Rightarrow> Some (Some sbegin, None, m)
           | Some e \<Rightarrow> do { m \<leftarrow> sto m e 0; Some (Some sbegin, Some (e + 1), m) })
        })"

partial_function (option) strswab_loop :: "byte list \<Rightarrow> nat \<Rightarrow> byte list option" where
  "strswab_loop m p = do {
     a \<leftarrow> ld m p;
     if a \<noteq> 0 then do {
       b \<leftarrow> ld m (p + 1);
       if b \<noteq> 0 then do {
         m \<leftarrow> sto m p b;
         m \<leftarrow> sto m (p + 1) a;
         strswab_loop m (p + 2)
       }
       else Some m
     }
     else Some m
   }"

definition strswab :: "byte list \<Rightarrow> nat option \<Rightarrow> (nat option \<times> byte list) option" where
  "strswab m s =
     (case s of None \<Rightarrow> Some (None, m)
      | Some p \<Rightarrow> do {
          b \<leftarrow> ld m p;
          if b = 0 then Some (None, m) else do { m \<leftarrow> strswab_loop m p; Some (Some p, m) }
        })"

section \<open>White space\<close>

definition isspace :: "byte \<Rightarrow> bool" where "isspace c \<longleftrightarrow> ismask c AND ct_S \<noteq> 0"

partial_function (option) skip_spaces :: "byte list \<Rightarrow> nat \<Rightarrow> nat option" where
  "skip_spaces m str = do { b \<leftarrow> ld m str; if isspace b then skip_spaces m (str + 1) else Some str }"

text \<open>\<open>strim_end\<close> is \<^verbatim>\<open>end + 1 - s\<close>.\<close>

fun strim_end :: "byte list \<Rightarrow> nat \<Rightarrow> nat \<Rightarrow> nat option" where
  "strim_end m s 0 = Some 0"
| "strim_end m s (Suc n) = do { b \<leftarrow> ld m (s + n); if isspace b then strim_end m s n else Some (Suc n) }"

definition strim :: "byte list \<Rightarrow> nat \<Rightarrow> (nat \<times> byte list) option" where
  "strim m s = do {
     s \<leftarrow> skip_spaces m s;
     size \<leftarrow> strlen m s;
     if size = 0 then Some (s, m)
     else do {
       n \<leftarrow> strim_end m s size;
       m \<leftarrow> sto m (s + n) 0;
       Some (s, m)
     }
   }"

section \<open>Memory areas\<close>

text \<open>Words are 32 bits. The addresses of offset 0 decide the alignment; \<open>base\<close> is that address.\<close>

definition sto32 :: "byte list \<Rightarrow> nat \<Rightarrow> u32 \<Rightarrow> byte list option" where
  "sto32 m p w = memcpy_at p (le32 w) m"

definition ld32 :: "byte list \<Rightarrow> nat \<Rightarrow> u32 option" where
  "ld32 m p = (if p + 4 \<le> length m then Some (rd32 m p) else None)"

fun memset_bytes :: "byte list \<Rightarrow> nat \<Rightarrow> byte \<Rightarrow> nat \<Rightarrow> byte list option" where
  "memset_bytes m s8 c 0 = Some m"
| "memset_bytes m s8 c (Suc count) = do { m \<leftarrow> sto m s8 c; memset_bytes m (s8 + 1) c count }"

function memset_words :: "byte list \<Rightarrow> nat \<Rightarrow> u32 \<Rightarrow> nat \<Rightarrow> (byte list \<times> nat \<times> nat) option" where
  "memset_words m sl cl count =
     (if count \<ge> 4 then do { m \<leftarrow> sto32 m sl cl; memset_words m (sl + 4) cl (count - 4) }
      else Some (m, sl, count))"
  by auto
termination by (relation "measure (\<lambda>(m, sl, cl, count). count)") auto

declare memset_words.simps [simp del]

definition memset :: "u32 \<Rightarrow> byte list \<Rightarrow> nat \<Rightarrow> u32 \<Rightarrow> nat \<Rightarrow> byte list option" where
  "memset base m s c count = do {
     (m, s8, count) \<leftarrow>
       (if (base + of_nat s) AND 3 = 0 then
          let b = c AND 0xff;
              cl = 0;
              cl = push_bit 8 cl OR b; cl = push_bit 8 cl OR b; cl = push_bit 8 cl OR b; cl = push_bit 8 cl OR b
          in memset_words m s cl count
        else Some (m, s, count));
     memset_bytes m s8 (ucast c) count
   }"

fun copy_up :: "byte list \<Rightarrow> nat \<Rightarrow> nat \<Rightarrow> nat \<Rightarrow> byte list option" where
  "copy_up m dest src 0 = Some m"
| "copy_up m dest src (Suc count) = do {
     b \<leftarrow> ld m src; m \<leftarrow> sto m dest b; copy_up m (dest + 1) (src + 1) count }"

definition bcopy :: "byte list \<Rightarrow> nat \<Rightarrow> nat \<Rightarrow> nat \<Rightarrow> byte list option" where
  "bcopy m src dest count = copy_up m dest src count"

function memcpy_words :: "byte list \<Rightarrow> nat \<Rightarrow> nat \<Rightarrow> nat \<Rightarrow> (byte list \<times> nat \<times> nat \<times> nat) option" where
  "memcpy_words m dl sl count =
     (if count \<ge> 4 then do { w \<leftarrow> ld32 m sl; m \<leftarrow> sto32 m dl w; memcpy_words m (dl + 4) (sl + 4) (count - 4) }
      else Some (m, dl, sl, count))"
  by auto
termination by (relation "measure (\<lambda>(m, dl, sl, count). count)") auto

declare memcpy_words.simps [simp del]

definition memcpy :: "u32 \<Rightarrow> byte list \<Rightarrow> nat \<Rightarrow> nat \<Rightarrow> nat \<Rightarrow> byte list option" where
  "memcpy base m dest src count =
     (if src = dest then Some m
      else do {
        (m, d8, s8, count) \<leftarrow>
          (if ((base + of_nat dest) OR (base + of_nat src)) AND 3 = 0 then memcpy_words m dest src count
           else Some (m, dest, src, count));
        copy_up m d8 s8 count
      })"

text \<open>\<^verbatim>\<open>memmove\<close>; the second loop counts down.\<close>

fun copy_down :: "byte list \<Rightarrow> nat \<Rightarrow> nat \<Rightarrow> nat \<Rightarrow> byte list option" where
  "copy_down m dest src 0 = Some m"
| "copy_down m dest src (Suc count) = do {
     b \<leftarrow> ld m (src + count); m \<leftarrow> sto m (dest + count) b; copy_down m dest src count }"

definition memmove :: "byte list \<Rightarrow> nat \<Rightarrow> nat \<Rightarrow> nat \<Rightarrow> byte list option" where
  "memmove m dest src count =
     (if src = dest then Some m
      else if dest \<le> src then copy_up m dest src count else copy_down m dest src count)"

fun memcmp :: "byte list \<Rightarrow> nat \<Rightarrow> nat \<Rightarrow> nat \<Rightarrow> int option" where
  "memcmp m cs ct 0 = Some 0"
| "memcmp m cs ct (Suc count) = do {
     a \<leftarrow> ld m cs;
     b \<leftarrow> ld m ct;
     let res = uint a - uint b;
     if res \<noteq> 0 then Some res else memcmp m (cs + 1) (ct + 1) count
   }"

text \<open>\<^verbatim>\<open>memscan\<close> compares with the \<^verbatim>\<open>int\<close> argument as it is.\<close>

fun memscan :: "byte list \<Rightarrow> nat \<Rightarrow> int \<Rightarrow> nat \<Rightarrow> nat option" where
  "memscan m p c 0 = Some p"
| "memscan m p c (Suc n) = do { b \<leftarrow> ld m p; if uint b = c then Some p else memscan m (p + 1) c n }"

fun memchr :: "byte list \<Rightarrow> nat \<Rightarrow> byte \<Rightarrow> nat \<Rightarrow> nat option option" where
  "memchr m p c 0 = Some None"
| "memchr m p c (Suc n) = do { b \<leftarrow> ld m p; if c = b then Some (Some p) else memchr m (p + 1) c n }"

fun strstr_loop :: "byte list \<Rightarrow> nat \<Rightarrow> nat \<Rightarrow> nat \<Rightarrow> nat \<Rightarrow> nat option option" where
  "strstr_loop m s1 s2 l1 l2 =
     (if l1 \<ge> l2 then do {
        c \<leftarrow> memcmp m s1 s2 l2;
        if c = 0 then Some (Some s1)
        else case l1 of 0 \<Rightarrow> Some None | Suc k \<Rightarrow> strstr_loop m (s1 + 1) s2 k l2
      }
      else Some None)"

declare strstr_loop.simps [simp del]

definition strstr :: "byte list \<Rightarrow> nat \<Rightarrow> nat \<Rightarrow> nat option option" where
  "strstr m s1 s2 = do {
     l2 \<leftarrow> strlen m s2;
     if l2 = 0 then Some (Some s1)
     else do { l1 \<leftarrow> strlen m s1; strstr_loop m s1 s2 l1 l2 }
   }"


section \<open>Strings in memory\<close>

definition str_at :: "byte list \<Rightarrow> nat \<Rightarrow> byte list \<Rightarrow> bool" where
  "str_at m p s \<longleftrightarrow> 0 \<notin> set s \<and> (\<exists>r. drop p m = s @ 0 # r)"

lemma ld_drop: "ld m p = (case drop p m of [] \<Rightarrow> None | b # _ \<Rightarrow> Some b)"
proof (cases "p < length m")
  case True
  then show ?thesis by (simp add: ld_def Cons_nth_drop_Suc [symmetric])
qed (simp add: ld_def)

lemma str_at_Nil: "str_at m p [] \<longleftrightarrow> ld m p = Some 0"
  by (auto simp: str_at_def ld_drop split: list.splits)

lemma drop_Cons_Suc: "drop p m = c # r \<longleftrightarrow> p < length m \<and> m ! p = c \<and> drop (Suc p) m = r"
  by (metis Cons_nth_drop_Suc drop_all leI list.distinct(1) list.inject)

lemma str_at_Cons: "str_at m p (c # s) \<longleftrightarrow> c \<noteq> 0 \<and> ld m p = Some c \<and> str_at m (Suc p) s"
  by (auto simp: str_at_def drop_Cons_Suc ld_def)

lemmas str_at_simps = str_at_Nil str_at_Cons

lemma str_at_length: "str_at m p s \<Longrightarrow> p + length s < length m"
  by (induction s arbitrary: p) (force simp: str_at_simps ld_def split: if_splits)+

lemma str_at_nth: "str_at m p s \<Longrightarrow> i < length s \<Longrightarrow> m ! (p + i) = s ! i"
proof -
  assume "str_at m p s" "i < length s"
  then obtain r where "drop p m = s @ 0 # r" by (auto simp: str_at_def)
  then have "drop p m ! i = s ! i" using \<open>i < length s\<close> by (simp add: nth_append)
  then show ?thesis using str_at_length [OF \<open>str_at m p s\<close>] \<open>i < length s\<close> by simp
qed

lemma str_at_NUL: "str_at m p s \<Longrightarrow> m ! (p + length s) = 0"
proof -
  assume s: "str_at m p s"
  then obtain r where "drop p m = s @ 0 # r" by (auto simp: str_at_def)
  then have "drop p m ! length s = 0" by simp
  then show ?thesis using str_at_length [OF s] by simp
qed

lemma str_atI:
  assumes "0 \<notin> set s" and "p + length s < length m" and "\<And>i. i < length s \<Longrightarrow> m ! (p + i) = s ! i"
    and "m ! (p + length s) = 0"
  shows "str_at m p s"
  using assms
proof (induction s arbitrary: p)
  case (Cons c s)
  have "str_at m (Suc p) s"
  proof (rule Cons.IH)
    show "m ! (Suc p + i) = s ! i" if "i < length s" for i using Cons.prems(3) [of "Suc i"] that by simp
  qed (use Cons.prems in simp_all)
  then show ?case using Cons.prems(1,2) Cons.prems(3) [of 0] by (simp add: str_at_Cons ld_def)
qed (simp add: str_at_Nil ld_def)

text \<open>A string survives writes outside it.\<close>

lemma str_at_frame:
  assumes "str_at m p s" and "length m' = length m" and "\<And>i. p \<le> i \<Longrightarrow> i \<le> p + length s \<Longrightarrow> m' ! i = m ! i"
  shows "str_at m' p s"
proof (rule str_atI)
  show "0 \<notin> set s" using assms(1) by (simp add: str_at_def)
  show "p + length s < length m'" using str_at_length [OF assms(1)] assms(2) by simp
  show "m' ! (p + i) = s ! i" if "i < length s" for i
    using assms(3) [of "p + i"] str_at_nth [OF assms(1) that] that by simp
  show "m' ! (p + length s) = 0" using assms(3) [of "p + length s"] str_at_NUL [OF assms(1)] by simp
qed

lemma str_end_eq: "str_at m p s \<Longrightarrow> str_end m p = Some (p + length s)"
  by (induction s arbitrary: p) (subst str_end.simps, simp add: str_at_simps)+

lemma strlen_eq: "str_at m p s \<Longrightarrow> strlen m p = Some (length s)"
  by (simp add: strlen_def str_end_eq)

lemma strnlen_eq: "str_at m p s \<Longrightarrow> strnlen m p n = Some (min n (length s))"
proof -
  have "strnlen_loop m p n = Some (p + min n (length s))" if "str_at m p s" for p s
    using that
  proof (induction n arbitrary: p s)
    case (Suc n)
    show ?case
    proof (cases s)
      case (Cons c s')
      then show ?thesis using Suc.IH [of "Suc p" s'] Suc.prems by (simp add: str_at_simps)
    qed (use Suc.prems in \<open>simp add: str_at_simps\<close>)
  qed simp
  then show "str_at m p s \<Longrightarrow> strnlen m p n = Some (min n (length s))" by (simp add: strnlen_def)
qed

section \<open>Copying\<close>

lemma copy_up_eq:
  assumes "src + n \<le> length m" and "dest + n \<le> length m" and "dest \<le> src \<or> src + n \<le> dest"
  shows "copy_up m dest src n = Some (patch dest (take n (drop src m)) m)"
  using assms
proof (induction n arbitrary: m dest src)
  case (Suc n)
  let ?m = "m[dest := m ! src]"
  have "copy_up m dest src (Suc n) = copy_up ?m (dest + 1) (src + 1) n"
    using Suc.prems by (simp add: ld_def sto_def)
  also have "\<dots> = Some (patch (dest + 1) (take n (drop (src + 1) ?m)) ?m)"
    using Suc.prems by (intro Suc.IH) auto
  also have "patch (dest + 1) (take n (drop (src + 1) ?m)) ?m = patch dest (take (Suc n) (drop src m)) m"
  proof (rule nth_equalityI)
    show "length (patch (dest + 1) (take n (drop (src + 1) ?m)) ?m) = length (patch dest (take (Suc n) (drop src m)) m)"
      using Suc.prems by simp
    fix i
    assume "i < length (patch (dest + 1) (take n (drop (src + 1) ?m)) ?m)"
    then have i: "i < length m" using Suc.prems by simp
    have l: "length (take n (drop (src + 1) ?m)) = n" "length (take (Suc n) (drop src m)) = Suc n"
      using Suc.prems by simp_all
    show "patch (dest + 1) (take n (drop (src + 1) ?m)) ?m ! i = patch dest (take (Suc n) (drop src m)) m ! i"
    proof (cases "dest < i \<and> i \<le> dest + n")
      case True
      then obtain k where k: "i = dest + Suc k" using less_imp_Suc_add [of dest i] by auto
      have "?m ! (src + Suc k) = m ! (src + Suc k)"
        using Suc.prems True k by (auto simp: nth_list_update)
      then show ?thesis using Suc.prems i l True k by (simp add: nth_patch)
    next
      case False
      then show ?thesis using Suc.prems i l by (auto simp: nth_patch nth_list_update)
    qed
  qed
  finally show ?case .
qed simp

lemma copy_down_eq:
  assumes "src + n \<le> length m" and "dest + n \<le> length m" and "src \<le> dest \<or> dest + n \<le> src"
  shows "copy_down m dest src n = Some (patch dest (take n (drop src m)) m)"
  using assms
proof (induction n arbitrary: m)
  case (Suc n)
  let ?m = "m[dest + n := m ! (src + n)]"
  have "copy_down m dest src (Suc n) = copy_down ?m dest src n"
    using Suc.prems by (simp add: ld_def sto_def)
  also have "\<dots> = Some (patch dest (take n (drop src ?m)) ?m)"
    using Suc.prems by (intro Suc.IH) auto
  also have "patch dest (take n (drop src ?m)) ?m = patch dest (take (Suc n) (drop src m)) m"
  proof (rule nth_equalityI)
    show "length (patch dest (take n (drop src ?m)) ?m) = length (patch dest (take (Suc n) (drop src m)) m)"
      using Suc.prems by simp
    fix i
    assume "i < length (patch dest (take n (drop src ?m)) ?m)"
    then have i: "i < length m" using Suc.prems by simp
    have l: "length (take n (drop src ?m)) = n" "length (take (Suc n) (drop src m)) = Suc n"
      using Suc.prems by simp_all
    show "patch dest (take n (drop src ?m)) ?m ! i = patch dest (take (Suc n) (drop src m)) m ! i"
    proof (cases "dest \<le> i \<and> i < dest + n")
      case True
      then obtain k where k: "i = dest + k" using le_Suc_ex by blast
      have "?m ! (src + k) = m ! (src + k)"
        using Suc.prems True k by (auto simp: nth_list_update)
      then show ?thesis using Suc.prems i l True k by (simp add: nth_patch)
    next
      case False
      then show ?thesis using Suc.prems i l by (auto simp: nth_patch nth_list_update)
    qed
  qed
  finally show ?case .
qed simp

lemma patch_self: "src + n \<le> length m \<Longrightarrow> patch src (take n (drop src m)) m = m"
  by (simp add: patch_def) (metis add.commute append_take_drop_id drop_drop)

lemma patch_split:
  assumes "dest + length a + length b \<le> length m"
  shows "patch (dest + length a) b (patch dest a m) = patch dest (a @ b) m"
  using assms by (simp add: patch_def add.commute add.left_commute)

lemma take_drop_patch_below:
  assumes "dest + length a \<le> length m" and "dest + length a \<le> p \<or> p + n \<le> dest"
  shows "take n (drop p (patch dest a m)) = take n (drop p m)"
proof (cases "dest + length a \<le> p")
  case True
  then show ?thesis using assms by (simp add: drop_patch_ge)
next
  case False
  then have "p + n \<le> dest" using assms(2) by simp
  then show ?thesis using assms(1) by (simp add: patch_def take_drop)
qed

lemma sto32_word:
  assumes "sl + 4 \<le> length m" and "dl + 4 \<le> length m"
  shows "ld32 m sl \<bind> sto32 m dl = Some (patch dl (take 4 (drop sl m)) m)"
proof -
  have "le32 (rd32 m sl) = take 4 (drop sl m)"
    using rd32_le32_take [of sl m] assms by simp
  then show ?thesis using assms by (simp add: ld32_def sto32_def memcpy_at_def)
qed

lemma memcpy_words_eq:
  assumes "sl + n \<le> length m" and "dl + n \<le> length m" and "dl + 4 \<le> sl \<or> sl + n \<le> dl"
  shows "memcpy_words m dl sl n =
    Some (patch dl (take (n div 4 * 4) (drop sl m)) m, dl + n div 4 * 4, sl + n div 4 * 4, n mod 4)"
  using assms
proof (induction n arbitrary: m dl sl rule: less_induct)
  case (less n)
  show ?case
  proof (cases "4 \<le> n")
    case False
    then show ?thesis using less.prems by (subst memcpy_words.simps) simp
  next
    case True
    let ?w = "take 4 (drop sl m)"
    let ?m = "patch dl ?w m"
    have w: "length ?w = 4" using True less.prems by simp
    have lm: "length ?m = length m" using True less.prems w by simp
    have d: "n div 4 * 4 = 4 + (n - 4) div 4 * 4" "(n - 4) mod 4 = n mod 4"
      using True by (simp_all add: le_div_geq le_mod_geq)
    have "memcpy_words m dl sl n = ld32 m sl \<bind> (\<lambda>w. sto32 m dl w \<bind> (\<lambda>m. memcpy_words m (dl + 4) (sl + 4) (n - 4)))"
      using True by (subst memcpy_words.simps) simp
    also have "\<dots> = memcpy_words ?m (dl + 4) (sl + 4) (n - 4)"
    proof -
      have "ld32 m sl \<bind> sto32 m dl = Some ?m" using True less.prems by (intro sto32_word) simp_all
      then have "(ld32 m sl \<bind> sto32 m dl) \<bind> (\<lambda>m. memcpy_words m (dl + 4) (sl + 4) (n - 4)) =
          memcpy_words ?m (dl + 4) (sl + 4) (n - 4)" by simp
      then show ?thesis by (simp add: bind_assoc)
    qed
    also have "\<dots> = Some (patch (dl + 4) (take ((n - 4) div 4 * 4) (drop (sl + 4) ?m)) ?m,
        dl + 4 + (n - 4) div 4 * 4, sl + 4 + (n - 4) div 4 * 4, (n - 4) mod 4)"
      using True less.prems lm by (intro less.IH) auto
    also have "take ((n - 4) div 4 * 4) (drop (sl + 4) ?m) = take ((n - 4) div 4 * 4) (drop (sl + 4) m)"
      using True less.prems w by (intro take_drop_patch_below) auto
    also have "patch (dl + 4) (take ((n - 4) div 4 * 4) (drop (sl + 4) m)) ?m =
        patch dl (take (n div 4 * 4) (drop sl m)) m"
    proof -
      have "(n - 4) div 4 * 4 \<le> n - 4" by simp
      then have "patch (dl + length ?w) (take ((n - 4) div 4 * 4) (drop (sl + 4) m)) ?m =
          patch dl (?w @ take ((n - 4) div 4 * 4) (drop (sl + 4) m)) m"
        using True less.prems w by (intro patch_split) simp
      moreover have "?w @ take ((n - 4) div 4 * 4) (drop (sl + 4) m) = take (n div 4 * 4) (drop sl m)"
        unfolding d(1) take_add by (simp add: add.commute)
      ultimately show ?thesis using w by simp
    qed
    finally show ?thesis using d by (simp add: add.assoc)
  qed
qed

lemma aligned_mod:
  assumes "(base + of_nat p :: u32) AND 3 = 0"
  shows "(unat base + p) mod 4 = 0"
proof -
  have m: "(3 :: u32) = mask 2" by (simp add: mask_eq_exp_minus_1)
  have "take_bit 2 (base + of_nat p) = 0" using assms by (simp add: take_bit_eq_mask m)
  then have "unat (take_bit 2 (base + of_nat p)) = 0" by simp
  then have "unat (base + of_nat p) mod 4 = 0" unfolding unsigned_take_bit_eq by (simp add: take_bit_nat_def)
  then show ?thesis
    by (simp add: unat_word_ariths unat_of_nat mod_mod_cancel mod_add_right_eq) 
qed

lemma aligned_apart:
  assumes "((base + of_nat dest :: u32) OR (base + of_nat src)) AND 3 = 0" and "dest < src"
  shows "dest + 4 \<le> src"
proof -
  have "(base + of_nat dest) AND 3 = 0" "(base + of_nat src) AND 3 = 0"
    using assms(1) by (simp_all add: bit.conj_disj_distrib2 or_eq_0_iff)
  then have "(unat base + dest) mod 4 = 0" "(unat base + src) mod 4 = 0" by (simp_all add: aligned_mod)
  then show ?thesis using assms(2) by presburger
qed

lemma memcpy_eq:
  assumes "src + n \<le> length m" and "dest + n \<le> length m" and "dest \<le> src \<or> src + n \<le> dest"
  shows "memcpy base m dest src n = Some (patch dest (take n (drop src m)) m)"
proof (cases "src = dest")
  case True
  then show ?thesis using assms(1) by (simp add: memcpy_def patch_self)
next
  case neq: False
  show ?thesis
  proof (cases "((base + of_nat dest) OR (base + of_nat src)) AND 3 = 0")
    case False
    then show ?thesis using neq copy_up_eq [OF assms] by (simp add: memcpy_def)
  next
    case True
    have sep: "dest + 4 \<le> src \<or> src + n \<le> dest"
      using aligned_apart [OF True] neq assms(3) by auto
    let ?k = "n div 4 * 4"
    let ?a = "take ?k (drop src m)"
    have k: "?k + n mod 4 = n" by simp
    have la: "length ?a = ?k" using assms(1) k by simp
    let ?m = "patch dest ?a m"
    have "copy_up ?m (dest + ?k) (src + ?k) (n mod 4) =
        Some (patch (dest + ?k) (take (n mod 4) (drop (src + ?k) ?m)) ?m)"
      using assms k la by (intro copy_up_eq) auto
    also have "take (n mod 4) (drop (src + ?k) ?m) = take (n mod 4) (drop (src + ?k) m)"
      using assms k la by (intro take_drop_patch_below) auto
    also have "patch (dest + ?k) (take (n mod 4) (drop (src + ?k) m)) ?m =
        patch dest (?a @ take (n mod 4) (drop (src + ?k) m)) m"
      using patch_split [of dest ?a "take (n mod 4) (drop (src + ?k) m)" m] assms k la by simp
    also have "?a @ take (n mod 4) (drop (src + ?k) m) = take n (drop src m)"
      by (metis add.commute drop_drop k take_add)
    finally show ?thesis
      using True neq memcpy_words_eq [OF assms(1,2) sep] by (simp add: memcpy_def)
  qed
qed

lemma memmove_eq:
  assumes "src + n \<le> length m" and "dest + n \<le> length m"
  shows "memmove m dest src n = Some (patch dest (take n (drop src m)) m)"
  using assms by (auto simp: memmove_def patch_self intro: copy_up_eq copy_down_eq)

lemma upd_patch: "p < length m \<Longrightarrow> m[p := c] = patch p [c] m"
  by (simp add: patch_def upd_conv_take_nth_drop)

lemma memset_bytes_eq:
  "p + n \<le> length m \<Longrightarrow> memset_bytes m p c n = Some (patch p (replicate n c) m)"
proof (induction n arbitrary: m p)
  case (Suc n)
  then show ?case
    using patch_split [of p "[c]" "replicate n c" m]
    by (simp add: sto_def upd_patch)
qed simp

lemma le32_repeat:
  "le32 (push_bit 8 (push_bit 8 (push_bit 8 (push_bit 8 0 OR ucast b) OR ucast b) OR ucast b) OR ucast b) =
   replicate 4 (b :: byte)"
proof -
  have "(push_bit 8 (push_bit 8 (push_bit 8 (push_bit 8 0 OR ucast b) OR ucast b) OR ucast b) OR ucast b :: u32) =
      ucast b OR push_bit 8 (ucast b) OR push_bit 16 (ucast b) OR push_bit 24 (ucast b)"
    by (simp add: push_bit_or or.assoc or.commute or.left_commute)
  then show ?thesis by (simp only: le32_bytes) (simp add: numeral_eq_Suc)
qed

lemma memset_words_eq:
  assumes "le32 cl = replicate 4 c" and "p + n \<le> length m"
  shows "memset_words m p cl n = Some (patch p (replicate (n div 4 * 4) c) m, p + n div 4 * 4, n mod 4)"
  using assms(2)
proof (induction n arbitrary: m p rule: less_induct)
  case (less n)
  show ?case
  proof (cases "4 \<le> n")
    case False
    then show ?thesis using less.prems by (subst memset_words.simps) simp
  next
    case True
    let ?m = "patch p (replicate 4 c) m"
    have d: "n div 4 * 4 = 4 + (n - 4) div 4 * 4" "(n - 4) mod 4 = n mod 4"
      using True by (simp_all add: le_div_geq le_mod_geq)
    have "memset_words m p cl n = memset_words ?m (p + 4) cl (n - 4)"
      using True less.prems assms(1) by (subst memset_words.simps) (simp add: sto32_def memcpy_at_def)
    also have "\<dots> = Some (patch (p + 4) (replicate ((n - 4) div 4 * 4) c) ?m, p + 4 + (n - 4) div 4 * 4, (n - 4) mod 4)"
      using True less.prems by (intro less.IH) simp_all
    also have "patch (p + 4) (replicate ((n - 4) div 4 * 4) c) ?m = patch p (replicate (n div 4 * 4) c) m"
    proof -
      have "(n - 4) div 4 * 4 \<le> n - 4" by simp
      then show ?thesis
        using patch_split [of p "replicate 4 c" "replicate ((n - 4) div 4 * 4) c" m] True less.prems
        by (simp add: d(1) replicate_add)
    qed
    finally show ?thesis using d by (simp add: add.assoc)
  qed
qed

lemma memset_eq:
  assumes "p + n \<le> length m"
  shows "memset base m p c n = Some (patch p (replicate n (ucast c)) m)"
proof (cases "(base + of_nat p) AND 3 = 0")
  case False
  then show ?thesis using memset_bytes_eq [OF assms] by (simp add: memset_def)
next
  case True
  let ?b = "ucast c :: byte"
  have b: "c AND 0xff = ucast ?b"
  proof -
    define m :: u32 where "m = mask 8"
    have m: "0xff = m" by (simp add: m_def mask_eq_exp_minus_1)
    have "bit m i \<longleftrightarrow> i < 8" if "i < 32" for i using that by (simp add: m_def bit_mask_iff)
    then show ?thesis unfolding m by (intro bit_word_eqI) (auto simp: bit_and_iff bit_ucast_iff)
  qed
  let ?k = "n div 4 * 4"
  have k: "?k + n mod 4 = n" by simp
  have w: "memset_words m p (push_bit 8 (push_bit 8 (push_bit 8 (push_bit 8 0 OR ucast ?b) OR ucast ?b) OR ucast ?b) OR ucast ?b) n =
      Some (patch p (replicate ?k ?b) m, p + ?k, n mod 4)"
    by (rule memset_words_eq [OF le32_repeat assms])
  have "memset_bytes (patch p (replicate ?k ?b) m) (p + ?k) ?b (n mod 4) =
      Some (patch (p + ?k) (replicate (n mod 4) ?b) (patch p (replicate ?k ?b) m))"
    using assms k by (intro memset_bytes_eq) simp
  also have "patch (p + ?k) (replicate (n mod 4) ?b) (patch p (replicate ?k ?b) m) = patch p (replicate n ?b) m"
    using patch_split [of p "replicate ?k ?b" "replicate (n mod 4) ?b" m] assms k
    by (simp add: replicate_add [symmetric] del: replicate_add)
  finally show ?thesis using True w by (simp add: memset_def b Let_def)
qed

section \<open>String operations\<close>

text \<open>\<^verbatim>\<open>strcpy\<close> copies the string with its terminator, also over an overlap downwards.\<close>

lemma strcpy_eq:
  assumes "str_at m src s" and "dest + length s < length m" and "dest \<le> src \<or> src + length s < dest"
  shows "strcpy_loop m dest src = Some (patch dest (s @ [0]) m)"
  using assms
proof (induction s arbitrary: m dest src)
  case Nil
  then show ?case by (subst strcpy_loop.simps) (simp add: str_at_simps sto_def upd_patch)
next
  case (Cons c s)
  let ?m = "m[dest := c]"
  have c: "c \<noteq> 0" "ld m src = Some c" "str_at m (Suc src) s" using Cons.prems(1) by (simp_all add: str_at_simps)
  have "str_at ?m (Suc src) s"
    using Cons.prems by (intro str_at_frame [OF c(3)]) (auto simp: nth_list_update)
  then have "strcpy_loop ?m (Suc dest) (Suc src) = Some (patch (Suc dest) (s @ [0]) ?m)"
    using Cons.prems by (intro Cons.IH) auto
  moreover have "patch (Suc dest) (s @ [0]) ?m = patch dest (c # s @ [0]) m"
    using patch_split [of dest "[c]" "s @ [0]" m] Cons.prems by (simp add: upd_patch)
  ultimately show ?case
    using c Cons.prems by (subst strcpy_loop.simps) (simp add: sto_def)
qed

lemma strcat_eq:
  assumes "str_at m dest d" and "str_at m src s" and "dest + length d + length s < length m"
    and "dest + length d + length s < src \<or> src + length s < dest"
  shows "strcat m dest src = Some (patch (dest + length d) (s @ [0]) m)"
proof -
  have "strcpy_loop m (dest + length d) src = Some (patch (dest + length d) (s @ [0]) m)"
    using assms by (intro strcpy_eq) auto
  then show ?thesis using assms(1) by (simp add: strcat_def str_end_eq)
qed

lemma strncat_loop_eq:
  assumes "str_at m src s" and "dest + length s < length m" and "0 < n"
    and "dest + length s < src \<or> src + length s < dest"
  shows "strncat_loop m dest src n = Some (patch dest (take n s @ [0]) m)"
  using assms
proof (induction s arbitrary: m dest src n)
  case Nil
  then obtain k where "n = Suc k" by (cases n) auto
  then show ?case using Nil by (simp add: str_at_simps sto_def upd_patch)
next
  case (Cons c s)
  obtain k where k: "n = Suc k" using Cons.prems(3) by (cases n) auto
  let ?m = "m[dest := c]"
  have c: "c \<noteq> 0" "ld m src = Some c" "str_at m (Suc src) s" using Cons.prems(1) by (simp_all add: str_at_simps)
  show ?case
  proof (cases "k = 0")
    case True
    then show ?thesis
      using k c Cons.prems patch_split [of dest "[c]" "[0]" m] by (simp add: sto_def upd_patch)
  next
    case False
    have "str_at ?m (Suc src) s"
      using Cons.prems by (intro str_at_frame [OF c(3)]) (auto simp: nth_list_update)
    then have "strncat_loop ?m (Suc dest) (Suc src) k = Some (patch (Suc dest) (take k s @ [0]) ?m)"
      using Cons.prems False by (intro Cons.IH) auto
    moreover have "patch (Suc dest) (take k s @ [0]) ?m = patch dest (c # take k s @ [0]) m"
      using patch_split [of dest "[c]" "take k s @ [0]" m] Cons.prems by (simp add: upd_patch)
    ultimately show ?thesis using k c Cons.prems False by (simp add: sto_def)
  qed
qed

lemma str_at_patch:
  assumes "0 \<notin> set s" and "p + length s < length m"
  shows "str_at (patch p (s @ [0]) m) p s"
  using assms by (intro str_atI) (auto simp: nth_patch nth_append)

lemma strncat_eq:
  assumes d: "str_at m dest d" and s: "str_at m src s" and fit: "dest + length d + length s < length m"
    and sep: "dest + length d + length s < src \<or> src + length s < dest"
  shows "\<exists>m'. strncat m dest src n = Some m' \<and> str_at m' dest (d @ take n s)
    \<and> (\<forall>i. i < dest \<or> dest + length d + length s < i \<longrightarrow> i < length m \<longrightarrow> m' ! i = m ! i)"
proof (cases "n = 0")
  case True
  then show ?thesis using d by (simp add: strncat_def)
next
  case False
  let ?q = "dest + length d"
  let ?m = "patch ?q (take n s @ [0]) m"
  have "strncat_loop m ?q src n = Some ?m"
    using False by (intro strncat_loop_eq s fit) (use sep in auto)
  moreover have "str_at ?m dest (d @ take n s)"
  proof (rule str_atI)
    show "0 \<notin> set (d @ take n s)" using d s by (auto simp: str_at_def dest: in_set_takeD)
    have lt: "length (take n s) \<le> length s" by simp
    show "dest + length (d @ take n s) < length ?m" using fit lt by simp
    show "?m ! (dest + i) = (d @ take n s) ! i" if "i < length (d @ take n s)" for i
      using that fit lt str_at_nth [OF d, of i] by (auto simp: nth_patch nth_append)
    show "?m ! (dest + length (d @ take n s)) = 0" using fit lt by (simp add: nth_patch nth_append)
  qed
  moreover have "?m ! i = m ! i" if "i < dest \<or> dest + length d + length s < i" "i < length m" for i
    using that fit by (auto simp: nth_patch)
  ultimately show ?thesis using False d by (simp add: strncat_def str_end_eq)
qed

text \<open>Sets of characters.\<close>

lemma str_mem_eq: "str_at m a s \<Longrightarrow> str_mem m c a = Some (c \<in> set s)"
  by (induction s arbitrary: a) (subst str_mem.simps, auto simp: str_at_simps)+

lemma strspn_eq:
  assumes "str_at m p s" and "str_at m a t"
  shows "strspn m p a = Some (length (takeWhile (\<lambda>c. c \<in> set t) s))"
proof -
  have "strspn_loop m p a k = Some (k + length (takeWhile (\<lambda>c. c \<in> set t) s))" for k
    using assms(1)
  proof (induction s arbitrary: p k)
    case (Cons c s)
    then show ?case using assms(2) by (subst strspn_loop.simps) (simp add: str_at_simps str_mem_eq)
  qed (subst strspn_loop.simps, simp add: str_at_simps)
  then show ?thesis by (simp add: strspn_def)
qed

lemma strpbrk_eq:
  assumes "str_at m p s" and "str_at m a t"
  shows "strpbrk m p a = Some (let n = length (takeWhile (\<lambda>c. c \<notin> set t) s) in if n < length s then Some (p + n) else None)"
  using assms(1)
proof (induction s arbitrary: p)
  case (Cons c s)
  then show ?case using assms(2) by (subst strpbrk.simps) (simp add: str_at_simps str_mem_eq Let_def)
qed (subst strpbrk.simps, simp add: str_at_simps)

text \<open>Splitting a string in memory by overwriting one of its characters with NUL.\<close>

lemma str_at_suffix: "str_at m p (a @ b) \<Longrightarrow> str_at m (p + length a) b"
proof (induction a arbitrary: p)
  case (Cons c a)
  then show ?case using Cons.IH [of "Suc p"] by (simp add: str_at_simps)
qed simp

lemma str_at_cut:
  assumes "str_at m p (a @ c # b)"
  shows "sto m (p + length a) 0 = Some (m[p + length a := 0])"
    and "str_at (m[p + length a := 0]) p a" and "str_at (m[p + length a := 0]) (p + length a + 1) b"
proof -
  have len: "p + length a + length b + 1 < length m" using str_at_length [OF assms] by simp
  have z: "0 \<notin> set a" "0 \<notin> set b" using assms by (auto simp: str_at_def)
  show "sto m (p + length a) 0 = Some (m[p + length a := 0])" using len by (simp add: sto_def)
  show "str_at (m[p + length a := 0]) p a"
    using z len str_at_nth [OF assms] by (intro str_atI) (auto simp: nth_append nth_list_update)
  have "str_at m (p + length a + 1) b" using str_at_suffix [of m p "a @ [c]" b] assms by simp
  then show "str_at (m[p + length a := 0]) (p + length a + 1) b"
    by (rule str_at_frame) auto
qed

text \<open>The delimiters are not disturbed by the cut.\<close>

definition apart :: "nat \<Rightarrow> byte list \<Rightarrow> nat \<Rightarrow> byte list \<Rightarrow> bool" where
  "apart p s q t \<longleftrightarrow> p + length s < q \<or> q + length t < p"

lemma str_at_upd:
  assumes "str_at m q t" and "i < q \<or> q + length t < i"
  shows "str_at (m[i := c]) q t"
  by (rule str_at_frame [OF assms(1)]) (use assms(2) in auto)

lemma strsep_split:
  assumes s: "str_at m p s" and t: "str_at m ct t" and "apart p s ct t"
  shows "strsep m (Some p) ct =
     (let a = takeWhile (\<lambda>c. c \<notin> set t) s in
      if length a < length s then Some (Some p, Some (p + length a + 1), m[p + length a := 0])
      else Some (Some p, None, m))"
proof -
  let ?a = "takeWhile (\<lambda>c. c \<notin> set t) s"
  have "strpbrk m p ct = Some (if length ?a < length s then Some (p + length ?a) else None)"
    using strpbrk_eq [OF s t] by (simp add: Let_def)
  moreover have "p + length ?a < length m"
    using str_at_length [OF s] length_takeWhile_le [of "\<lambda>c. c \<notin> set t" s] by simp
  ultimately show ?thesis by (simp add: strsep_def sto_def Let_def)
qed

text \<open>\<^verbatim>\<open>strtok\<close>: skip delimiters, then the token up to the next one.\<close>

lemma strtok_token:
  assumes s: "str_at m p s" and t: "str_at m ct t" and sep: "apart p s ct t"
  defines "n \<equiv> length (takeWhile (\<lambda>c. c \<in> set t) s)"
    and "tok \<equiv> takeWhile (\<lambda>c. c \<notin> set t) (dropWhile (\<lambda>c. c \<in> set t) s)"
    and "rest \<equiv> dropWhile (\<lambda>c. c \<notin> set t) (dropWhile (\<lambda>c. c \<in> set t) s)"
  shows "\<exists>q m'. strtok m st (Some p) ct = Some (if tok = [] then None else Some (p + n), q, m') \<and> str_at m' ct t
    \<and> (tok \<noteq> [] \<longrightarrow> str_at m' (p + n) tok)
    \<and> (case q of None \<Rightarrow> rest = [] | Some q \<Rightarrow> str_at m' q (tl rest) \<and> rest \<noteq> [] \<and> apart q (tl rest) ct t)"
proof -
  let ?d = "dropWhile (\<lambda>c. c \<in> set t) s"
  have split: "s = takeWhile (\<lambda>c. c \<in> set t) s @ ?d" "?d = tok @ rest"
    by (simp_all add: tok_def rest_def)
  have d: "str_at m (p + n) ?d"
    using str_at_suffix [of m p "takeWhile (\<lambda>c. c \<in> set t) s" ?d] s by (simp add: n_def)
  have sp: "strspn m p ct = Some n" using strspn_eq [OF s t] by (simp add: n_def)
  have le: "n + length ?d = length s" using split(1) unfolding n_def by (metis length_append)
  show ?thesis
  proof (cases "?d = []")
    case True
    have "ld m (p + n) = Some 0" using d unfolding True by (simp add: str_at_simps)
    moreover have "tok = []" "rest = []" unfolding tok_def rest_def True by simp_all
    ultimately show ?thesis using sp t by (simp add: strtok_def)
  next
    case False
    then obtain c d' where cd: "?d = c # d'" by (cases ?d) auto
    then have "c \<notin> set t" using hd_dropWhile [of "\<lambda>c. c \<in> set t" s] by auto
    then have ne: "tok \<noteq> []" using cd by (simp add: tok_def)
    have ld: "ld m (p + n) = Some c" "c \<noteq> 0" using d cd by (simp_all add: str_at_simps)
    have pb: "strpbrk m (p + n) ct = Some (if length tok < length ?d then Some (p + n + length tok) else None)"
      using strpbrk_eq [OF d t] by (simp add: tok_def Let_def)
    show ?thesis
    proof (cases rest)
      case Nil
      then have "strtok m st (Some p) ct = Some (Some (p + n), None, m)"
        using sp ld pb split(2) by (simp add: strtok_def)
      then show ?thesis using ne t d Nil split(2) by simp
    next
      case (Cons x r)
      have cut: "str_at m (p + n) (tok @ x # r)" using d split(2) Cons by simp
      note c = str_at_cut [OF cut]
      let ?m = "m[p + n + length tok := 0]"
      have "strtok m st (Some p) ct = Some (Some (p + n), Some (p + n + length tok + 1), ?m)"
        using sp ld pb split(2) Cons c(1) by (simp add: strtok_def Let_def)
      moreover have "length tok + length r + 1 = length ?d" using split(2) Cons by simp
      moreover have "str_at ?m ct t"
        using sep le t split(2) Cons by (intro str_at_upd) (auto simp: apart_def)
      ultimately show ?thesis using ne c Cons sep le by (auto simp: apart_def)
    qed
  qed
qed


text \<open>\<^verbatim>\<open>strstr\<close> finds the first occurrence.\<close>

lemma memcmp_0:
  assumes "p + n \<le> length m" and "q + n \<le> length m"
  shows "\<exists>c. memcmp m p q n = Some c \<and> (c = 0 \<longleftrightarrow> take n (drop p m) = take n (drop q m))"
  using assms
proof (induction n arbitrary: p q)
  case (Suc n)
  have d: "drop p m = m ! p # drop (Suc p) m" "drop q m = m ! q # drop (Suc q) m"
    using Suc.prems by (simp_all add: Cons_nth_drop_Suc)
  show ?case
    using Suc.IH [of "Suc p" "Suc q"] Suc.prems
    by (cases "m ! p = m ! q") (auto simp: ld_def d word_uint_eq_iff Let_def)
qed simp

definition occurs :: "byte list \<Rightarrow> byte list \<Rightarrow> nat \<Rightarrow> bool" where
  "occurs t s i \<longleftrightarrow> i + length t \<le> length s \<and> take (length t) (drop i s) = t"

lemma str_at_slice:
  "str_at m p s \<Longrightarrow> i + n \<le> length s \<Longrightarrow> take n (drop (p + i) m) = take n (drop i s)"
proof -
  assume "str_at m p s" "i + n \<le> length s"
  then obtain r where "drop p m = s @ 0 # r" by (auto simp: str_at_def)
  then have "drop (p + i) m = drop i (s @ 0 # r)" by (metis add.commute drop_drop)
  then show ?thesis using \<open>i + n \<le> length s\<close> by simp
qed

lemma strstr_loop_first:
  assumes "str_at m p s" and "str_at m q t" and "0 < length t" and "i \<le> length s"
    and "\<forall>j < i. \<not> occurs t s j"
  shows "\<exists>r. strstr_loop m (p + i) q (length s - i) (length t) = Some r
    \<and> (case r of None \<Rightarrow> \<forall>j. \<not> occurs t s j | Some x \<Rightarrow> \<exists>k. x = p + k \<and> occurs t s k \<and> (\<forall>j < k. \<not> occurs t s j))"
  using assms(4,5)
proof (induction "length s - i" arbitrary: i)
  case 0
  have "\<not> occurs t s j" for j
  proof (cases "j < i")
    case False
    then show ?thesis using 0 assms(3) by (auto simp: occurs_def)
  qed (use 0 in simp)
  then show ?case using 0 assms(3) by (subst strstr_loop.simps) simp
next
  case (Suc k)
  show ?case
  proof (cases "length t \<le> length s - i")
    case False
    then have "\<not> occurs t s j" for j
      using Suc.prems(2) by (cases "j < i") (auto simp: occurs_def)
    then show ?thesis using False by (subst strstr_loop.simps) simp
  next
    case True
    have fit: "p + i + length t \<le> length m" "q + length t \<le> length m"
      using str_at_length [OF assms(1)] str_at_length [OF assms(2)] True Suc.prems(1) by simp_all
    obtain c where c: "memcmp m (p + i) q (length t) = Some c"
      "c = 0 \<longleftrightarrow> take (length t) (drop (p + i) m) = take (length t) (drop q m)"
      using memcmp_0 [OF fit] by blast
    have "take (length t) (drop q m) = t" using str_at_slice [OF assms(2), of 0 "length t"] by simp
    moreover have "take (length t) (drop (p + i) m) = take (length t) (drop i s)"
      using str_at_slice [OF assms(1), of i "length t"] True Suc.hyps(2) by simp
    ultimately have oc: "c = 0 \<longleftrightarrow> occurs t s i" using c(2) True Suc.hyps(2) by (auto simp: occurs_def)
    show ?thesis
    proof (cases "occurs t s i")
      case True
      then show ?thesis using c(1) oc \<open>length t \<le> length s - i\<close> Suc.prems(2)
        by (subst strstr_loop.simps) auto
    next
      case False
      have "\<forall>j < Suc i. \<not> occurs t s j" using Suc.prems(2) False by (auto simp: less_Suc_eq)
      moreover have "k = length s - Suc i" "Suc i \<le> length s" using Suc.hyps(2) by simp_all
      ultimately have "\<exists>r. strstr_loop m (p + Suc i) q (length s - Suc i) (length t) = Some r
          \<and> (case r of None \<Rightarrow> \<forall>j. \<not> occurs t s j | Some x \<Rightarrow> \<exists>k. x = p + k \<and> occurs t s k \<and> (\<forall>j < k. \<not> occurs t s j))"
        using Suc.hyps(1) [of "Suc i"] by blast
      moreover have "strstr_loop m (p + i) q (length s - i) (length t) =
          strstr_loop m (p + Suc i) q (length s - Suc i) (length t)"
      proof -
        have "length s - i = Suc (length s - Suc i)" using Suc.hyps(2) by simp
        then show ?thesis
          using c(1) oc False \<open>length t \<le> length s - i\<close> by (subst strstr_loop.simps) (simp split: nat.splits)
      qed
      ultimately show ?thesis by simp
    qed
  qed
qed

text \<open>\<^verbatim>\<open>strim\<close>\<close>

lemma isspace_0 [simp]: "\<not> isspace 0"
  by (simp add: isspace_def ismask_def ctype_table_def ct_defs nth_append)

lemma skip_spaces_eq:
  "str_at m p s \<Longrightarrow> skip_spaces m p = Some (p + length (takeWhile isspace s))"
  by (induction s arbitrary: p) (subst skip_spaces.simps, simp add: str_at_simps)+

lemma strim_end_eq:
  assumes "str_at m p s" and "n \<le> length s"
  shows "strim_end m p n = Some (length (rev (dropWhile isspace (rev (take n s)))))"
  using assms(2)
proof (induction n)
  case (Suc n)
  have "ld m (p + n) = Some (s ! n)"
    using str_at_nth [OF assms(1), of n] str_at_length [OF assms(1)] Suc.prems by (simp add: ld_def)
  moreover have "take (Suc n) s = take n s @ [s ! n]" using Suc.prems by (simp add: take_Suc_conv_app_nth)
  ultimately show ?case using Suc by simp
qed simp


section \<open>Properties\<close>

text \<open>C27. \<^verbatim>\<open>memmove\<close> copies the area as it was before the call, however source and destination overlap,
  and changes nothing else.\<close>

theorem memmove_correct:
  assumes "src + n \<le> length m" and "dest + n \<le> length m"
  shows "memmove m dest src n = Some (patch dest (take n (drop src m)) m)"
  by (rule memmove_eq [OF assms])

theorem memmove_correct_witness:
  "memmove [1, 2, 3, 4, 5] 1 0 3 = Some (patch 1 (take 3 (drop 0 [1, 2, 3, 4, 5])) [1, 2, 3, 4, 5])"
  by (rule memmove_correct) simp_all

text \<open>\<^verbatim>\<open>memcpy\<close>, word by word where both pointers are aligned, equals the byte copy for every
  alignment, and also for areas that overlap as long as the destination is the lower one.\<close>

lemma memcpy_correct:
  assumes "src + n \<le> length m" and "dest + n \<le> length m" and "dest \<le> src \<or> src + n \<le> dest"
  shows "memcpy base m dest src n = Some (patch dest (take n (drop src m)) m)
    \<and> memcpy base m dest src n = bcopy m src dest n"
  using memcpy_eq [OF assms] copy_up_eq [OF assms] by (simp add: bcopy_def)

text \<open>\<^verbatim>\<open>strtok\<close> hands out the next run of characters that are not delimiters as a string of its own, and
  leaves the rest of the string behind the delimiter for the next call; NULL when only delimiters
  are left.\<close>

lemma strtok_splits:
  assumes "str_at m p s" and "str_at m ct t" and "apart p s ct t"
  shows "let n = length (takeWhile (\<lambda>c. c \<in> set t) s);
             tok = takeWhile (\<lambda>c. c \<notin> set t) (drop n s);
             rest = drop (length tok) (drop n s)
         in \<exists>q m'. strtok m st (Some p) ct = Some (if tok = [] then None else Some (p + n), q, m') \<and> str_at m' ct t
           \<and> (tok \<noteq> [] \<longrightarrow> str_at m' (p + n) tok)
           \<and> (case q of None \<Rightarrow> rest = [] | Some q \<Rightarrow> str_at m' q (tl rest) \<and> rest \<noteq> [] \<and> apart q (tl rest) ct t)"
proof -
  have d: "drop (length (takeWhile P xs)) xs = dropWhile P xs" for P and xs :: "byte list"
    by (rule dropWhile_eq_drop [symmetric])
  show ?thesis
    unfolding Let_def d by (rule strtok_token [OF assms])
qed

text \<open>\<^verbatim>\<open>strstr\<close> returns the first position at which the search string occurs, and NULL when it
  occurs nowhere.\<close>

lemma strstr_finds_first:
  assumes "str_at m p s" and "str_at m q t"
  shows "\<exists>r. strstr m p q = Some r
    \<and> (case r of None \<Rightarrow> \<forall>j. \<not> occurs t s j | Some x \<Rightarrow> \<exists>k. x = p + k \<and> occurs t s k \<and> (\<forall>j < k. \<not> occurs t s j))"
proof (cases "t = []")
  case True
  then show ?thesis using strlen_eq [OF assms(2)] by (simp add: strstr_def occurs_def)
next
  case False
  then show ?thesis
    using strlen_eq [OF assms(1)] strlen_eq [OF assms(2)] strstr_loop_first [OF assms, of 0]
    by (simp add: strstr_def)
qed

text \<open>\<^verbatim>\<open>strim\<close> returns the string without the white space at its two ends.\<close>

lemma strim_trims:
  assumes "str_at m p s"
  shows "\<exists>q m'. strim m p = Some (q, m')
    \<and> str_at m' q (rev (dropWhile isspace (rev (dropWhile isspace s))))"
proof -
  let ?d = "dropWhile isspace s"
  let ?n = "length (takeWhile isspace s)"
  let ?r = "rev (dropWhile isspace (rev ?d))"
  have d: "str_at m (p + ?n) ?d"
    using str_at_suffix [of m p "takeWhile isspace s" ?d] assms by simp
  note sk = skip_spaces_eq [OF assms] and sl = strlen_eq [OF d]
  show ?thesis
  proof (cases "?d = []")
    case True
    have "strim m p = Some (p + ?n, m)" using sk sl unfolding True by (simp add: strim_def)
    then show ?thesis using d unfolding True by simp
  next
    case False
    have n: "strim_end m (p + ?n) (length ?d) = Some (length ?r)"
      using strim_end_eq [OF d, of "length ?d"] by simp
    obtain u where u: "?d = ?r @ u"
      by (metis append_Nil2 rev_append rev_rev_ident takeWhile_dropWhile_id)
    have "\<exists>m'. sto m (p + ?n + length ?r) 0 = Some m' \<and> str_at m' (p + ?n) ?r"
    proof (cases u)
      case Nil
      then have r: "str_at m (p + ?n) ?r" using d u by simp
      have "sto m (p + ?n + length ?r) 0 = Some (m[p + ?n + length ?r := 0])"
        using str_at_length [OF r] by (simp add: sto_def)
      moreover have "m[p + ?n + length ?r := 0] = m"
        using str_at_NUL [OF r] by (metis list_update_id)
      ultimately show ?thesis using r by simp
    next
      case (Cons c v)
      then have "str_at m (p + ?n) (?r @ c # v)" using d u by simp
      from str_at_cut [OF this] show ?thesis by blast
    qed
    then obtain m' where "sto m (p + ?n + length ?r) 0 = Some m'" "str_at m' (p + ?n) ?r" by blast
    then show ?thesis using sk sl n False by (auto simp: strim_def)
  qed
qed

end
