(* ===== verification/Hashtable.thy ===== *)
theory Hashtable
  imports Cstring
begin

text \<open>
  The hash table of the environment, \<^verbatim>\<open>u-boot32/lib/hashtable.c\<close>: open addressing with double
  hashing in a table whose size is meant to be a prime, deleted entries as tombstones. The export and
  import of the contents as text is in \<open>Env_Text\<close>.
\<close>

section \<open>Types\<close>

datatype errno = EINVAL | ENOMEM | ESRCH
datatype ACTION = FIND | ENTER

text \<open>A slot \<^verbatim>\<open>_ENTRY\<close>: \<^verbatim>\<open>used\<close> is 0 for free, -1 for deleted, otherwise the first hash of the key.
  The strings are NULL (\<open>None\<close>) in a fresh slot and after a failed allocation.\<close>

record hslot =
  used :: int
  ent_key :: "byte list option"
  ent_data :: "byte list option"

record hsearch_data =
  htab_table :: "hslot list option"
  htab_size :: u32
  htab_filled :: u32

text \<open>The return value with the slot \<^verbatim>\<open>*retval\<close> points to, or 0 with NULL and \<^verbatim>\<open>errno\<close>.\<close>

datatype hresult = Hfound nat nat | Herror errno

section \<open>Creating and destroying\<close>

partial_function (option) isprime_loop :: "u32 \<Rightarrow> u32 \<Rightarrow> u32 option" where
  "isprime_loop nr dv =
     (if dv * dv < nr \<and> nr mod dv \<noteq> 0 then isprime_loop nr (dv + 2) else Some dv)"

definition isprime :: "u32 \<Rightarrow> bool option" where
  "isprime nr = do { dv \<leftarrow> isprime_loop nr 3; Some (nr mod dv \<noteq> 0) }"

partial_function (option) hcreate_loop :: "u32 \<Rightarrow> u32 option" where
  "hcreate_loop nel = do { p \<leftarrow> isprime nel; if \<not> p then hcreate_loop (nel + 2) else Some nel }"

definition fresh_slot :: hslot where
  "fresh_slot = \<lparr>used = 0, ent_key = None, ent_data = None\<rparr>"

text \<open>\<open>mem\<close> says which requests \<^verbatim>\<open>malloc\<close> can satisfy. An \<^verbatim>\<open>_ENTRY\<close> has 12 bytes.\<close>

definition hcreate_r :: "(nat \<Rightarrow> bool) \<Rightarrow> u32 \<Rightarrow> hsearch_data \<Rightarrow> (nat \<times> hsearch_data) option" where
  "hcreate_r mem nel htab =
     (case htab_table htab of
        Some _ \<Rightarrow> Some (0, htab)
      | None \<Rightarrow> do {
          nel \<leftarrow> hcreate_loop (nel OR 1);
          let htab = htab\<lparr>htab_size := nel, htab_filled := 0\<rparr>;
          if mem (unat (nel + 1) * 12)
          then Some (1, htab\<lparr>htab_table := Some (replicate (unat (nel + 1)) fresh_slot)\<rparr>)
          else Some (0, htab)
        })"

definition hdestroy_r :: "hsearch_data \<Rightarrow> hsearch_data" where
  "hdestroy_r htab = htab\<lparr>htab_table := None\<rparr>"

section \<open>Searching and entering\<close>

text \<open>The hash of a key: its length, then its characters from the last to the first.\<close>

definition hash_key :: "byte list \<Rightarrow> u32" where
  "hash_key key = foldl (\<lambda>hval c. push_bit 4 hval + ucast c) (of_nat (length key)) (rev key)"

definition first_hash :: "u32 \<Rightarrow> byte list \<Rightarrow> nat" where
  "first_hash sz key = (let hval = unat (hash_key key mod sz) in if hval = 0 then hval + 1 else hval)"

definition second_hash :: "u32 \<Rightarrow> nat \<Rightarrow> nat" where
  "second_hash sz hval = 1 + unat (of_nat hval mod (sz - 2))"

text \<open>Is the slot in use for this key? Comparing with a NULL key has no defined result.\<close>

definition slot_match :: "nat \<Rightarrow> byte list \<Rightarrow> hslot \<Rightarrow> bool option" where
  "slot_match hval key s =
     (if used s = int hval then (case ent_key s of None \<Rightarrow> None | Some k \<Rightarrow> Some (strcmp key k = 0))
      else Some False)"

definition get_slot :: "hslot list \<Rightarrow> nat \<Rightarrow> hslot option" where
  "get_slot tab i = (if i < length tab then Some (tab ! i) else None)"

definition probe_step :: "nat \<Rightarrow> nat \<Rightarrow> nat \<Rightarrow> nat" where
  "probe_step sz hval2 idx = (if idx \<le> hval2 then sz + idx - hval2 else idx - hval2)"

text \<open>The \<^verbatim>\<open>do\<close> loop: the index it ends at, and whether the key was found there.\<close>

partial_function (option) hsearch_probe ::
  "hslot list \<Rightarrow> nat \<Rightarrow> nat \<Rightarrow> nat \<Rightarrow> byte list \<Rightarrow> nat \<Rightarrow> (nat \<times> bool) option" where
  "hsearch_probe tab sz hval hval2 key idx = do {
     let idx = probe_step sz hval2 idx;
     if idx = hval then Some (idx, False)
     else do {
       s \<leftarrow> get_slot tab idx;
       found \<leftarrow> slot_match hval key s;
       if found then Some (idx, True)
       else if used s \<noteq> 0 then hsearch_probe tab sz hval hval2 key idx
       else Some (idx, False)
     }
   }"

text \<open>An entry that was found: overwritten when there is data to enter.\<close>

definition hsearch_hit ::
  "(nat \<Rightarrow> bool) \<Rightarrow> byte list option \<Rightarrow> ACTION \<Rightarrow> hslot list \<Rightarrow> nat \<Rightarrow> hsearch_data \<Rightarrow> hresult \<times> hsearch_data" where
  "hsearch_hit mem data action tab idx htab =
     (if action = ENTER \<and> data \<noteq> None then
        let d = strdup mem data;
            htab = htab\<lparr>htab_table := Some (tab[idx := (tab ! idx)\<lparr>ent_data := d\<rparr>])\<rparr>
        in (case d of None \<Rightarrow> (Herror ENOMEM, htab) | Some _ \<Rightarrow> (Hfound idx idx, htab))
      else (Hfound idx idx, htab))"

text \<open>The part behind the search.\<close>

definition hsearch_miss ::
  "(nat \<Rightarrow> bool) \<Rightarrow> byte list \<Rightarrow> byte list option \<Rightarrow> ACTION \<Rightarrow> hslot list \<Rightarrow> nat \<Rightarrow> nat \<Rightarrow> nat \<Rightarrow> hsearch_data \<Rightarrow>
   (hresult \<times> hsearch_data) option" where
  "hsearch_miss mem key data action tab hval idx first_deleted htab =
     (if action = ENTER then
        if htab_filled htab = htab_size htab then Some (Herror ENOMEM, htab)
        else
          let idx = (if first_deleted \<noteq> 0 then first_deleted else idx);
              k = strdup mem (Some key);
              d = strdup mem data;
              htab = htab\<lparr>htab_table := Some (tab[idx := \<lparr>used = int hval, ent_key = k, ent_data = d\<rparr>])\<rparr>
          in if \<not> idx < length tab then None
             else if k = None \<or> d = None then Some (Herror ENOMEM, htab)
             else Some (Hfound 1 idx, htab\<lparr>htab_filled := htab_filled htab + 1\<rparr>)
      else Some (Herror ESRCH, htab))"

definition hsearch_r ::
  "(nat \<Rightarrow> bool) \<Rightarrow> byte list \<Rightarrow> byte list option \<Rightarrow> ACTION \<Rightarrow> hsearch_data \<Rightarrow> (hresult \<times> hsearch_data) option" where
  "hsearch_r mem key data action htab = do {
     tab \<leftarrow> htab_table htab;
     if htab_size htab = 0 then None
     else do {
       let hval = first_hash (htab_size htab) key;
       s \<leftarrow> get_slot tab hval;
       if used s \<noteq> 0 then do {
         let first_deleted = (if used s = - 1 then hval else 0);
         found \<leftarrow> slot_match hval key s;
         if found then Some (hsearch_hit mem data action tab hval htab)
         else if htab_size htab = 2 then None
         else do {
           let hval2 = second_hash (htab_size htab) hval;
           (idx, found) \<leftarrow> hsearch_probe tab (unat (htab_size htab)) hval hval2 key hval;
           if found then Some (hsearch_hit mem data action tab idx htab)
           else hsearch_miss mem key data action tab hval idx first_deleted htab
         }
       }
       else hsearch_miss mem key data action tab hval hval 0 htab
     }
   }"

definition hdelete_r :: "byte list \<Rightarrow> hsearch_data \<Rightarrow> (nat \<times> hsearch_data) option" where
  "hdelete_r key htab = do {
     (r, _) \<leftarrow> hsearch_r (\<lambda>_. True) key None FIND htab;
     (case r of
        Herror _ \<Rightarrow> Some (0, htab)
      | Hfound ret idx \<Rightarrow> do {
          tab \<leftarrow> htab_table htab;
          Some (1, htab\<lparr>htab_table := Some (tab[idx := (tab ! idx)\<lparr>used := - 1\<rparr>]),
                        htab_filled := htab_filled htab - 1\<rparr>)
        })
   }"

text \<open>The scans. Both stop before the last slot of the table.\<close>

definition str_contains :: "byte list \<Rightarrow> byte list \<Rightarrow> bool option" where
  "str_contains s t = do {
     r \<leftarrow> strstr (s @ 0 # t @ [0]) 0 (length s + 1);
     Some (r \<noteq> None)
   }"

function hstrstr_r :: "byte list \<Rightarrow> nat \<Rightarrow> hsearch_data \<Rightarrow> hresult option" where
  "hstrstr_r match last_idx htab =
     (let idx = last_idx + 1 in
      if idx < unat (htab_size htab) then do {
        tab \<leftarrow> htab_table htab;
        s \<leftarrow> get_slot tab idx;
        if used s \<le> 0 then hstrstr_r match idx htab
        else do {
          k \<leftarrow> ent_key s;
          in_key \<leftarrow> str_contains k match;
          if in_key then Some (Hfound idx idx)
          else do {
            d \<leftarrow> ent_data s;
            in_data \<leftarrow> str_contains d match;
            if in_data then Some (Hfound idx idx) else hstrstr_r match idx htab
          }
        }
      }
      else Some (Herror ESRCH))"
  by auto
termination by (relation "measure (\<lambda>(match, last_idx, htab). unat (htab_size htab) - last_idx)") auto

function hmatch_r :: "byte list \<Rightarrow> nat \<Rightarrow> hsearch_data \<Rightarrow> hresult option" where
  "hmatch_r match last_idx htab =
     (let idx = last_idx + 1 in
      if idx < unat (htab_size htab) then do {
        tab \<leftarrow> htab_table htab;
        s \<leftarrow> get_slot tab idx;
        if used s \<le> 0 then hmatch_r match idx htab
        else do {
          k \<leftarrow> ent_key s;
          if strncmp match k (length match) = 0 then Some (Hfound idx idx) else hmatch_r match idx htab
        }
      }
      else Some (Herror ESRCH))"
  by auto
termination by (relation "measure (\<lambda>(match, last_idx, htab). unat (htab_size htab) - last_idx)") auto

declare hstrstr_r.simps [simp del] hmatch_r.simps [simp del]

section \<open>Primes\<close>

definition prime_size :: "nat \<Rightarrow> bool" where
  "prime_size n \<longleftrightarrow> 5 \<le> n \<and> (\<forall>d. 1 < d \<and> d < n \<longrightarrow> \<not> d dvd n)"

lemma prime_size_coprime:
  assumes "prime_size n" and "0 < h" and "h < n"
  shows "coprime h n"
proof (rule ccontr)
  assume "\<not> coprime h n"
  then have "gcd h n \<noteq> 1" by (simp add: coprime_iff_gcd_eq_1)
  moreover have "gcd h n \<noteq> 0" "gcd h n \<le> h" using assms(2) by (auto intro: gcd_le1_nat)
  ultimately have "1 < gcd h n" "gcd h n < n" using assms(3) by linarith+
  then show False using assms(1) by (auto simp: prime_size_def)
qed

lemma mult_le_cancel_self: "g * g \<le> d * d \<Longrightarrow> g \<le> (d :: nat)"
  by (rule ccontr) (use mult_strict_mono [of d g d g] in auto)

lemma no_small_divisor:
  assumes n: "odd (n::nat)" "5 \<le> n" and d: "odd d" "n \<le> d * d" "\<not> d dvd n"
    and small: "\<And>e. odd e \<Longrightarrow> 3 \<le> e \<Longrightarrow> e < d \<Longrightarrow> \<not> e dvd n"
  shows "prime_size n"
  unfolding prime_size_def
proof (intro conjI allI impI notI)
  fix e
  assume e: "1 < e \<and> e < n" and "e dvd n"
  then obtain f where f: "n = e * f" by (auto simp: dvd_def)
  have oe: "odd e" "odd f" using n(1) f by auto
  have f1: "1 < f" using e f by (cases f) auto
  define g where "g = min e f"
  have g: "odd g" "1 < g" "g dvd n" "g * g \<le> n"
    using oe e f1 f by (auto simp: g_def min_def intro: mult_le_mono)
  have "3 \<le> g" using g(1,2) by presburger
  moreover have "g < d"
  proof -
    have "g * g \<le> d * d" using g(4) d(2) by simp
    then have "g \<le> d" by (rule mult_le_cancel_self)
    moreover have "g \<noteq> d" using g(3) d(3) by auto
    ultimately show ?thesis by simp
  qed
  ultimately show False using small [OF g(1)] g(3) by simp
qed (use n(2) in simp)

lemma isprime_loop_sound:
  assumes n: "odd (unat nr)" "5 \<le> unat nr" "unat nr < 2 ^ 31"
    and dv: "odd (unat dv)" "3 \<le> unat dv" "unat dv < 2 ^ 16"
    and small: "\<And>e. odd e \<Longrightarrow> 3 \<le> e \<Longrightarrow> e < unat dv \<Longrightarrow> \<not> e dvd unat nr"
  shows "\<exists>d. isprime_loop nr dv = Some d \<and> (nr mod d \<noteq> 0 \<longrightarrow> prime_size (unat nr))"
  using dv small
proof (induction "2 ^ 16 - unat dv" arbitrary: dv rule: less_induct)
  case less
  let ?n = "unat nr" and ?d = "unat dv"
  have "?d * ?d \<le> 65535 * 65535" using less.prems(3) by (intro mult_le_mono) simp_all
  then have sq: "unat (dv * dv) = ?d * ?d" by (simp add: unat_word_ariths)
  have md: "nr mod dv = 0 \<longleftrightarrow> ?d dvd ?n"
    by (metis dvd_eq_mod_eq_0 unat_eq_zero unat_mod)
  show ?case
  proof (cases "dv * dv < nr \<and> nr mod dv \<noteq> 0")
    case False
    have "nr mod dv \<noteq> 0 \<longrightarrow> prime_size ?n"
    proof
      assume "nr mod dv \<noteq> 0"
      then have "?n \<le> ?d * ?d" "\<not> ?d dvd ?n" using False md sq by (auto simp: word_less_nat_alt)
      then show "prime_size ?n" using no_small_divisor [OF n(1,2) less.prems(1)] less.prems(4) by blast
    qed
    then show ?thesis using False by (subst isprime_loop.simps) auto
  next
    case True
    have "?d * ?d < 2 ^ 31" using True sq n(3) by (simp add: word_less_nat_alt)
    have dl: "?d < 46341"
    proof (rule ccontr)
      assume "\<not> ?d < 46341"
      then have "46341 * 46341 \<le> ?d * ?d" by (intro mult_le_mono) simp_all
      then show False using \<open>?d * ?d < 2 ^ 31\<close> by simp
    qed
    have u: "unat (dv + 2) = ?d + 2" using dl by (simp add: unat_word_ariths)
    have "\<exists>d. isprime_loop nr (dv + 2) = Some d \<and> (nr mod d \<noteq> 0 \<longrightarrow> prime_size ?n)"
    proof (rule less.hyps)
      show "2 ^ 16 - unat (dv + 2) < 2 ^ 16 - ?d" using u dl by simp
      show "odd (unat (dv + 2))" "3 \<le> unat (dv + 2)" "unat (dv + 2) < 2 ^ 16" using u dl less.prems(1,2) by simp_all
      show "\<not> e dvd ?n" if "odd e" "3 \<le> e" "e < unat (dv + 2)" for e
      proof (cases "e < ?d")
        case True
        then show ?thesis using less.prems(4) that by blast
      next
        case False
        have "e = ?d \<or> e = ?d + 1" using False that(3) u by auto
        then have "e = ?d" using that(1) less.prems(1) by auto
        then show ?thesis using True md by simp
      qed
    qed
    then show ?thesis using True by (subst isprime_loop.simps) simp
  qed
qed

lemma isprime_sound:
  assumes "odd (unat nr)" and "5 \<le> unat nr" and "unat nr < 2 ^ 31"
  shows "\<exists>b. isprime nr = Some b \<and> (b \<longrightarrow> prime_size (unat nr))"
proof -
  have u: "unat (3 :: u32) = 3" by simp
  have "\<exists>d. isprime_loop nr 3 = Some d \<and> (nr mod d \<noteq> 0 \<longrightarrow> prime_size (unat nr))"
    by (rule isprime_loop_sound [OF assms]) (simp_all add: u)
  then obtain d where d: "isprime_loop nr 3 = Some d" "nr mod d \<noteq> 0 \<longrightarrow> prime_size (unat nr)"
    by (elim exE conjE)
  have "isprime nr = Some (nr mod d \<noteq> 0)" unfolding isprime_def d(1) by (simp only: bind.simps)
  then show ?thesis using d(2) by (intro exI conjI)
qed

lemma isprime_521: "isprime 521 = Some True"
proof -
  have "isprime_loop 521 3 = Some 23"
    by (simp add: isprime_loop.simps [of 521])
  then show ?thesis by (simp add: isprime_def)
qed

lemma hcreate_loop_521:
  assumes "odd (unat nel)" and "5 \<le> unat nel" and "unat nel \<le> 521"
  shows "\<exists>p. hcreate_loop nel = Some p \<and> prime_size (unat p) \<and> unat nel \<le> unat p \<and> unat p \<le> 521"
  using assms
proof (induction "521 - unat nel" arbitrary: nel rule: less_induct)
  case less
  obtain b where b: "isprime nel = Some b" "b \<longrightarrow> prime_size (unat nel)"
    using isprime_sound [of nel] less.prems by auto
  show ?case
  proof (cases b)
    case True
    then show ?thesis using b less.prems by (subst hcreate_loop.simps) simp
  next
    case False
    have "unat nel \<noteq> 521"
    proof
      assume "unat nel = 521"
      then have "nel = 521" by (simp add: word_unat_eq_iff)
      then show False using b(1) False isprime_521 by simp
    qed
    then have lt: "unat nel + 2 \<le> 521" using less.prems by presburger
    then have u: "unat (nel + 2) = unat nel + 2" by (simp add: unat_word_ariths)
    have "\<exists>p. hcreate_loop (nel + 2) = Some p \<and> prime_size (unat p) \<and> unat (nel + 2) \<le> unat p \<and> unat p \<le> 521"
      using less.prems lt u by (intro less.hyps) simp_all
    then show ?thesis using b False u by (subst hcreate_loop.simps) auto
  qed
qed

section \<open>The probe sequence\<close>

definition probe :: "nat \<Rightarrow> nat \<Rightarrow> nat \<Rightarrow> nat \<Rightarrow> nat" where
  "probe sz h1 h2 j = (probe_step sz h2 ^^ j) h1"

lemma probe_0 [simp]: "probe sz h1 h2 0 = h1"
  by (simp add: probe_def)

lemma probe_Suc: "probe sz h1 h2 (Suc j) = probe_step sz h2 (probe sz h1 h2 j)"
  by (simp add: probe_def)

lemma probe_residue:
  assumes "1 \<le> h1" and "h1 \<le> sz" and "1 \<le> h2" and "h2 < sz"
  shows "1 \<le> probe sz h1 h2 j \<and> probe sz h1 h2 j \<le> sz
    \<and> int (probe sz h1 h2 j) mod int sz = (int h1 - int j * int h2) mod int sz"
proof (induction j)
  case 0
  then show ?case using assms by simp
next
  case (Suc j)
  let ?i = "probe sz h1 h2 j"
  have r: "1 \<le> probe_step sz h2 ?i" "probe_step sz h2 ?i \<le> sz"
    using Suc assms by (auto simp: probe_step_def)
  have "int (probe_step sz h2 ?i) mod int sz = (int ?i - int h2) mod int sz"
  proof (cases "?i \<le> h2")
    case True
    then have "int (probe_step sz h2 ?i) = (int ?i - int h2) + int sz"
      using assms by (simp add: probe_step_def)
    then show ?thesis by simp
  qed (use assms in \<open>simp add: probe_step_def\<close>)
  also have "\<dots> = (int ?i mod int sz - int h2) mod int sz" by (simp add: mod_diff_left_eq)
  also have "\<dots> = ((int h1 - int j * int h2) mod int sz - int h2) mod int sz" using Suc by simp
  also have "\<dots> = (int h1 - int (Suc j) * int h2) mod int sz" by (simp add: mod_diff_left_eq algebra_simps)
  finally show ?case using r by (simp add: probe_Suc)
qed

lemma probe_inj:
  assumes sz: "prime_size sz" and h: "1 \<le> h1" "h1 \<le> sz" "1 \<le> h2" "h2 < sz"
    and j: "j < k" "k < sz + j" 
  shows "probe sz h1 h2 j \<noteq> probe sz h1 h2 k"
proof
  assume "probe sz h1 h2 j = probe sz h1 h2 k"
  then have "(int h1 - int j * int h2) mod int sz = (int h1 - int k * int h2) mod int sz"
    using probe_residue [OF h, of j] probe_residue [OF h, of k] by simp
  then have "int sz dvd (int h1 - int j * int h2) - (int h1 - int k * int h2)"
    by (simp add: mod_eq_dvd_iff)
  also have "(int h1 - int j * int h2) - (int h1 - int k * int h2) = int ((k - j) * h2)"
    using j(1) by (simp add: of_nat_diff algebra_simps)
  finally have "sz dvd (k - j) * h2" by (simp only: int_dvd_int_iff)
  moreover have "coprime sz h2"
    using prime_size_coprime [OF sz, of h2] h by (simp add: coprime_commute)
  ultimately have "sz dvd k - j" by (simp add: coprime_dvd_mult_left_iff)
  then show False using j by (auto dest: dvd_imp_le)
qed

lemma probe_surj:
  assumes sz: "prime_size sz" and h: "1 \<le> h1" "h1 \<le> sz" "1 \<le> h2" "h2 < sz" and i: "1 \<le> i" "i \<le> sz"
  shows "\<exists>j < sz. probe sz h1 h2 j = i"
proof -
  have inj: "inj_on (probe sz h1 h2) {..<sz}"
  proof (rule linorder_inj_onI)
    fix j k
    assume "j < k" "j \<in> {..<sz}" "k \<in> {..<sz}"
    then show "probe sz h1 h2 j \<noteq> probe sz h1 h2 k" by (intro probe_inj [OF sz h]) simp_all
  qed auto
  have "probe sz h1 h2 ` {..<sz} \<subseteq> {1..sz}" using probe_residue [OF h] by auto
  moreover have "card (probe sz h1 h2 ` {..<sz}) = card {1..sz}" using inj by (simp add: card_image)
  ultimately have "probe sz h1 h2 ` {..<sz} = {1..sz}" by (intro card_subset_eq) simp_all
  then have "i \<in> probe sz h1 h2 ` {..<sz}" using i by simp
  then show ?thesis by auto
qed

lemma probe_cycle:
  assumes sz: "prime_size sz" and h: "1 \<le> h1" "h1 \<le> sz" "1 \<le> h2" "h2 < sz"
  shows "probe sz h1 h2 sz = h1" and "0 < j \<Longrightarrow> j < sz \<Longrightarrow> probe sz h1 h2 j \<noteq> h1"
proof -
  have "(int h1 - int sz * int h2) mod int sz = int h1 mod int sz"
    by (metis diff_zero mod_diff_right_eq mod_mult_self1_is_0)
  then have "int (probe sz h1 h2 sz) mod int sz = int h1 mod int sz"
    using probe_residue [OF h, of sz] by simp
  then have "probe sz h1 h2 sz mod sz = h1 mod sz" by (simp flip: of_nat_mod)
  moreover have "1 \<le> probe sz h1 h2 sz" "probe sz h1 h2 sz \<le> sz" using probe_residue [OF h] by blast+
  ultimately show "probe sz h1 h2 sz = h1" using h(1,2)
    by (metis le_neq_implies_less mod_less mod_self not_one_le_zero)
  show "0 < j \<Longrightarrow> j < sz \<Longrightarrow> probe sz h1 h2 j \<noteq> h1"
    using probe_inj [OF sz h, of 0 j] by simp
qed

subsection \<open>The search loop\<close>

lemma hsearch_probe_step:
  assumes sz: "prime_size sz" and h: "1 \<le> h1" "h1 \<le> sz" "1 \<le> h2" "h2 < sz"
    and tab: "length tab = sz + 1" and j: "Suc j < sz"
    and m: "slot_match h1 key (tab ! probe sz h1 h2 (Suc j)) = Some b"
  shows "hsearch_probe tab sz h1 h2 key (probe sz h1 h2 j) =
    (if b then Some (probe sz h1 h2 (Suc j), True)
     else if used (tab ! probe sz h1 h2 (Suc j)) \<noteq> 0 then hsearch_probe tab sz h1 h2 key (probe sz h1 h2 (Suc j))
     else Some (probe sz h1 h2 (Suc j), False))"
proof -
  have "probe sz h1 h2 (Suc j) \<noteq> h1" using probe_cycle(2) [OF sz h] j by blast
  moreover have "get_slot tab (probe sz h1 h2 (Suc j)) = Some (tab ! probe sz h1 h2 (Suc j))"
    using probe_residue [OF h, of "Suc j"] tab by (simp add: get_slot_def)
  ultimately show ?thesis
    using m by (subst hsearch_probe.simps) (simp add: probe_Suc [symmetric] Let_def)
qed

lemma hsearch_probe_found:
  assumes sz: "prime_size sz" and h: "1 \<le> h1" "h1 \<le> sz" "1 \<le> h2" "h2 < sz"
    and tab: "length tab = sz + 1" and j: "j < j0" "j0 < sz"
    and m: "slot_match h1 key (tab ! probe sz h1 h2 j0) = Some True"
    and before: "\<And>i. j < i \<Longrightarrow> i < j0 \<Longrightarrow>
      used (tab ! probe sz h1 h2 i) \<noteq> 0 \<and> slot_match h1 key (tab ! probe sz h1 h2 i) = Some False"
  shows "hsearch_probe tab sz h1 h2 key (probe sz h1 h2 j) = Some (probe sz h1 h2 j0, True)"
  using j(1) before
proof (induction "j0 - j" arbitrary: j)
  case (Suc n)
  show ?case
  proof (cases "Suc j = j0")
    case True
    then show ?thesis using hsearch_probe_step [OF sz h tab, of j key True] m j(2) by simp
  next
    case False
    then have lt: "Suc j < j0" using Suc.prems(1) by simp
    have "hsearch_probe tab sz h1 h2 key (probe sz h1 h2 (Suc j)) = Some (probe sz h1 h2 j0, True)"
      using Suc.hyps(2) Suc.prems lt by (intro Suc.hyps(1)) auto
    then show ?thesis
      using hsearch_probe_step [OF sz h tab, of j key False] Suc.prems(2) [of "Suc j"] lt j(2) by simp
  qed
qed simp

lemma hsearch_probe_absent:
  assumes sz: "prime_size sz" and h: "1 \<le> h1" "h1 \<le> sz" "1 \<le> h2" "h2 < sz"
    and tab: "length tab = sz + 1" and j: "j < sz"
    and m: "\<And>i. j < i \<Longrightarrow> i < sz \<Longrightarrow> slot_match h1 key (tab ! probe sz h1 h2 i) = Some False"
  shows "\<exists>k. j < k \<and> k \<le> sz \<and> hsearch_probe tab sz h1 h2 key (probe sz h1 h2 j) = Some (probe sz h1 h2 k, False)
    \<and> (k = sz \<or> used (tab ! probe sz h1 h2 k) = 0)
    \<and> (\<forall>i. j < i \<and> i < k \<longrightarrow> used (tab ! probe sz h1 h2 i) \<noteq> 0)"
  using j m
proof (induction "sz - j" arbitrary: j)
  case (Suc n)
  show ?case
  proof (cases "Suc j = sz")
    case True
    have "probe_step sz h2 (probe sz h1 h2 j) = h1"
      using probe_cycle(1) [OF sz h] True by (metis probe_Suc)
    then have "hsearch_probe tab sz h1 h2 key (probe sz h1 h2 j) = Some (h1, False)"
      by (subst hsearch_probe.simps) (simp add: Let_def)
    then show ?thesis using True probe_cycle(1) [OF sz h] by (intro exI [of _ sz]) auto
  next
    case False
    then have lt: "Suc j < sz" using Suc.prems(1) by simp
    note step = hsearch_probe_step [OF sz h tab lt, of key False]
    show ?thesis
    proof (cases "used (tab ! probe sz h1 h2 (Suc j)) = 0")
      case True
      then show ?thesis using step Suc.prems(2) [of "Suc j"] lt by (intro exI [of _ "Suc j"]) auto
    next
      case False
      obtain k where k: "Suc j < k" "k \<le> sz"
        "hsearch_probe tab sz h1 h2 key (probe sz h1 h2 (Suc j)) = Some (probe sz h1 h2 k, False)"
        "k = sz \<or> used (tab ! probe sz h1 h2 k) = 0"
        "\<forall>i. Suc j < i \<and> i < k \<longrightarrow> used (tab ! probe sz h1 h2 i) \<noteq> 0"
      proof -
        have "\<exists>k. Suc j < k \<and> k \<le> sz \<and> hsearch_probe tab sz h1 h2 key (probe sz h1 h2 (Suc j)) = Some (probe sz h1 h2 k, False)
            \<and> (k = sz \<or> used (tab ! probe sz h1 h2 k) = 0)
            \<and> (\<forall>i. Suc j < i \<and> i < k \<longrightarrow> used (tab ! probe sz h1 h2 i) \<noteq> 0)"
          using Suc.hyps(2) Suc.prems lt by (intro Suc.hyps(1)) auto
        then show thesis using that by blast
      qed
      have "used (tab ! probe sz h1 h2 i) \<noteq> 0" if "j < i" "i < k" for i
        using k(5) False that by (cases "i = Suc j") auto
      then show ?thesis
        using step Suc.prems(2) [of "Suc j"] lt False k by (intro exI [of _ k]) auto
    qed
  qed
qed simp

section \<open>The table as a map\<close>

text \<open>The \<open>j\<close>-th slot tried for a key.\<close>

definition key_seq :: "u32 \<Rightarrow> byte list \<Rightarrow> nat \<Rightarrow> nat" where
  "key_seq szw k = probe (unat szw) (first_hash szw k) (second_hash szw (first_hash szw k))"

definition holds :: "hslot list \<Rightarrow> nat \<Rightarrow> byte list \<Rightarrow> nat \<Rightarrow> bool" where
  "holds tab sz k i \<longleftrightarrow> 1 \<le> i \<and> i \<le> sz \<and> used (tab ! i) > 0 \<and> ent_key (tab ! i) = Some k"

text \<open>Slot \<open>i\<close> can be reached for the key: no free slot comes before it in the sequence.\<close>

definition reach :: "u32 \<Rightarrow> hslot list \<Rightarrow> byte list \<Rightarrow> nat \<Rightarrow> bool" where
  "reach szw tab k i \<longleftrightarrow>
     (\<exists>j < unat szw. key_seq szw k j = i \<and> (\<forall>j' < j. used (tab ! key_seq szw k j') \<noteq> 0))"

definition live_ok :: "u32 \<Rightarrow> hslot list \<Rightarrow> nat \<Rightarrow> bool" where
  "live_ok szw tab i \<longleftrightarrow> (\<exists>k d. ent_key (tab ! i) = Some k \<and> ent_data (tab ! i) = Some d \<and> 0 \<notin> set k \<and> 0 \<notin> set d
     \<and> used (tab ! i) = int (first_hash szw k) \<and> reach szw tab k i)"

definition tab_ok :: "u32 \<Rightarrow> hslot list \<Rightarrow> bool" where
  "tab_ok szw tab \<longleftrightarrow> prime_size (unat szw) \<and> unat szw < 2 ^ 31 \<and> length tab = unat szw + 1
     \<and> (\<forall>i. 1 \<le> i \<and> i \<le> unat szw \<longrightarrow> used (tab ! i) = - 1 \<or> used (tab ! i) = 0 \<or> live_ok szw tab i)
     \<and> (\<forall>i j k. holds tab (unat szw) k i \<and> holds tab (unat szw) k j \<longrightarrow> i = j)"

definition live :: "hslot list \<Rightarrow> nat \<Rightarrow> nat set" where
  "live tab sz = {i. 1 \<le> i \<and> i \<le> sz \<and> used (tab ! i) > 0}"

definition htab_ok :: "hsearch_data \<Rightarrow> bool" where
  "htab_ok htab \<longleftrightarrow> (\<exists>tab. htab_table htab = Some tab \<and> tab_ok (htab_size htab) tab
     \<and> unat (htab_filled htab) = card (live tab (unat (htab_size htab))))"

text \<open>A slot that was never used.\<close>

definition has_free :: "hsearch_data \<Rightarrow> bool" where
  "has_free htab \<longleftrightarrow> (\<exists>tab. htab_table htab = Some tab \<and> (\<exists>i. 1 \<le> i \<and> i \<le> unat (htab_size htab) \<and> used (tab ! i) = 0))"

definition htab_map :: "hsearch_data \<Rightarrow> byte list \<Rightarrow> byte list option" where
  "htab_map htab k =
     (case htab_table htab of
        None \<Rightarrow> None
      | Some tab \<Rightarrow>
          (case find (\<lambda>s. used s > 0 \<and> ent_key s = Some k) (tl tab) of None \<Rightarrow> None | Some s \<Rightarrow> ent_data s))"

lemma hash_bounds:
  assumes "prime_size (unat szw)"
  shows "1 \<le> first_hash szw k" and "first_hash szw k \<le> unat szw"
    and "1 \<le> second_hash szw h" and "second_hash szw h < unat szw"
proof -
  have s: "5 \<le> unat szw" using assms by (simp add: prime_size_def)
  have "unat (hash_key k mod szw) < unat szw"
    using s by (simp add: unat_mod)
  then show "1 \<le> first_hash szw k" "first_hash szw k \<le> unat szw"
    using s by (auto simp: first_hash_def Let_def)
  have "unat (szw - 2) = unat szw - 2" using s by (subst unat_sub) (simp_all add: word_le_nat_alt)
  then have "unat (of_nat h mod (szw - 2)) < unat szw - 2"
    using s by (simp add: unat_mod)
  then show "1 \<le> second_hash szw h" "second_hash szw h < unat szw"
    by (simp_all add: second_hash_def)
qed

lemma key_seq_range:
  "prime_size (unat szw) \<Longrightarrow> 1 \<le> key_seq szw k j \<and> key_seq szw k j \<le> unat szw"
  using probe_residue hash_bounds unfolding key_seq_def by blast

lemma key_seq_0 [simp]: "key_seq szw k 0 = first_hash szw k"
  by (simp add: key_seq_def)

lemma key_seq_inj:
  "prime_size (unat szw) \<Longrightarrow> j < k \<Longrightarrow> k < unat szw \<Longrightarrow> key_seq szw key j \<noteq> key_seq szw key k"
  unfolding key_seq_def using hash_bounds by (intro probe_inj) auto

lemma holds_live:
  assumes "tab_ok szw tab" and "holds tab (unat szw) k i"
  shows "0 \<notin> set k" and "\<exists>d. ent_data (tab ! i) = Some d \<and> 0 \<notin> set d"
    and "used (tab ! i) = int (first_hash szw k)" and "reach szw tab k i"
  using assms by (auto simp: tab_ok_def holds_def live_ok_def)

lemma slot_match_holds:
  assumes "tab_ok szw tab" and "0 \<notin> set key" and "1 \<le> i" and "i \<le> unat szw"
  shows "slot_match (first_hash szw key) key (tab ! i) = Some (holds tab (unat szw) key i)"
proof (cases "used (tab ! i) > 0")
  case False
  then have "used (tab ! i) \<noteq> int (first_hash szw key)"
    using assms(1) hash_bounds(1) [of szw key] by (auto simp: tab_ok_def)
  then show ?thesis using False by (simp add: slot_match_def holds_def)
next
  case True
  then obtain k where k: "ent_key (tab ! i) = Some k" "0 \<notin> set k" "used (tab ! i) = int (first_hash szw k)"
    using assms by (auto simp: tab_ok_def live_ok_def)
  then have "holds tab (unat szw) key i \<longleftrightarrow> k = key" using True assms by (auto simp: holds_def)
  then show ?thesis
    using k assms(2) by (auto simp: slot_match_def strcmp_eq_0 cstr_id)
qed

lemma htab_map_holds:
  assumes "htab_table htab = Some tab" and "tab_ok (htab_size htab) tab" and "holds tab (unat (htab_size htab)) k i"
  shows "htab_map htab k = ent_data (tab ! i)"
proof -
  let ?P = "\<lambda>s. used s > 0 \<and> ent_key s = Some k"
  have len: "length (tl tab) = unat (htab_size htab)" using assms(2) by (simp add: tab_ok_def)
  have i: "1 \<le> i" "i \<le> unat (htab_size htab)" using assms(3) by (simp_all add: holds_def)
  have nt: "tl tab ! j = tab ! Suc j" if "j < length (tl tab)" for j
    using that by (simp add: nth_tl)
  have "?P (tl tab ! (i - 1))" using assms(3) i len nt by (simp add: holds_def)
  moreover have "tl tab ! (i - 1) \<in> set (tl tab)" using i len by (intro nth_mem) linarith
  ultimately have "find ?P (tl tab) \<noteq> None" by (auto simp: find_None_iff)
  then obtain s where s: "find ?P (tl tab) = Some s" by (cases "find ?P (tl tab)") simp_all
  then obtain j where j: "j < length (tl tab)" "?P (tl tab ! j)" "s = tl tab ! j"
    by (auto simp: find_Some_iff)
  then have "holds tab (unat (htab_size htab)) k (Suc j)" using len nt by (simp add: holds_def)
  then have "Suc j = i" using assms(2,3) by (auto simp: tab_ok_def)
  then show ?thesis using s j nt assms(1) by (simp add: htab_map_def)
qed

lemma htab_map_absent:
  assumes "htab_table htab = Some tab" and "tab_ok (htab_size htab) tab"
    and "\<And>i. \<not> holds tab (unat (htab_size htab)) k i"
  shows "htab_map htab k = None"
proof -
  let ?P = "\<lambda>s. used s > 0 \<and> ent_key s = Some k"
  have len: "length (tl tab) = unat (htab_size htab)" using assms(2) by (simp add: tab_ok_def)
  have "find ?P (tl tab) = None"
  proof (rule ccontr)
    assume "find ?P (tl tab) \<noteq> None"
    then obtain s where "find ?P (tl tab) = Some s" by blast
    then obtain j where j: "j < length (tl tab)" "?P (tl tab ! j)" by (auto simp: find_Some_iff)
    then have "holds tab (unat (htab_size htab)) k (Suc j)" using len by (simp add: holds_def nth_tl)
    then show False using assms(3) by blast
  qed
  then show ?thesis using assms(1) by (simp add: htab_map_def)
qed

subsection \<open>Searching\<close>

lemma hsearch_present:
  assumes t: "htab_table htab = Some tab" and ok: "tab_ok (htab_size htab) tab"
    and hold: "holds tab (unat (htab_size htab)) key i"
  shows "hsearch_r mem key data action htab = Some (hsearch_hit mem data action tab i htab)"
proof -
  let ?w = "htab_size htab" and ?sz = "unat (htab_size htab)" and ?h = "first_hash (htab_size htab) key"
  have sz: "prime_size ?sz" and len: "length tab = ?sz + 1" using ok by (simp_all add: tab_ok_def)
  note b = hash_bounds [OF sz]
  have w: "?w \<noteq> 0" "?w \<noteq> 2" using sz by (auto simp: prime_size_def)
  note hl = holds_live [OF ok hold]
  have g: "get_slot tab ?h = Some (tab ! ?h)" using b(2) [of key] len by (simp add: get_slot_def)
  have m: "slot_match ?h key (tab ! x) = Some (holds tab ?sz key x)" if "1 \<le> x" "x \<le> ?sz" for x
    by (rule slot_match_holds [OF ok hl(1) that])
  have uniq: "holds tab ?sz key x \<longleftrightarrow> x = i" for x using ok hold by (auto simp: tab_ok_def)
  obtain j where j: "j < ?sz" "key_seq ?w key j = i" "\<forall>j' < j. used (tab ! key_seq ?w key j') \<noteq> 0"
    using hl(4) by (auto simp: reach_def)
  show ?thesis
  proof (cases "j = 0")
    case True
    then have i: "i = ?h" using j(2) by simp
    have "used (tab ! ?h) \<noteq> 0" using hold i by (simp add: holds_def)
    then show ?thesis
      using t w g m [of ?h] b(1,2) i hold by (simp add: hsearch_r_def Let_def)
  next
    case False
    have "i \<noteq> ?h" using key_seq_inj [OF sz, of 0 j key] False j by simp
    then have m0: "slot_match ?h key (tab ! ?h) = Some False" using m [of ?h] b(1,2) uniq by simp
    have u0: "used (tab ! ?h) \<noteq> 0" using j(3) False key_seq_0 [of ?w key] by (metis neq0_conv)
    have "hsearch_probe tab ?sz ?h (second_hash ?w ?h) key (probe ?sz ?h (second_hash ?w ?h) 0) =
        Some (probe ?sz ?h (second_hash ?w ?h) j, True)"
    proof (rule hsearch_probe_found [OF sz b(1,2) b(3,4) len])
      show "slot_match ?h key (tab ! probe ?sz ?h (second_hash ?w ?h) j) = Some True"
        using m [of i] hold j(2) by (simp add: key_seq_def holds_def)
      fix x
      assume x: "0 < x" "x < j"
      have "key_seq ?w key x \<noteq> i" using key_seq_inj [OF sz x(2) j(1), of key] j(2) by simp
      then have "slot_match ?h key (tab ! key_seq ?w key x) = Some False"
        using m key_seq_range [OF sz, of key x] uniq by simp
      then show "used (tab ! probe ?sz ?h (second_hash ?w ?h) x) \<noteq> 0
          \<and> slot_match ?h key (tab ! probe ?sz ?h (second_hash ?w ?h) x) = Some False"
        using j(3) x by (simp add: key_seq_def)
    qed (use False j in auto)
    then have "hsearch_probe tab ?sz ?h (second_hash ?w ?h) key ?h = Some (i, True)"
      using j(2) by (simp add: key_seq_def)
    then show ?thesis using t w g m0 u0 by (simp add: hsearch_r_def Let_def)
  qed
qed

text \<open>A key that is not there: where the search ends.\<close>

lemma hsearch_absent:
  assumes t: "htab_table htab = Some tab" and ok: "tab_ok (htab_size htab) tab" and key: "0 \<notin> set key"
    and abs: "\<And>i. \<not> holds tab (unat (htab_size htab)) key i"
  shows "\<exists>idx fd. hsearch_r mem key data action htab =
      hsearch_miss mem key data action tab (first_hash (htab_size htab) key) idx fd htab
    \<and> (fd = 0 \<or> fd = first_hash (htab_size htab) key \<and> used (tab ! fd) = - 1)
    \<and> 1 \<le> idx \<and> idx \<le> unat (htab_size htab)
    \<and> ((used (tab ! idx) = 0 \<and> reach (htab_size htab) tab key idx)
       \<or> idx = first_hash (htab_size htab) key \<and> (\<forall>i. 1 \<le> i \<and> i \<le> unat (htab_size htab) \<longrightarrow> used (tab ! i) \<noteq> 0)
          \<and> (used (tab ! idx) = - 1 \<longrightarrow> fd \<noteq> 0))"
proof -
  let ?w = "htab_size htab" and ?sz = "unat (htab_size htab)" and ?h = "first_hash (htab_size htab) key"
  have sz: "prime_size ?sz" and len: "length tab = ?sz + 1" using ok by (simp_all add: tab_ok_def)
  note b = hash_bounds [OF sz]
  have w: "?w \<noteq> 0" "?w \<noteq> 2" using sz by (auto simp: prime_size_def)
  have g: "get_slot tab ?h = Some (tab ! ?h)" using b(2) [of key] len by (simp add: get_slot_def)
  have m: "slot_match ?h key (tab ! x) = Some False" if "1 \<le> x" "x \<le> ?sz" for x
    using slot_match_holds [OF ok key that] abs by simp
  have pos: "0 < ?sz" using sz by (simp add: prime_size_def)
  show ?thesis
  proof (cases "used (tab ! ?h) = 0")
    case True
    have "reach ?w tab key ?h" unfolding reach_def using pos by (intro exI [of _ 0]) simp
    moreover have "hsearch_r mem key data action htab = hsearch_miss mem key data action tab ?h ?h 0 htab"
      using t w g True by (simp add: hsearch_r_def Let_def)
    ultimately show ?thesis using True b(1,2) by blast
  next
    case False
    let ?fd = "if used (tab ! ?h) = - 1 then ?h else 0"
    obtain k where k: "0 < k" "k \<le> ?sz"
      "hsearch_probe tab ?sz ?h (second_hash ?w ?h) key (probe ?sz ?h (second_hash ?w ?h) 0) = Some (key_seq ?w key k, False)"
      "k = ?sz \<or> used (tab ! key_seq ?w key k) = 0" "\<forall>i. 0 < i \<and> i < k \<longrightarrow> used (tab ! key_seq ?w key i) \<noteq> 0"
    proof -
      have "\<exists>k. 0 < k \<and> k \<le> ?sz
          \<and> hsearch_probe tab ?sz ?h (second_hash ?w ?h) key (probe ?sz ?h (second_hash ?w ?h) 0) = Some (key_seq ?w key k, False)
          \<and> (k = ?sz \<or> used (tab ! key_seq ?w key k) = 0)
          \<and> (\<forall>i. 0 < i \<and> i < k \<longrightarrow> used (tab ! key_seq ?w key i) \<noteq> 0)"
        unfolding key_seq_def
        by (rule hsearch_probe_absent [OF sz b(1,2) b(3,4) len pos])
          (use m key_seq_range [OF sz, of key] in \<open>simp add: key_seq_def\<close>)
      then show thesis using that by blast
    qed
    have r: "hsearch_r mem key data action htab = hsearch_miss mem key data action tab ?h (key_seq ?w key k) ?fd htab"
      using t w g False m [of ?h] b(1,2) k(3) by (simp add: hsearch_r_def Let_def)
    have ne: "used (tab ! key_seq ?w key i) \<noteq> 0" if "i < k" for i
      using k(5) False that by (cases "i = 0") auto
    have rng: "1 \<le> key_seq ?w key k" "key_seq ?w key k \<le> ?sz" using key_seq_range [OF sz] by blast+
    show ?thesis
    proof (cases "k = ?sz")
      case True
      have eq: "key_seq ?w key k = ?h"
        using probe_cycle(1) [OF sz b(1,2) b(3,4)] True by (simp add: key_seq_def)
      have "used (tab ! i) \<noteq> 0" if i: "1 \<le> i" "i \<le> ?sz" for i
      proof -
        obtain j where "j < ?sz" "key_seq ?w key j = i"
          using probe_surj [OF sz b(1,2) b(3,4) i] unfolding key_seq_def by blast
        then show ?thesis using ne True by auto
      qed
      moreover have "used (tab ! ?h) = - 1 \<longrightarrow> ?fd \<noteq> 0" using b(1) [of key] by simp
      moreover have "?fd = 0 \<or> ?fd = ?h \<and> used (tab ! ?fd) = - 1" by simp
      ultimately show ?thesis using r eq rng by (intro exI [of _ ?h] exI [of _ ?fd]) simp
    next
      case False
      then have "reach ?w tab key (key_seq ?w key k)"
        unfolding reach_def using ne k(2) by (intro exI [of _ k]) auto
      moreover have "?fd = 0 \<or> ?fd = ?h \<and> used (tab ! ?fd) = - 1" by simp
      ultimately show ?thesis using r rng k(4) False by blast
    qed
  qed
qed

subsection \<open>Changing a slot\<close>

lemma reach_mono:
  assumes "reach szw tab k i" and "\<And>j. used (tab ! j) \<noteq> 0 \<Longrightarrow> used (tab' ! j) \<noteq> 0"
  shows "reach szw tab' k i"
  using assms unfolding reach_def by blast

lemma holds_update:
  assumes "length tab = sz + 1"
  shows "holds (tab[i := s]) sz k j \<longleftrightarrow>
    (if j = i then 1 \<le> i \<and> i \<le> sz \<and> used s > 0 \<and> ent_key s = Some k else holds tab sz k j)"
  using assms by (auto simp: holds_def)

lemma tab_ok_update:
  assumes ok: "tab_ok szw tab" and i: "1 \<le> i" "i \<le> unat szw"
    and s: "used s = - 1 \<or> (\<exists>k d. ent_key s = Some k \<and> ent_data s = Some d \<and> 0 \<notin> set k \<and> 0 \<notin> set d
      \<and> used s = int (first_hash szw k) \<and> reach szw tab k i \<and> (\<forall>j. j \<noteq> i \<longrightarrow> \<not> holds tab (unat szw) k j))"
  shows "tab_ok szw (tab[i := s])"
proof -
  let ?sz = "unat szw" and ?t = "tab[i := s]"
  have sz: "prime_size ?sz" and len: "length tab = ?sz + 1" using ok by (simp_all add: tab_ok_def)
  have nz: "used s \<noteq> 0"
  proof (cases "used s = - 1")
    case False
    then obtain k where "used s = int (first_hash szw k)" using s by blast
    then show ?thesis using hash_bounds(1) [OF sz, of k] by simp
  qed simp
  have mono: "used (tab ! j) \<noteq> 0 \<Longrightarrow> used (?t ! j) \<noteq> 0" for j using nz i(2) len by (cases "j = i") simp_all
  have "used (?t ! j) = - 1 \<or> used (?t ! j) = 0 \<or> live_ok szw ?t j" if j: "1 \<le> j" "j \<le> ?sz" for j
  proof (cases "j = i")
    case True
    then have e: "?t ! j = s" using i len by simp
    show ?thesis
    proof (cases "used s = - 1")
      case False
      then obtain k d where "ent_key s = Some k" "ent_data s = Some d" "0 \<notin> set k" "0 \<notin> set d"
        "used s = int (first_hash szw k)" "reach szw tab k i" using s by blast
      then have "live_ok szw ?t j" unfolding live_ok_def e using reach_mono [OF _ mono] True by blast
      then show ?thesis by blast
    qed (use e in simp)
  next
    case False
    then have e: "?t ! j = tab ! j" by simp
    have "used (tab ! j) = - 1 \<or> used (tab ! j) = 0 \<or> live_ok szw tab j" using ok j by (simp add: tab_ok_def)
    then show ?thesis unfolding live_ok_def e using reach_mono [OF _ mono] by blast
  qed
  moreover have "a = b" if "holds ?t ?sz k a" "holds ?t ?sz k b" for a b k
  proof -
    have u: "\<And>a b. holds tab ?sz k a \<Longrightarrow> holds tab ?sz k b \<Longrightarrow> a = b" using ok by (auto simp: tab_ok_def)
    show ?thesis using that s u unfolding holds_update [OF len] by (auto split: if_splits)
  qed
  ultimately show ?thesis using ok unfolding tab_ok_def by auto
qed

lemma live_finite: "finite (live tab sz)"
  by (rule finite_subset [of _ "{..sz}"]) (auto simp: live_def)

lemma live_update:
  assumes "length tab = sz + 1" and "1 \<le> i" and "i \<le> sz"
  shows "live (tab[i := s]) sz = (if used s > 0 then insert i (live tab sz) else live tab sz - {i})"
proof -
  have "used (tab[i := s] ! j) = (if j = i then used s else used (tab ! j))" for j
    using assms by simp
  then show ?thesis using assms(2,3) unfolding live_def by auto
qed

text \<open>The map of a table after a change of one slot.\<close>

lemma htab_map_update:
  assumes t: "htab_table htab = Some tab" and ok: "tab_ok (htab_size htab) tab"
    and t': "htab_table htab' = Some (tab[i := s])" "htab_size htab' = htab_size htab"
    and ok': "tab_ok (htab_size htab) (tab[i := s])"
    and i: "1 \<le> i" "i \<le> unat (htab_size htab)" and k: "ent_key s = Some k"
    and old: "used (tab ! i) > 0 \<longrightarrow> ent_key (tab ! i) = Some k"
    and new: "used s > 0 \<or> (\<exists>j. holds tab (unat (htab_size htab)) k j) \<longrightarrow> used s > 0 \<or> holds tab (unat (htab_size htab)) k i"
  shows "htab_map htab' = (htab_map htab) (k := (if used s > 0 then ent_data s else None))"
proof
  fix x
  let ?sz = "unat (htab_size htab)"
  have len: "length tab = ?sz + 1" using ok by (simp add: tab_ok_def)
  note hu = holds_update [OF len]
  have uniq: "\<And>k a b. holds tab ?sz k a \<Longrightarrow> holds tab ?sz k b \<Longrightarrow> a = b" using ok unfolding tab_ok_def by blast
  have ok2: "tab_ok (htab_size htab') (tab[i := s])" using ok' t'(2) by simp
  show "htab_map htab' x = ((htab_map htab) (k := (if used s > 0 then ent_data s else None))) x"
  proof (cases "x = k")
    case True
    show ?thesis
    proof (cases "used s > 0")
      case True
      then have "holds (tab[i := s]) (unat (htab_size htab')) k i" using i k t'(2) hu by simp
      from htab_map_holds [OF t'(1) ok2 this] show ?thesis using \<open>x = k\<close> True i len by simp
    next
      case False
      have "\<not> holds (tab[i := s]) (unat (htab_size htab')) k j" for j
        using False new uniq [of k j i] t'(2) hu by auto
      from htab_map_absent [OF t'(1) ok2 this] show ?thesis using \<open>x = k\<close> False by simp
    qed
  next
    case False
    show ?thesis
    proof (cases "\<exists>j. holds tab ?sz x j")
      case True
      then obtain j where j: "holds tab ?sz x j" by blast
      then have ji: "j \<noteq> i" using old False by (auto simp: holds_def)
      then have "holds (tab[i := s]) (unat (htab_size htab')) x j" using j t'(2) hu by simp
      from htab_map_holds [OF t'(1) ok2 this] htab_map_holds [OF t ok j] ji False show ?thesis by simp
    next
      case nh: False
      then have a: "\<not> holds tab ?sz x j" for j by blast
      have "\<not> holds (tab[i := s]) (unat (htab_size htab')) x j" for j
        using a [of j] False k t'(2) hu by (cases "j = i") simp_all
      from htab_map_absent [OF t'(1) ok2 this] htab_map_absent [OF t ok a] False show ?thesis by simp
    qed
  qed
qed

subsection \<open>The operations on the map\<close>

lemma htab_map_Some_holds:
  assumes t: "htab_table htab = Some tab" and ok: "tab_ok (htab_size htab) tab"
  shows "htab_map htab k \<noteq> None \<longleftrightarrow> (\<exists>i. holds tab (unat (htab_size htab)) k i)"
proof
  assume "\<exists>i. holds tab (unat (htab_size htab)) k i"
  then obtain i where i: "holds tab (unat (htab_size htab)) k i" by blast
  then show "htab_map htab k \<noteq> None" using htab_map_holds [OF t ok i] holds_live(2) [OF ok i] by auto
next
  assume m: "htab_map htab k \<noteq> None"
  show "\<exists>i. holds tab (unat (htab_size htab)) k i"
  proof (rule ccontr)
    assume "\<nexists>i. holds tab (unat (htab_size htab)) k i"
    then have "htab_map htab k = None" by (intro htab_map_absent [OF t ok]) blast
    then show False using m by simp
  qed
qed

lemma hfind:
  assumes ok: "htab_ok htab" and key: "0 \<notin> set key"
  shows "\<exists>tab. htab_table htab = Some tab \<and>
    (case htab_map htab key of
       None \<Rightarrow> hsearch_r mem key data FIND htab = Some (Herror ESRCH, htab)
     | Some d \<Rightarrow> \<exists>i. 0 < i \<and> i < length tab \<and> ent_key (tab ! i) = Some key \<and> ent_data (tab ! i) = Some d
          \<and> hsearch_r mem key data FIND htab = Some (Hfound i i, htab))"
proof -
  obtain tab where t: "htab_table htab = Some tab" and ok: "tab_ok (htab_size htab) tab"
    using ok by (auto simp: htab_ok_def)
  have len: "length tab = unat (htab_size htab) + 1" using ok by (simp add: tab_ok_def)
  show ?thesis
  proof (cases "htab_map htab key")
    case None
    then have "\<And>i. \<not> holds tab (unat (htab_size htab)) key i" using htab_map_Some_holds [OF t ok] by blast
    from hsearch_absent [OF t ok key this, of mem data FIND]
    show ?thesis using t None by (auto simp: hsearch_miss_def)
  next
    case (Some d)
    then obtain i where i: "holds tab (unat (htab_size htab)) key i" using htab_map_Some_holds [OF t ok, of key] by auto
    show ?thesis
      using Some t htab_map_holds [OF t ok i] hsearch_present [OF t ok i, of mem data FIND] i len
      by (intro exI [of _ tab]) (auto simp: holds_def hsearch_hit_def)
  qed
qed

text \<open>Entering a key: an existing entry is replaced, a new one goes to a slot that is not live.\<close>

lemma hsearch_slot:
  assumes t: "htab_table htab = Some tab" and ok: "tab_ok (htab_size htab) tab" and key: "0 \<notin> set key"
    and abs: "\<And>i. \<not> holds tab (unat (htab_size htab)) key i"
    and free: "has_free htab"
  shows "\<exists>i. 1 \<le> i \<and> i \<le> unat (htab_size htab) \<and> used (tab ! i) \<le> 0 \<and> reach (htab_size htab) tab key i
    \<and> hsearch_r mem key data action htab =
      hsearch_miss mem key data action tab (first_hash (htab_size htab) key) i 0 htab"
proof -
  let ?h = "first_hash (htab_size htab) key"
  have sz: "prime_size (unat (htab_size htab))" using ok by (simp add: tab_ok_def)
  note b = hash_bounds [OF sz]
  obtain idx fd where r: "hsearch_r mem key data action htab = hsearch_miss mem key data action tab ?h idx fd htab"
    and fd: "fd = 0 \<or> fd = ?h \<and> used (tab ! fd) = - 1" and idx: "1 \<le> idx" "idx \<le> unat (htab_size htab)"
    and c: "used (tab ! idx) = 0" "reach (htab_size htab) tab key idx"
    using hsearch_absent [OF t ok key abs, of mem data action] free t unfolding has_free_def
    by (elim exE conjE disjE) auto
  show ?thesis
  proof (cases "fd = 0")
    case True
    then show ?thesis using r idx c by (intro exI [of _ idx]) auto
  next
    case False
    have "reach (htab_size htab) tab key ?h"
      unfolding reach_def using sz by (intro exI [of _ 0]) (simp add: prime_size_def)
    moreover have "hsearch_miss mem key data action tab ?h idx fd htab = hsearch_miss mem key data action tab ?h fd 0 htab"
      using False by (simp add: hsearch_miss_def)
    ultimately show ?thesis using False fd r b(1,2) [of key] by (intro exI [of _ fd]) auto
  qed
qed

lemma htab_okI:
  assumes "htab_table htab = Some tab" and "tab_ok (htab_size htab) tab"
    and "unat (htab_filled htab) = card (live tab (unat (htab_size htab)))"
  shows "htab_ok htab"
  using assms by (auto simp: htab_ok_def)

lemma live_lt:
  assumes "1 \<le> i" and "i \<le> sz" and "used (tab ! i) \<le> 0"
  shows "card (live tab sz) < sz"
proof -
  have "live tab sz \<subseteq> {1..sz}" "i \<in> {1..sz}" "i \<notin> live tab sz" using assms by (auto simp: live_def)
  then have "live tab sz \<subset> {1..sz}" by blast
  then have "card (live tab sz) < card {1..sz}" by (intro psubset_card_mono) simp_all
  then show ?thesis by simp
qed

text \<open>The number of slots never used, which only an insertion can lower, and by one.\<close>

definition free_slots :: "hsearch_data \<Rightarrow> nat" where
  "free_slots htab =
     (case htab_table htab of None \<Rightarrow> 0 | Some tab \<Rightarrow> length (filter (\<lambda>s. used s = 0) (tl tab)))"

lemma has_free_slots:
  assumes "htab_ok htab"
  shows "has_free htab \<longleftrightarrow> 0 < free_slots htab"
proof -
  obtain tab where t: "htab_table htab = Some tab" and len: "length tab = unat (htab_size htab) + 1"
    using assms by (auto simp: htab_ok_def tab_ok_def)
  have "0 < free_slots htab \<longleftrightarrow> (\<exists>s \<in> set (tl tab). used s = 0)"
    using t by (auto simp: free_slots_def filter_empty_conv)
  also have "\<dots> \<longleftrightarrow> (\<exists>j < length tab - 1. used (tab ! Suc j) = 0)"
  proof -
    have "set (tl tab) = (\<lambda>j. tab ! Suc j) ` {..<length tab - 1}"
      by (cases tab) (simp_all add: set_conv_nth image_def, blast)
    then show ?thesis by auto
  qed
  also have "\<dots> \<longleftrightarrow> has_free htab"
  proof
    assume "\<exists>j < length tab - 1. used (tab ! Suc j) = 0"
    then obtain j where "j < length tab - 1" "used (tab ! Suc j) = 0" by blast
    then show "has_free htab" unfolding has_free_def using t len by (intro exI [of _ tab] conjI exI [of _ "Suc j"]) auto
  next
    assume "has_free htab"
    then obtain i where "1 \<le> i" "i \<le> unat (htab_size htab)" "used (tab ! i) = 0" using t by (auto simp: has_free_def)
    then show "\<exists>j < length tab - 1. used (tab ! Suc j) = 0" using len by (intro exI [of _ "i - 1"]) auto
  qed
  finally show ?thesis by blast
qed

lemma filter_update_length:
  "i < length xs \<Longrightarrow> length (filter P xs) \<le> length (filter P (xs[i := x])) + (if P (xs ! i) \<and> \<not> P x then 1 else 0)"
proof (induction xs arbitrary: i)
  case (Cons y ys)
  show ?case
  proof (cases i)
    case (Suc j)
    then have "length (filter P ys) \<le> length (filter P (ys[j := x])) + (if P (ys ! j) \<and> \<not> P x then 1 else 0)"
      using Cons by simp
    then show ?thesis using Suc by (simp split: if_splits)
  qed simp
qed simp

lemma free_slots_update:
  assumes "htab_table htab = Some tab" and "htab_table htab' = Some (tab[i := s])" and "1 \<le> i" and "i < length tab"
  shows "free_slots htab \<le> free_slots htab' + (if used (tab ! i) = 0 \<and> used s \<noteq> 0 then 1 else 0)"
proof -
  have "tl (tab[i := s]) = (tl tab)[i - 1 := s]" "tl tab ! (i - 1) = tab ! i"
    using assms(3,4) by (cases tab; cases i; simp add: nth_tl)+
  moreover have "i - 1 < length (tl tab)" using assms(3,4) by simp
  ultimately show ?thesis
    using filter_update_length [of "i - 1" "tl tab" "\<lambda>s. used s = 0" s] assms(1,2) by (simp add: free_slots_def)
qed

lemma henter:
  assumes ok: "htab_ok htab" and free: "has_free htab" and mem: "\<forall>n. mem n" and nz: "0 \<notin> set key" "0 \<notin> set d"
  shows "\<exists>r i htab'. hsearch_r mem key (Some d) ENTER htab = Some (Hfound r i, htab') \<and> 0 < r \<and> htab_ok htab'
    \<and> htab_size htab' = htab_size htab \<and> htab_map htab' = (htab_map htab)(key \<mapsto> d)
    \<and> free_slots htab \<le> free_slots htab' + 1"
proof -
  obtain tab where t: "htab_table htab = Some tab" and ok: "tab_ok (htab_size htab) tab"
    and fil: "unat (htab_filled htab) = card (live tab (unat (htab_size htab)))"
    using ok by (auto simp: htab_ok_def)
  let ?sz = "unat (htab_size htab)"
  have len: "length tab = ?sz + 1" using ok by (simp add: tab_ok_def)
  have dup: "strdup mem (Some x) = Some x" if "0 \<notin> set x" for x
    using mem that by (simp add: strdup_def cstr_id)
  show ?thesis
  proof (cases "\<exists>i. holds tab ?sz key i")
    case True
    then obtain i where i: "holds tab ?sz key i" by blast
    let ?s = "(tab ! i)\<lparr>ent_data := Some d\<rparr>" and ?t = "tab[i := (tab ! i)\<lparr>ent_data := Some d\<rparr>]"
    let ?htab = "htab\<lparr>htab_table := Some ?t\<rparr>"
    note hl = holds_live [OF ok i]
    have il: "1 \<le> i" "i \<le> ?sz" "used (tab ! i) > 0" "ent_key (tab ! i) = Some key" using i by (simp_all add: holds_def)
    have uniq: "\<forall>j. j \<noteq> i \<longrightarrow> \<not> holds tab ?sz key j" using ok i unfolding tab_ok_def by blast
    have r: "hsearch_r mem key (Some d) ENTER htab = Some (Hfound i i, ?htab)"
      using hsearch_present [OF t ok i] dup nz(2) by (simp add: hsearch_hit_def Let_def)
    have ok': "tab_ok (htab_size htab) ?t"
      using hl il nz uniq by (intro tab_ok_update [OF ok il(1,2)]) auto
    have "live ?t ?sz = live tab ?sz"
      using live_update [OF len il(1,2), of ?s] il by (auto simp: live_def)
    then have "htab_ok ?htab" using ok' fil by (intro htab_okI [of _ ?t]) simp_all
    moreover have "htab_map ?htab = (htab_map htab) (key := (if used ?s > 0 then ent_data ?s else None))"
      by (rule htab_map_update [OF t ok _ _ ok' il(1,2)]) (use il in simp_all)
    moreover have "free_slots htab \<le> free_slots ?htab + 1"
      using free_slots_update [OF t, of ?htab i ?s] il len by simp
    ultimately show ?thesis using r il by (intro exI [of _ i] exI [of _ ?htab]) simp
  next
    case False
    then have abs: "\<And>i. \<not> holds tab ?sz key i" by blast
    obtain i where i: "1 \<le> i" "i \<le> ?sz" "used (tab ! i) \<le> 0" "reach (htab_size htab) tab key i"
      and r: "hsearch_r mem key (Some d) ENTER htab =
        hsearch_miss mem key (Some d) ENTER tab (first_hash (htab_size htab) key) i 0 htab"
      using hsearch_slot [OF t ok nz(1) abs free] by blast
    let ?s = "\<lparr>used = int (first_hash (htab_size htab) key), ent_key = Some key, ent_data = Some d\<rparr>"
    let ?t = "tab[i := ?s]"
    let ?htab = "htab\<lparr>htab_table := Some ?t, htab_filled := htab_filled htab + 1\<rparr>"
    have h: "0 < used ?s" using hash_bounds(1) [of "htab_size htab" key] ok by (simp add: tab_ok_def)
    note lt = live_lt [OF i(1-3)]
    then have ne: "htab_filled htab \<noteq> htab_size htab" using fil by auto
    have r': "hsearch_r mem key (Some d) ENTER htab = Some (Hfound 1 i, ?htab)"
      using r ne dup nz i(2) len by (simp add: hsearch_miss_def Let_def)
    have ok': "tab_ok (htab_size htab) ?t"
      using i nz abs by (intro tab_ok_update [OF ok i(1,2)]) auto
    have lv: "live ?t ?sz = insert i (live tab ?sz)" using live_update [OF len i(1,2), of ?s] h by simp
    have "i \<notin> live tab ?sz" using i(3) by (simp add: live_def)
    then have "card (live ?t ?sz) = card (live tab ?sz) + 1" using lv live_finite by simp
    moreover have "unat (htab_filled htab + 1) = unat (htab_filled htab) + 1"
      using lt fil ok by (simp add: unat_word_ariths tab_ok_def)
    ultimately have "htab_ok ?htab" using ok' fil by (intro htab_okI [of _ ?t]) simp_all
    moreover have "htab_map ?htab = (htab_map htab) (key := (if used ?s > 0 then ent_data ?s else None))"
      by (rule htab_map_update [OF t ok _ _ ok' i(1,2)]) (use i(3) h in simp_all)
    moreover have "free_slots htab \<le> free_slots ?htab + 1"
      using free_slots_update [OF t, of ?htab i ?s] i len by (auto split: if_splits)
    ultimately show ?thesis using r' h by (intro exI [of _ 1] exI [of _ i] exI [of _ ?htab]) simp
  qed
qed

lemma hdelete:
  assumes ok: "htab_ok htab" and key: "0 \<notin> set key"
  shows "\<exists>n htab'. hdelete_r key htab = Some (n, htab') \<and> htab_ok htab'
    \<and> htab_size htab' = htab_size htab \<and> htab_map htab' = (htab_map htab)(key := None)
    \<and> (n = (if htab_map htab key = None then 0 else 1)) \<and> free_slots htab \<le> free_slots htab'"
proof -
  obtain tab where t: "htab_table htab = Some tab" and tok: "tab_ok (htab_size htab) tab"
    and fil: "unat (htab_filled htab) = card (live tab (unat (htab_size htab)))"
    using ok by (auto simp: htab_ok_def)
  let ?sz = "unat (htab_size htab)"
  have len: "length tab = ?sz + 1" using tok by (simp add: tab_ok_def)
  show ?thesis
  proof (cases "\<exists>i. holds tab ?sz key i")
    case False
    then have "htab_map htab key = None" using htab_map_Some_holds [OF t tok] by blast
    moreover from this have "hsearch_r (\<lambda>_. True) key None FIND htab = Some (Herror ESRCH, htab)"
      using hfind [OF ok key] by simp
    moreover from calculation have "(htab_map htab)(key := None) = htab_map htab" by (simp add: fun_upd_idem)
    ultimately show ?thesis using ok by (simp add: hdelete_r_def)
  next
    case True
    then obtain i where i: "holds tab ?sz key i" by blast
    let ?s = "(tab ! i)\<lparr>used := - 1\<rparr>" and ?t = "tab[i := (tab ! i)\<lparr>used := - 1\<rparr>]"
    let ?htab = "htab\<lparr>htab_table := Some ?t, htab_filled := htab_filled htab - 1\<rparr>"
    have il: "1 \<le> i" "i \<le> ?sz" "used (tab ! i) > 0" "ent_key (tab ! i) = Some key" using i by (simp_all add: holds_def)
    have r: "hdelete_r key htab = Some (1, ?htab)"
      using hsearch_present [OF t tok i, of "\<lambda>_. True" None FIND] t by (simp add: hdelete_r_def hsearch_hit_def)
    have ok': "tab_ok (htab_size htab) ?t" by (intro tab_ok_update [OF tok il(1,2)]) simp
    have lv: "live ?t ?sz = live tab ?sz - {i}" using live_update [OF len il(1,2), of ?s] by simp
    have li: "i \<in> live tab ?sz" using il by (simp add: live_def)
    then have c: "card (live ?t ?sz) = card (live tab ?sz) - 1" "0 < card (live tab ?sz)"
      using lv live_finite [of tab ?sz] by (auto simp: card_gt_0_iff)
    then have "unat (htab_filled htab - 1) = unat (htab_filled htab) - 1"
      using fil by (subst unat_sub) (simp_all add: word_le_nat_alt)
    then have "htab_ok ?htab" using ok' fil c by (intro htab_okI [of _ ?t]) simp_all
    moreover have "htab_map ?htab = (htab_map htab) (key := (if used ?s > 0 then ent_data ?s else None))"
      by (rule htab_map_update [OF t tok _ _ ok' il(1,2)]) (use il i in simp_all)
    moreover have "free_slots htab \<le> free_slots ?htab"
      using free_slots_update [OF t, of ?htab i ?s] il len by simp
    moreover have "htab_map htab key \<noteq> None" using htab_map_Some_holds [OF t tok] i by blast
    ultimately show ?thesis using r by simp
  qed
qed

section \<open>The table as a store of variables\<close>

text \<open>What a user of the table sees: the entry found, an insertion, a deletion.\<close>

definition hget :: "byte list \<Rightarrow> hsearch_data \<Rightarrow> byte list option option" where
  "hget key htab = do {
     (r, htab) \<leftarrow> hsearch_r (\<lambda>_. True) key None FIND htab;
     (case r of
        Herror _ \<Rightarrow> Some None
      | Hfound _ i \<Rightarrow> do { tab \<leftarrow> htab_table htab; s \<leftarrow> get_slot tab i; Some (ent_data s) })
   }"

definition hput :: "byte list \<Rightarrow> byte list \<Rightarrow> hsearch_data \<Rightarrow> hsearch_data option" where
  "hput key d htab = do {
     (r, htab) \<leftarrow> hsearch_r (\<lambda>_. True) key (Some d) ENTER htab;
     (case r of Herror _ \<Rightarrow> None | Hfound _ _ \<Rightarrow> Some htab)
   }"

definition hdel :: "byte list \<Rightarrow> hsearch_data \<Rightarrow> hsearch_data option" where
  "hdel key htab = map_option snd (hdelete_r key htab)"

datatype hop = Put "byte list" "byte list" | Del "byte list"

primrec hop_ok :: "hop \<Rightarrow> bool" where
  "hop_ok (Put k d) \<longleftrightarrow> 0 \<notin> set k \<and> 0 \<notin> set d"
| "hop_ok (Del k) \<longleftrightarrow> 0 \<notin> set k"

primrec is_Put :: "hop \<Rightarrow> bool" where
  "is_Put (Put k d) = True"
| "is_Put (Del k) = False"

text \<open>A sequence of operations on a table, and on a map.\<close>

primrec run_ops :: "(byte list \<Rightarrow> byte list \<Rightarrow> 's \<Rightarrow> 's option) \<Rightarrow> (byte list \<Rightarrow> 's \<Rightarrow> 's option) \<Rightarrow> hop list \<Rightarrow> 's \<Rightarrow> 's option" where
  "run_ops put del [] s = Some s"
| "run_ops put del (x # xs) s = do { s \<leftarrow> (case x of Put k d \<Rightarrow> put k d s | Del k \<Rightarrow> del k s); run_ops put del xs s }"

primrec map_ops :: "hop list \<Rightarrow> (byte list \<Rightarrow> byte list option) \<Rightarrow> byte list \<Rightarrow> byte list option" where
  "map_ops [] m = m"
| "map_ops (x # xs) m = map_ops xs (case x of Put k d \<Rightarrow> m(k \<mapsto> d) | Del k \<Rightarrow> m(k := None))"

text \<open>The contract of such a store: the invariant, the map it represents, and how many insertions it
  is sure to accept.\<close>

locale var_store =
  fixes inv :: "'s \<Rightarrow> bool"
    and vars :: "'s \<Rightarrow> byte list \<Rightarrow> byte list option"
    and room :: "'s \<Rightarrow> nat"
    and put :: "byte list \<Rightarrow> byte list \<Rightarrow> 's \<Rightarrow> 's option"
    and del :: "byte list \<Rightarrow> 's \<Rightarrow> 's option"
    and get :: "byte list \<Rightarrow> 's \<Rightarrow> byte list option option"
  assumes put_law: "inv s \<Longrightarrow> 0 < room s \<Longrightarrow> 0 \<notin> set k \<Longrightarrow> 0 \<notin> set d \<Longrightarrow>
      \<exists>s'. put k d s = Some s' \<and> inv s' \<and> vars s' = (vars s)(k \<mapsto> d) \<and> room s \<le> room s' + 1"
    and del_law: "inv s \<Longrightarrow> 0 \<notin> set k \<Longrightarrow>
      \<exists>s'. del k s = Some s' \<and> inv s' \<and> vars s' = (vars s)(k := None) \<and> room s \<le> room s'"
    and get_law: "inv s \<Longrightarrow> 0 \<notin> set k \<Longrightarrow> get k s = Some (vars s k)"
begin

lemma run_refines:
  "inv s \<Longrightarrow> list_all hop_ok xs \<Longrightarrow> length (filter is_Put xs) \<le> room s \<Longrightarrow>
     \<exists>s'. run_ops put del xs s = Some s' \<and> inv s' \<and> vars s' = map_ops xs (vars s)"
proof (induction xs arbitrary: s)
  case (Cons x xs)
  show ?case
  proof (cases x)
    case (Put k d)
    then obtain s' where s': "put k d s = Some s'" "inv s'" "vars s' = (vars s)(k \<mapsto> d)" "room s \<le> room s' + 1"
      using put_law [OF Cons.prems(1), of k d] Cons.prems(2,3) by auto
    then have "\<exists>t. run_ops put del xs s' = Some t \<and> inv t \<and> vars t = map_ops xs (vars s')"
      using Cons.prems Put by (intro Cons.IH) auto
    then show ?thesis using s' Put by simp
  next
    case (Del k)
    then obtain s' where s': "del k s = Some s'" "inv s'" "vars s' = (vars s)(k := None)" "room s \<le> room s'"
      using del_law [OF Cons.prems(1), of k] Cons.prems(2) by auto
    then have "\<exists>t. run_ops put del xs s' = Some t \<and> inv t \<and> vars t = map_ops xs (vars s')"
      using Cons.prems Del by (intro Cons.IH) auto
    then show ?thesis using s' Del by simp
  qed
qed simp

lemma get_after_run:
  assumes "inv s" and "list_all hop_ok xs" and "length (filter is_Put xs) \<le> room s" and "0 \<notin> set k"
  shows "\<exists>s'. run_ops put del xs s = Some s' \<and> inv s' \<and> get k s' = Some (map_ops xs (vars s) k)"
  using run_refines [OF assms(1-3)] get_law [OF _ assms(4)] by auto

end

interpretation hv: var_store htab_ok htab_map free_slots hput hdel hget
proof
  show "\<exists>s'. hput k d s = Some s' \<and> htab_ok s' \<and> htab_map s' = (htab_map s)(k \<mapsto> d) \<and> free_slots s \<le> free_slots s' + 1"
    if "htab_ok s" "0 < free_slots s" "0 \<notin> set k" "0 \<notin> set d" for s k d
    using henter [of s "\<lambda>_. True" k d] that has_free_slots [OF that(1)] by (auto simp: hput_def)
  show "\<exists>s'. hdel k s = Some s' \<and> htab_ok s' \<and> htab_map s' = (htab_map s)(k := None) \<and> free_slots s \<le> free_slots s'"
    if "htab_ok s" "0 \<notin> set k" for s k
    using hdelete [OF that] by (auto simp: hdel_def)
  show "hget k s = Some (htab_map s k)" if "htab_ok s" "0 \<notin> set k" for s k
    using hfind [OF that, of "\<lambda>_. True" None] by (auto simp: hget_def get_slot_def split: option.splits)
qed

subsection \<open>A new table\<close>

lemma or_one:
  fixes nel :: u32
  shows "odd (unat (nel OR 1))" and "unat nel \<le> unat (nel OR 1)" and "unat (nel OR 1) \<le> unat nel + 1"
proof -
  have "unat (nel OR 1) = unat nel OR 1" by (simp add: unsigned_or_eq)
  also have "\<dots> = unat nel + of_bool (even (unat nel))" by (rule or_one_eq)
  finally have u: "unat (nel OR 1) = unat nel + of_bool (even (unat nel))" .
  show "odd (unat (nel OR 1))" "unat nel \<le> unat (nel OR 1)" "unat (nel OR 1) \<le> unat nel + 1"
    unfolding u by simp_all
qed

text \<open>The table that \<^verbatim>\<open>hcreate_r\<close> leaves.\<close>

definition fresh_htab :: "u32 \<Rightarrow> hsearch_data" where
  "fresh_htab szw =
     \<lparr>htab_table = Some (replicate (unat (szw + 1)) fresh_slot), htab_size = szw, htab_filled = 0\<rparr>"

lemma fresh_table:
  assumes "prime_size (unat szw)" and "unat szw < 2 ^ 31"
  shows "htab_ok (fresh_htab szw)" and "htab_map (fresh_htab szw) = Map.empty" and "free_slots (fresh_htab szw) = unat szw"
proof -
  define tab where "tab = replicate (unat szw + 1) fresh_slot"
  have "unat (szw + 1) = unat szw + 1" using assms(2) by (simp add: unat_word_ariths)
  then have f: "fresh_htab szw = \<lparr>htab_table = Some tab, htab_size = szw, htab_filled = 0\<rparr>"
    by (simp add: fresh_htab_def tab_def)
  have n: "used (tab ! i) = 0" if "i \<le> unat szw" for i
    using that unfolding tab_def by (subst nth_replicate) (simp_all add: fresh_slot_def)
  have h: "\<not> holds tab (unat szw) k i" for k i unfolding holds_def using n [of i] by auto
  have "length tab = unat szw + 1" by (simp add: tab_def)
  then have tok: "tab_ok szw tab" using assms n h unfolding tab_ok_def by simp
  have "live tab (unat szw) = {}" unfolding live_def using n by fastforce
  then show "htab_ok (fresh_htab szw)" using tok by (intro htab_okI [of _ tab]) (simp_all add: f)
  show "htab_map (fresh_htab szw) = Map.empty"
    by (rule ext, rule htab_map_absent [of _ tab]) (use tok h in \<open>simp_all add: f\<close>)
  show "free_slots (fresh_htab szw) = unat szw" by (simp add: f free_slots_def tab_def fresh_slot_def)
qed

lemma hcreate_small:
  assumes "htab_table htab = None" and "4 \<le> unat nel" and "unat nel \<le> 520"
  shows "\<exists>p. prime_size (unat p) \<and> unat nel \<le> unat p \<and> unat p \<le> 521
    \<and> hcreate_r mem nel htab = (if mem (unat (p + 1) * 12)
       then Some (1, fresh_htab p)
       else Some (0, htab\<lparr>htab_size := p, htab_filled := 0\<rparr>))"
proof -
  note o = or_one [of nel]
  have "5 \<le> unat (nel OR 1)" "unat (nel OR 1) \<le> 521" using o assms(2,3) by presburger+
  then obtain p where "hcreate_loop (nel OR 1) = Some p" "prime_size (unat p)" "unat (nel OR 1) \<le> unat p" "unat p \<le> 521"
    using hcreate_loop_521 [of "nel OR 1"] o(1) by auto
  then show ?thesis using assms(1) o(2) by (intro exI [of _ p]) (auto simp: hcreate_r_def Let_def fresh_htab_def)
qed

text \<open>C7. A table made for a number of entries between 4 and 520 (the environment asks for at most
  \<^verbatim>\<open>CONFIG_ENV_MAX_ENTRIES\<close> = 512) is created, its size is a prime not below that number, and it is
  a map: after any sequence of insertions and deletions with no more insertions than entries asked for,
  every operation of which succeeds, a search finds for every key what the map holds for it, and nothing
  else. Searching never runs forever and never leaves the table.\<close>

theorem hashtable_refines_map:
  assumes "htab_table htab0 = None" and "4 \<le> unat nel" and "unat nel \<le> 520"
    and "list_all hop_ok xs" and "length (filter is_Put xs) \<le> unat nel" and "0 \<notin> set k"
  shows "\<exists>htab htab'. hcreate_r (\<lambda>_. True) nel htab0 = Some (1, htab) \<and> prime_size (unat (htab_size htab))
    \<and> unat nel \<le> unat (htab_size htab) \<and> run_ops hput hdel xs htab = Some htab'
    \<and> hget k htab' = Some (map_ops xs Map.empty k)"
proof -
  obtain p where p: "prime_size (unat p)" "unat nel \<le> unat p" "unat p \<le> 521"
    and c: "hcreate_r (\<lambda>_. True) nel htab0 =
      Some (1, fresh_htab p)"
    using hcreate_small [OF assms(1-3), of "\<lambda>_. True"] by auto
  have "unat p < 2 ^ 31" using p(3) by simp
  note f = fresh_table [OF p(1) this]
  have "length (filter is_Put xs) \<le> unat p" using assms(5) p(2) by simp
  then show ?thesis using c p(1,2) hv.get_after_run [OF f(1) assms(4) _ assms(6)] f(2,3) by (auto simp: fresh_htab_def)
qed

lemma hashtable_refines_map_witness:
  "\<exists>htab htab'. hcreate_r (\<lambda>_. True) 64 \<lparr>htab_table = None, htab_size = 0, htab_filled = 0\<rparr> = Some (1, htab)
    \<and> prime_size (unat (htab_size htab)) \<and> unat (64::u32) \<le> unat (htab_size htab)
    \<and> run_ops hput hdel [Put [97] [49], Put [98] [50], Put [97] [51], Del [98]] htab = Some htab'
    \<and> hget [97] htab' = Some (map_ops [Put [97] [49], Put [98] [50], Put [97] [51], Del [98]] Map.empty [97])"
  by (rule hashtable_refines_map) simp_all

section \<open>Where the table goes wrong\<close>

text \<open>Without a free slot the search for a new key comes back to its first slot, and the entry goes there.\<close>

lemma hsearch_enter_start:
  assumes t: "htab_table htab = Some tab" and ok: "tab_ok (htab_size htab) tab" and "\<not> has_free htab"
    and "htab_filled htab \<noteq> htab_size htab" and key: "0 \<notin> set key" "0 \<notin> set d"
    and abs: "\<And>i. \<not> holds tab (unat (htab_size htab)) key i"
    and "used (tab ! first_hash (htab_size htab) key) > 0"
  defines "h \<equiv> first_hash (htab_size htab) key"
  shows "hsearch_r (\<lambda>_. True) key (Some d) ENTER htab = Some (Hfound 1 h,
    htab\<lparr>htab_table := Some (tab[h := \<lparr>used = int h, ent_key = Some key, ent_data = Some d\<rparr>]),
         htab_filled := htab_filled htab + 1\<rparr>)"
proof -
  let ?sz = "unat (htab_size htab)"
  have sz: "prime_size ?sz" and len: "length tab = ?sz + 1" using ok by (simp_all add: tab_ok_def)
  have nf: "\<not> (used (tab ! idx) = 0 \<and> 1 \<le> idx \<and> idx \<le> ?sz)" for idx
    using assms(3) t by (auto simp: has_free_def)
  obtain fd idx where "hsearch_r (\<lambda>_. True) key (Some d) ENTER htab = hsearch_miss (\<lambda>_. True) key (Some d) ENTER tab h idx fd htab"
    "fd = 0 \<or> fd = h \<and> used (tab ! fd) = - 1" "idx = h"
    using hsearch_absent [OF t ok key(1) abs, of "\<lambda>_. True" "Some d" ENTER] nf unfolding h_def by blast
  moreover from this have "fd = 0" using assms(8) by (auto simp: h_def)
  ultimately show ?thesis
    using assms(4) key hash_bounds(2) [OF sz, of key] len by (simp add: hsearch_miss_def Let_def strdup_def cstr_id h_def)
qed

text \<open>C36. The tombstones are reused only when the first slot tried is one. With deleted entries elsewhere
  and no slot left that was never used, the table is not full by its own count, the search comes back to
  the first slot, and a new key is entered there although that slot is in use: the entry of the other key
  is lost, the call reports success, and the count of entries is one too high from then on.\<close>

theorem hsearch_enter_overwrites:
  assumes "htab_ok htab" and "\<not> has_free htab" and "htab_filled htab \<noteq> htab_size htab"
    and "0 \<notin> set key" and "0 \<notin> set d" and "htab_map htab key = None"
    and "htab_table htab = Some tab" and "used (tab ! first_hash (htab_size htab) key) > 0"
    and "ent_key (tab ! first_hash (htab_size htab) key) = Some other"
  shows "\<exists>htab'. hsearch_r (\<lambda>_. True) key (Some d) ENTER htab =
      Some (Hfound 1 (first_hash (htab_size htab) key), htab')
    \<and> htab_map htab other \<noteq> None \<and> htab_map htab' other = None \<and> htab_map htab' key = Some d \<and> \<not> htab_ok htab'"
proof -
  let ?sz = "unat (htab_size htab)" and ?h = "first_hash (htab_size htab) key"
  note t = assms(7)
  have ok: "tab_ok (htab_size htab) tab" and fil: "unat (htab_filled htab) = card (live tab ?sz)"
    using assms(1) t by (auto simp: htab_ok_def)
  have sz: "prime_size ?sz" and len: "length tab = ?sz + 1" using ok by (simp_all add: tab_ok_def)
  note b = hash_bounds [OF sz]
  have abs: "\<And>i. \<not> holds tab ?sz key i" using htab_map_Some_holds [OF t ok] assms(6) by blast
  have other: "holds tab ?sz other ?h" using assms(8,9) b(1,2) by (simp add: holds_def)
  then have uniq: "holds tab ?sz other j \<Longrightarrow> j = ?h" for j using ok unfolding tab_ok_def by blast
  have ne: "other \<noteq> key" using abs other by auto
  let ?s = "\<lparr>used = int ?h, ent_key = Some key, ent_data = Some d\<rparr>"
  let ?t = "tab[?h := ?s]"
  let ?htab = "htab\<lparr>htab_table := Some ?t, htab_filled := htab_filled htab + 1\<rparr>"
  have h: "0 < used ?s" using b(1) [of key] by simp
  have r': "hsearch_r (\<lambda>_. True) key (Some d) ENTER htab = Some (Hfound 1 ?h, ?htab)"
    by (rule hsearch_enter_start [OF t ok assms(2-5) abs assms(8)])
  have "reach (htab_size htab) tab key ?h"
    unfolding reach_def using sz by (intro exI [of _ 0]) (simp add: prime_size_def)
  then have ok': "tab_ok (htab_size ?htab) ?t"
    using assms(4,5) abs b(1,2) by (simp, intro tab_ok_update [OF ok]) auto
  have hu: "holds ?t (unat (htab_size ?htab)) k j \<longleftrightarrow> (if j = ?h then k = key else holds tab ?sz k j)" for k j
    using holds_update [OF len, of ?h ?s k j] h b(1,2) [of key] by auto
  have "htab_map ?htab other = None"
  proof (rule htab_map_absent [OF _ ok'])
    show "\<not> holds ?t (unat (htab_size ?htab)) other i" for i
      unfolding hu using uniq [of i] ne by auto
  qed simp
  moreover have "htab_map ?htab key = Some d"
    using htab_map_holds [OF _ ok', of key ?h] hu b(2) [of key] len by simp
  moreover have "\<not> htab_ok ?htab"
  proof
    assume "htab_ok ?htab"
    then have "unat (htab_filled htab + 1) = card (live ?t ?sz)" by (auto simp: htab_ok_def)
    also have "live ?t ?sz = live tab ?sz"
      using live_update [OF len b(1,2), of key ?s] h other by (auto simp: live_def holds_def)
    finally have "unat (htab_filled htab + 1) = unat (htab_filled htab)" using fil by simp
    then show False by (simp add: word_unat_eq_iff [symmetric])
  qed
  moreover have "htab_map htab other \<noteq> None" using htab_map_Some_holds [OF t ok] other by blast
  ultimately show ?thesis using r' by blast
qed

text \<open>A small table of five slots with four entries and a tombstone.\<close>

definition worn_slot :: "int \<Rightarrow> byte \<Rightarrow> hslot" where
  "worn_slot u c = \<lparr>used = u, ent_key = Some [c], ent_data = Some [49]\<rparr>"

definition worn_tab :: "hslot list" where
  "worn_tab = [fresh_slot, worn_slot 1 100, worn_slot 2 101, worn_slot 3 102, worn_slot 4 103, worn_slot (- 1) 104]"

definition worn_htab :: hsearch_data where
  "worn_htab = \<lparr>htab_table = Some worn_tab, htab_size = 5, htab_filled = 4\<rparr>"

lemma five: "1 \<le> i \<and> i \<le> (5::nat) \<longleftrightarrow> i = 1 \<or> i = 2 \<or> i = 3 \<or> i = 4 \<or> i = 5"
  by auto

lemma worn_hashes:
  "first_hash 5 [100] = 1" "first_hash 5 [101] = 2" "first_hash 5 [102] = 3" "first_hash 5 [103] = 4" "first_hash 5 [105] = 1"
  by code_simp+

lemma worn_nth:
  "worn_tab ! 1 = worn_slot 1 100" "worn_tab ! 2 = worn_slot 2 101" "worn_tab ! 3 = worn_slot 3 102"
  "worn_tab ! 4 = worn_slot 4 103" "worn_tab ! Suc 0 = worn_slot 1 100" "worn_tab ! 5 = worn_slot (- 1) 104"
  by (simp_all add: worn_tab_def)

lemma prime_size_5: "prime_size 5"
proof -
  have "\<not> d dvd 5" if "1 < d" "d < 5" for d :: nat
  proof -
    have "d = 2 \<or> d = 3 \<or> d = 4" using that by auto
    then show ?thesis by auto
  qed
  then show ?thesis by (simp add: prime_size_def)
qed

lemma worn_ok: "htab_ok worn_htab"
proof (rule htab_okI [of _ worn_tab])
  have u5: "unat (5::u32) = 5" by simp
  have r: "live_ok 5 worn_tab i" if "worn_tab ! i = worn_slot (int i) c" "first_hash 5 [c] = i" "c \<noteq> 0" for i c
    unfolding live_ok_def reach_def using that
    by (intro exI [of _ "[c]"] exI [of _ "[49]"]) (auto simp: worn_slot_def intro!: exI [of _ 0])
  have "\<forall>i. 1 \<le> i \<and> i \<le> (5::nat) \<longrightarrow> used (worn_tab ! i) = - 1 \<or> used (worn_tab ! i) = 0 \<or> live_ok 5 worn_tab i"
    unfolding five using r [of 1 100] r [of 2 101] r [of 3 102] r [of 4 103] worn_hashes
    by (auto simp: worn_nth) (simp_all add: worn_slot_def)
  moreover have "\<forall>i j k. holds worn_tab 5 k i \<and> holds worn_tab 5 k j \<longrightarrow> i = j"
    unfolding holds_def conj_assoc [symmetric] five by (auto simp: worn_nth worn_slot_def)
  ultimately have "tab_ok 5 worn_tab" unfolding tab_ok_def u5 using prime_size_5 by (simp add: worn_tab_def)
  then show "tab_ok (htab_size worn_htab) worn_tab" by (simp add: worn_htab_def)
  have "live worn_tab 5 = {1, 2, 3, 4}"
    unfolding live_def conj_assoc [symmetric] five by (auto simp: worn_nth worn_slot_def)
  then show "unat (htab_filled worn_htab) = card (live worn_tab (unat (htab_size worn_htab)))"
    by (simp add: worn_htab_def)
qed (simp add: worn_htab_def)

lemma hsearch_enter_overwrites_witness:
  "\<exists>htab'. hsearch_r (\<lambda>_. True) [105] (Some [50]) ENTER worn_htab =
      Some (Hfound 1 (first_hash (htab_size worn_htab) [105]), htab')
    \<and> htab_map worn_htab [100] \<noteq> None \<and> htab_map htab' [100] = None \<and> htab_map htab' [105] = Some [50] \<and> \<not> htab_ok htab'"
proof (rule hsearch_enter_overwrites [OF worn_ok, of _ _ worn_tab])
  show "\<not> has_free worn_htab"
  proof
    assume "has_free worn_htab"
    then obtain i where "1 \<le> i \<and> i \<le> (5::nat)" "used (worn_tab ! i) = 0"
      by (auto simp: has_free_def worn_htab_def)
    then show False unfolding five by (auto simp: worn_nth worn_slot_def)
  qed
  show "htab_map worn_htab [105] = None"
    by (simp add: htab_map_def worn_htab_def worn_tab_def worn_slot_def)
qed (simp_all add: worn_htab_def worn_hashes worn_nth worn_slot_def)

text \<open>C37. A slot is marked as used before its key is copied. When there is no memory for the copy, the
  call reports the error and leaves a used slot without a key: every later search for this key
  compares it with the null pointer.\<close>

theorem hsearch_enter_no_memory:
  assumes "htab_ok htab" and "htab_table htab = Some tab" and "used (tab ! first_hash (htab_size htab) key) = 0"
    and "0 \<notin> set key" and "\<not> mem (length key + 1)"
  shows "\<exists>htab'. hsearch_r mem key (Some d) ENTER htab = Some (Herror ENOMEM, htab')
    \<and> (\<forall>mem' data action. hsearch_r mem' key data action htab' = None)"
proof -
  let ?h = "first_hash (htab_size htab) key"
  have ok: "tab_ok (htab_size htab) tab" and fil: "unat (htab_filled htab) = card (live tab (unat (htab_size htab)))"
    using assms(1,2) by (auto simp: htab_ok_def)
  have sz: "prime_size (unat (htab_size htab))" and len: "length tab = unat (htab_size htab) + 1" using ok by (simp_all add: tab_ok_def)
  note b = hash_bounds(1,2) [OF sz, of key]
  have w: "htab_size htab \<noteq> 0" using sz by (auto simp: prime_size_def)
  have "htab_filled htab \<noteq> htab_size htab" using live_lt [OF b, of tab] assms(3) fil by auto
  then have r: "hsearch_r mem key (Some d) ENTER htab =
      Some (Herror ENOMEM, htab\<lparr>htab_table := Some (tab[?h := \<lparr>used = int ?h, ent_key = None, ent_data = strdup mem (Some d)\<rparr>])\<rparr>)"
    using assms w b len by (simp add: hsearch_r_def hsearch_miss_def Let_def get_slot_def strdup_def cstr_id)
  moreover have "hsearch_r mem' key data action
      (htab\<lparr>htab_table := Some (tab[?h := \<lparr>used = int ?h, ent_key = None, ent_data = e\<rparr>])\<rparr>) = None" for mem' data action e
    using w b len by (simp add: hsearch_r_def Let_def get_slot_def slot_match_def)
  ultimately show ?thesis by blast
qed

lemma hsearch_enter_no_memory_witness:
  "\<exists>htab'. hsearch_r (\<lambda>n. n > 2) [98] (Some [50, 50]) ENTER (fresh_htab 5) = Some (Herror ENOMEM, htab')
    \<and> (\<forall>mem' data action. hsearch_r mem' [98] data action htab' = None)"
proof (rule hsearch_enter_no_memory)
  show "htab_ok (fresh_htab 5)" using prime_size_5 by (intro fresh_table) simp_all
  show "htab_table (fresh_htab 5) = Some (replicate 6 fresh_slot)" by (simp add: fresh_htab_def)
  show "used (replicate 6 fresh_slot ! first_hash (htab_size (fresh_htab 5)) [98]) = 0"
    using hash_bounds(2) [of 5 "[98]"] prime_size_5 by (subst nth_replicate) (simp_all add: fresh_htab_def fresh_slot_def)
qed simp_all

end
