(* ===== verification/Qsort.thy ===== *)
theory Qsort
  imports Boot_Prelude "HOL-Library.Monad_Syntax" "HOL-Library.Multiset"
begin

text \<open>
  The sort of \<^verbatim>\<open>u-boot32/lib/qsort.c\<close>, a shell sort with the gaps 1, 4, 13, 40, ...: every pass permutes
  the array, the gaps come down to one, and the last pass is an insertion sort.
\<close>

section \<open>The program\<close>

text \<open>The offsets \<^verbatim>\<open>wgap\<close>, \<open>i\<close> and \<open>j\<close> are in bytes, as in the code; an element of \<open>width\<close> bytes is one item of
  the list, so the byte-wise exchange of two elements is \<open>swap_elems\<close>. Sizes and offsets, \<^verbatim>\<open>size_t\<close> in the code,
  are natural numbers: those of an array that is in memory do not wrap.\<close>

definition swap_elems :: "nat \<Rightarrow> nat \<Rightarrow> 'a list \<Rightarrow> 'a list" where
  "swap_elems a b xs = xs[a := xs ! b, b := xs ! a]"

partial_function (option) qsort_gap :: "nat \<Rightarrow> nat \<Rightarrow> nat option" where
  "qsort_gap nel wgap =
     (let wgap = 3 * wgap + 1 in if wgap < (nel - 1) div 3 then qsort_gap nel wgap else Some wgap)"

partial_function (option) qsort_sift ::
  "('a \<Rightarrow> 'a \<Rightarrow> int) \<Rightarrow> nat \<Rightarrow> nat \<Rightarrow> nat \<Rightarrow> 'a list \<Rightarrow> 'a list option" where
  "qsort_sift cmp width wgap j xs = (
     let j = j - wgap; a = j div width; b = (j + wgap) div width in
     if \<not> (a < length xs \<and> b < length xs) then None
     else if cmp (xs ! a) (xs ! b) \<le> 0 then Some xs
     else let xs = swap_elems a b xs in
       if wgap \<le> j then qsort_sift cmp width wgap j xs else Some xs)"

partial_function (option) qsort_pass ::
  "('a \<Rightarrow> 'a \<Rightarrow> int) \<Rightarrow> nat \<Rightarrow> nat \<Rightarrow> nat \<Rightarrow> nat \<Rightarrow> 'a list \<Rightarrow> 'a list option" where
  "qsort_pass cmp width wnel wgap i xs = do {
     xs \<leftarrow> qsort_sift cmp width wgap i xs;
     let i = i + width;
     if i < wnel then qsort_pass cmp width wnel wgap i xs else Some xs
   }"

partial_function (option) qsort_passes ::
  "('a \<Rightarrow> 'a \<Rightarrow> int) \<Rightarrow> nat \<Rightarrow> nat \<Rightarrow> nat \<Rightarrow> 'a list \<Rightarrow> 'a list option" where
  "qsort_passes cmp width wnel wgap xs = do {
     xs \<leftarrow> qsort_pass cmp width wnel wgap wgap xs;
     let wgap = (wgap - width) div 3;
     if wgap \<noteq> 0 then qsort_passes cmp width wnel wgap xs else Some xs
   }"

definition qsort :: "('a \<Rightarrow> 'a \<Rightarrow> int) \<Rightarrow> nat \<Rightarrow> nat \<Rightarrow> 'a list \<Rightarrow> 'a list option" where
  "qsort cmp nel width xs =
     (if nel > 1 \<and> width > 0 then do {
        wgap \<leftarrow> qsort_gap nel 0;
        qsort_passes cmp width (nel * width) (wgap * width) xs
      }
      else Some xs)"

section \<open>The gaps\<close>

inductive gap :: "nat \<Rightarrow> bool" where
  gap_1: "gap 1"
| gap_Suc: "gap g \<Longrightarrow> gap (3 * g + 1)"

lemma gap_pos: "gap g \<Longrightarrow> 0 < g"
  by (induction rule: gap.induct) simp_all

lemma gap_pred: "gap g \<Longrightarrow> g = 1 \<or> gap ((g - 1) div 3)"
  by (erule gap.cases) simp_all

lemma qsort_gap_ok:
  assumes "1 < nel" and "wgap = 0 \<or> gap wgap" and "3 * wgap + 1 < nel"
  shows "\<exists>g. qsort_gap nel wgap = Some g \<and> gap g \<and> g < nel"
  using assms(2,3)
proof (induction "nel - wgap" arbitrary: wgap rule: less_induct)
  case less
  have g: "gap (3 * wgap + 1)" using less.prems gap_1 gap_Suc by auto
  show ?case
  proof (cases "3 * wgap + 1 < (nel - 1) div 3")
    case True
    have "\<exists>g. qsort_gap nel (3 * wgap + 1) = Some g \<and> gap g \<and> g < nel"
      using g True less.prems by (intro less.hyps) auto
    then show ?thesis using True by (subst qsort_gap.simps) (simp add: Let_def)
  next
    case False
    then show ?thesis using g less.prems by (subst qsort_gap.simps) (simp add: Let_def)
  qed
qed

section \<open>A permutation\<close>

lemma swap_elems_simps [simp]:
  "length (swap_elems a b xs) = length xs"
  "a < length xs \<Longrightarrow> b < length xs \<Longrightarrow> mset (swap_elems a b xs) = mset xs"
  by (simp_all add: swap_elems_def mset_swap)

lemma swap_elems_nth:
  "a < length xs \<Longrightarrow> b < length xs \<Longrightarrow> i < length xs \<Longrightarrow>
     swap_elems a b xs ! i = (if i = b then xs ! a else if i = a then xs ! b else xs ! i)"
  by (simp add: swap_elems_def nth_list_update)

lemma qsort_sift_step:
  assumes "0 < width" and "0 < g" and "g \<le> j" and "j < length xs"
  shows "qsort_sift cmp width (g * width) (j * width) xs =
    (if cmp (xs ! (j - g)) (xs ! j) \<le> 0 then Some xs
     else if g \<le> j - g then qsort_sift cmp width (g * width) ((j - g) * width) (swap_elems (j - g) j xs)
     else Some (swap_elems (j - g) j xs))"
proof -
  have s: "j * width - g * width = (j - g) * width" by (simp add: diff_mult_distrib)
  have "(j - g) * width + g * width = j * width" using assms(3) by (simp flip: add_mult_distrib)
  then show ?thesis using assms by (subst qsort_sift.simps) (simp add: Let_def s)
qed

lemma qsort_sift_perm:
  assumes "0 < width" and "0 < g" and "g \<le> j" and "j < length xs"
  shows "\<exists>ys. qsort_sift cmp width (g * width) (j * width) xs = Some ys \<and> mset ys = mset xs"
  using assms(3,4)
proof (induction j arbitrary: xs rule: less_induct)
  case (less j)
  note st = qsort_sift_step [OF assms(1,2) less.prems, of cmp]
  show ?case
  proof (cases "cmp (xs ! (j - g)) (xs ! j) \<le> 0 \<or> \<not> g \<le> j - g")
    case True
    then show ?thesis using st less.prems by auto
  next
    case False
    have "\<exists>ys. qsort_sift cmp width (g * width) ((j - g) * width) (swap_elems (j - g) j xs) = Some ys
        \<and> mset ys = mset (swap_elems (j - g) j xs)"
      using less.prems assms(2) False by (intro less.IH) auto
    then show ?thesis using st False less.prems by auto
  qed
qed

lemma qsort_pass_perm:
  assumes "0 < width" and "0 < g" and "g \<le> i" and "i < length xs"
  shows "\<exists>ys. qsort_pass cmp width (length xs * width) (g * width) (i * width) xs = Some ys \<and> mset ys = mset xs"
  using assms(3,4)
proof (induction "length xs - i" arbitrary: i xs rule: less_induct)
  case less
  obtain ys where ys: "qsort_sift cmp width (g * width) (i * width) xs = Some ys" "mset ys = mset xs"
    using qsort_sift_perm [OF assms(1,2) less.prems] by blast
  have len: "length ys = length xs" using ys(2) by (metis size_mset)
  have s: "i * width + width = Suc i * width" by simp
  show ?case
  proof (cases "Suc i < length xs")
    case True
    have "\<exists>zs. qsort_pass cmp width (length ys * width) (g * width) (Suc i * width) ys = Some zs \<and> mset zs = mset ys"
      using True less.prems len by (intro less.hyps) auto
    then show ?thesis
      using True ys len assms(1) by (subst qsort_pass.simps) (auto simp: Let_def s simp del: mult_Suc)
  next
    case False
    then have "\<not> Suc i * width < length xs * width" using assms(1) by (simp del: mult_Suc)
    then show ?thesis using ys by (subst qsort_pass.simps) (auto simp: Let_def s simp del: mult_Suc)
  qed
qed

lemma qsort_passes_perm:
  assumes "0 < width" and "gap g" and "g < length xs"
  shows "\<exists>ys. qsort_passes cmp width (length xs * width) (g * width) xs = Some ys \<and> mset ys = mset xs
    \<and> (\<exists>zs. mset zs = mset xs \<and> qsort_pass cmp width (length zs * width) width width zs = Some ys)"
  using assms(2,3)
proof (induction arbitrary: xs rule: gap.induct)
  case gap_1
  obtain ys where "qsort_pass cmp width (length xs * width) (1 * width) (1 * width) xs = Some ys" "mset ys = mset xs"
    using qsort_pass_perm [OF assms(1) _ _ gap_1, of 1] by auto
  then show ?case by (subst qsort_passes.simps) (auto simp: Let_def)
next
  case (gap_Suc g)
  let ?g = "3 * g + 1"
  obtain ys where ys: "qsort_pass cmp width (length xs * width) (?g * width) (?g * width) xs = Some ys" "mset ys = mset xs"
    using qsort_pass_perm [OF assms(1) _ _ gap_Suc.prems, of ?g] by auto
  have len: "length ys = length xs" using ys(2) by (metis size_mset)
  have d: "(Suc (3 * g) * width - width) div 3 = g * width" by simp
  have "\<exists>zs. qsort_passes cmp width (length ys * width) (g * width) ys = Some zs \<and> mset zs = mset ys
      \<and> (\<exists>us. mset us = mset ys \<and> qsort_pass cmp width (length us * width) width width us = Some zs)"
    using gap_Suc.prems len by (intro gap_Suc.IH) simp
  then show ?case
    using ys len gap_pos [OF gap_Suc.hyps] assms(1)
    by (subst qsort_passes.simps) (auto simp: Let_def d simp del: mult_Suc add_mult_distrib)
qed

section \<open>The last pass sorts\<close>

text \<open>While the element at \<open>j\<close> moves to the left, the others are in order, and it belongs before those it has
  passed.\<close>

definition sifting :: "('a \<Rightarrow> 'a \<Rightarrow> int) \<Rightarrow> nat \<Rightarrow> nat \<Rightarrow> 'a list \<Rightarrow> bool" where
  "sifting cmp n j xs \<longleftrightarrow>
     (\<forall>a b. a < b \<and> b \<le> n \<and> a \<noteq> j \<and> b \<noteq> j \<longrightarrow> cmp (xs ! a) (xs ! b) \<le> 0)
     \<and> (\<forall>b. j < b \<and> b \<le> n \<longrightarrow> cmp (xs ! j) (xs ! b) \<le> 0)"

definition sorted_upto :: "('a \<Rightarrow> 'a \<Rightarrow> int) \<Rightarrow> nat \<Rightarrow> 'a list \<Rightarrow> bool" where
  "sorted_upto cmp n xs \<longleftrightarrow> (\<forall>a b. a < b \<and> b \<le> n \<longrightarrow> cmp (xs ! a) (xs ! b) \<le> 0)"

definition total_cmp :: "('a \<Rightarrow> 'a \<Rightarrow> int) \<Rightarrow> 'a set \<Rightarrow> bool" where
  "total_cmp cmp A \<longleftrightarrow>
     (\<forall>x \<in> A. \<forall>y \<in> A. cmp x y > 0 \<longrightarrow> cmp y x \<le> 0)
     \<and> (\<forall>x \<in> A. \<forall>y \<in> A. \<forall>z \<in> A. cmp x y \<le> 0 \<longrightarrow> cmp y z \<le> 0 \<longrightarrow> cmp x z \<le> 0)"

lemma total_cmpD:
  assumes "total_cmp cmp (set xs)" and "i < length xs" and "j < length xs"
  shows "cmp (xs ! i) (xs ! j) > 0 \<Longrightarrow> cmp (xs ! j) (xs ! i) \<le> 0"
    and "k < length xs \<Longrightarrow> cmp (xs ! i) (xs ! j) \<le> 0 \<Longrightarrow> cmp (xs ! j) (xs ! k) \<le> 0 \<Longrightarrow> cmp (xs ! i) (xs ! k) \<le> 0"
  using assms nth_mem [of i xs] nth_mem [of j xs] nth_mem [of k xs] unfolding total_cmp_def by blast+

lemma sifting_swap:
  assumes s: "sifting cmp n (Suc i) xs" and n: "Suc i \<le> n" "n < length xs" and c: "total_cmp cmp (set xs)"
    and gt: "cmp (xs ! i) (xs ! Suc i) > 0"
  shows "sifting cmp n i (swap_elems i (Suc i) xs)"
proof -
  have sw: "swap_elems i (Suc i) xs ! k = (if k = Suc i then xs ! i else if k = i then xs ! Suc i else xs ! k)"
    if "k \<le> n" for k using swap_elems_nth [of i xs "Suc i" k] n that by simp
  have le: "cmp (xs ! Suc i) (xs ! i) \<le> 0" using total_cmpD(1) [OF c _ _ gt] n by simp
  show ?thesis
    unfolding sifting_def
  proof (intro conjI allI impI)
    fix a b
    assume ab: "a < b \<and> b \<le> n \<and> a \<noteq> i \<and> b \<noteq> i"
    consider "a = Suc i" | "b = Suc i" | "a \<noteq> Suc i" "b \<noteq> Suc i" by blast
    then show "cmp (swap_elems i (Suc i) xs ! a) (swap_elems i (Suc i) xs ! b) \<le> 0"
      using ab s by cases (auto simp: sw sifting_def)
  next
    fix b
    assume b: "i < b \<and> b \<le> n"
    then show "cmp (swap_elems i (Suc i) xs ! i) (swap_elems i (Suc i) xs ! b) \<le> 0"
      using s le n by (cases "b = Suc i") (auto simp: sw sifting_def)
  qed
qed

lemma sifting_stop:
  assumes s: "sifting cmp n j xs" and n: "j \<le> n" "n < length xs" and c: "total_cmp cmp (set xs)"
    and le: "j = 0 \<or> cmp (xs ! (j - 1)) (xs ! j) \<le> 0"
  shows "sorted_upto cmp n xs"
  unfolding sorted_upto_def
proof (intro allI impI)
  fix a b
  assume ab: "a < b \<and> b \<le> n"
  consider "a = j" | "b = j" "a = j - 1" | "b = j" "a < j - 1" | "a \<noteq> j" "b \<noteq> j" using ab by linarith
  then show "cmp (xs ! a) (xs ! b) \<le> 0"
  proof cases
    case 3
    then have "a < j - 1 \<and> j - 1 \<le> n \<and> a \<noteq> j \<and> j - 1 \<noteq> j" using n by linarith
    then have "cmp (xs ! a) (xs ! (j - 1)) \<le> 0" using s unfolding sifting_def by blast
    then show ?thesis using total_cmpD(2) [OF c, of a "j - 1" j] le 3 n by auto
  qed (use ab s le in \<open>auto simp: sifting_def\<close>)
qed

lemma qsort_sift_sorts:
  assumes "0 < width" and "sifting cmp n j xs" and "0 < j" and "j \<le> n" and "n < length xs" and "total_cmp cmp (set xs)"
  shows "\<exists>ys. qsort_sift cmp width width (j * width) xs = Some ys \<and> mset ys = mset xs \<and> sorted_upto cmp n ys
    \<and> (\<forall>k. n < k \<and> k < length xs \<longrightarrow> ys ! k = xs ! k)"
  using assms(2-)
proof (induction j arbitrary: xs)
  case (Suc i)
  note st = qsort_sift_step [OF assms(1), of 1 "Suc i" xs cmp]
  let ?xs = "swap_elems i (Suc i) xs"
  show ?case
  proof (cases "cmp (xs ! i) (xs ! Suc i) \<le> 0")
    case True
    then have "sorted_upto cmp n xs" using sifting_stop [OF Suc.prems(1,3-5)] by simp
    then show ?thesis using st True Suc.prems by auto
  next
    case False
    then have s: "sifting cmp n i ?xs" using sifting_swap [OF Suc.prems(1,3-5)] by simp
    have p: "mset ?xs = mset xs" using Suc.prems(3,4) by simp
    then have c: "total_cmp cmp (set ?xs)" using Suc.prems(5) by (metis set_mset_mset)
    have k: "?xs ! k = xs ! k" if "n < k" "k < length xs" for k
      using that Suc.prems(3) by (subst swap_elems_nth) auto
    show ?thesis
    proof (cases "i = 0")
      case True
      have "sorted_upto cmp n ?xs" using sifting_stop [OF s _ _ c] Suc.prems(3,4) True by simp
      then show ?thesis using st False True Suc.prems p k by simp
    next
      case i: False
      have "\<exists>ys. qsort_sift cmp width width (i * width) ?xs = Some ys \<and> mset ys = mset ?xs \<and> sorted_upto cmp n ys
          \<and> (\<forall>k. n < k \<and> k < length ?xs \<longrightarrow> ys ! k = ?xs ! k)"
        using Suc.prems i by (intro Suc.IH [OF s _ _ _ c]) simp_all
      then show ?thesis using st False i Suc.prems p k by auto
    qed
  qed
qed simp

lemma qsort_pass_sorts:
  assumes "0 < width" and "0 < i" and "i < length xs" and "sorted_upto cmp (i - 1) xs" and "total_cmp cmp (set xs)"
  shows "\<exists>ys. qsort_pass cmp width (length xs * width) width (i * width) xs = Some ys
    \<and> sorted_upto cmp (length xs - 1) ys"
  using assms(2-)
proof (induction "length xs - i" arbitrary: i xs rule: less_induct)
  case less
  have "sifting cmp i i xs" using less.prems(1,3) by (auto simp: sifting_def sorted_upto_def)
  from qsort_sift_sorts [OF assms(1) this less.prems(1) _ less.prems(2,4)]
  obtain ys where ys: "qsort_sift cmp width width (i * width) xs = Some ys" "mset ys = mset xs" "sorted_upto cmp i ys"
    by auto
  have len: "length ys = length xs" using ys(2) by (metis size_mset)
  have c: "total_cmp cmp (set ys)" using less.prems(4) ys(2) by (metis set_mset_mset)
  have s: "i * width + width = Suc i * width" by simp
  show ?case
  proof (cases "Suc i < length xs")
    case True
    have "\<exists>zs. qsort_pass cmp width (length ys * width) width (Suc i * width) ys = Some zs
        \<and> sorted_upto cmp (length ys - 1) zs"
      using True less.prems len ys(3) c by (intro less.hyps) auto
    then show ?thesis
      using True ys len assms(1) by (subst qsort_pass.simps) (auto simp: Let_def s simp del: mult_Suc)
  next
    case False
    then have "\<not> Suc i * width < length xs * width" using assms(1) by (simp del: mult_Suc)
    moreover have "sorted_upto cmp (length xs - 1) ys"
      using ys(3) False less.prems(2) by (auto simp: sorted_upto_def)
    ultimately show ?thesis using ys(1) by (subst qsort_pass.simps) (auto simp: Let_def s simp del: mult_Suc)
  qed
qed

lemma sorted_upto_wrt:
  "sorted_upto cmp (length xs - 1) xs \<Longrightarrow> sorted_wrt (\<lambda>x y. cmp x y \<le> 0) xs"
  by (auto simp: sorted_upto_def sorted_wrt_iff_nth_less)

lemma qsort_perm:
  assumes "nel = length xs" and "0 < width"
  shows "\<exists>ys. qsort cmp nel width xs = Some ys \<and> mset ys = mset xs"
proof (cases "1 < nel")
  case True
  obtain g where "qsort_gap nel 0 = Some g" "gap g" "g < nel" using qsort_gap_ok [OF True, of 0] True by auto
  then show ?thesis
    using qsort_passes_perm [OF assms(2), of g xs cmp] assms True by (auto simp: qsort_def)
qed (simp add: qsort_def)

text \<open>C26. Sorting an array of elements of any size with any comparison that is total and transitive on them
  returns, keeps the elements, and leaves them in order.\<close>

theorem qsort_correct:
  assumes "nel = length xs" and "0 < width" and "total_cmp cmp (set xs)"
  shows "\<exists>ys. qsort cmp nel width xs = Some ys \<and> mset ys = mset xs \<and> sorted_wrt (\<lambda>x y. cmp x y \<le> 0) ys"
proof (cases "1 < nel")
  case True
  obtain g where g: "qsort_gap nel 0 = Some g" "gap g" "g < nel" using qsort_gap_ok [OF True, of 0] True by auto
  obtain ys zs where ys: "qsort_passes cmp width (length xs * width) (g * width) xs = Some ys" "mset ys = mset xs"
    and zs: "mset zs = mset xs" "qsort_pass cmp width (length zs * width) width width zs = Some ys"
    using qsort_passes_perm [OF assms(2) g(2), of xs cmp] g(3) assms(1) by auto
  have len: "length zs = length xs" "length ys = length xs" using zs(1) ys(2) by (metis size_mset)+
  have c: "total_cmp cmp (set zs)" using assms(3) zs(1) by (metis set_mset_mset)
  have "sorted_upto cmp (length zs - 1) ys"
    using qsort_pass_sorts [OF assms(2) _ _ _ c, of 1] len zs(2) True assms(1) by (auto simp: sorted_upto_def)
  then show ?thesis
    using ys g(1) True assms len sorted_upto_wrt [of cmp ys] by (auto simp: qsort_def)
next
  case False
  then have "length xs \<le> 1" using assms(1) by simp
  then show ?thesis using False by (cases xs) (simp_all add: qsort_def)
qed

lemma qsort_correct_witness:
  "\<exists>ys. qsort (-) 9 4 [5, 3, 9, 1, 7, 2, 8, 2, 6 :: int] = Some ys \<and> mset ys = mset [5, 3, 9, 1, 7, 2, 8, 2, 6]
    \<and> sorted_wrt (\<lambda>x y. x - y \<le> 0) ys"
  by (rule qsort_correct) (auto simp: total_cmp_def)

end
