(* ===== verification/Env_Text.thy ===== *)
theory Env_Text
  imports Hashtable Qsort
begin

text \<open>
  The environment as text: \<^verbatim>\<open>hexport_r\<close> and \<^verbatim>\<open>himport_r\<close> of \<^verbatim>\<open>u-boot32/lib/hashtable.c\<close>. Exported and
  imported again, a table holds the same variables.
\<close>

section \<open>Export\<close>

type_synonym env_entry = "byte list \<times> byte list"

definition cmpkey :: "env_entry \<Rightarrow> env_entry \<Rightarrow> int" where
  "cmpkey e1 e2 = sint (strcmp (fst e1) (fst e2))"

text \<open>Pass 1: the used entries, all or those named. A used slot without a key or a value has no
  defined result.\<close>

primrec export_scan :: "byte list list \<Rightarrow> hslot list \<Rightarrow> env_entry list option" where
  "export_scan argv [] = Some []"
| "export_scan argv (s # ss) =
     (if used s > 0 then do {
        k \<leftarrow> ent_key s;
        if argv \<noteq> [] \<and> \<not> list_ex (\<lambda>a. strcmp a k = 0) argv then export_scan argv ss
        else do { d \<leftarrow> ent_data s; es \<leftarrow> export_scan argv ss; Some ((k, d) # es) }
      }
      else export_scan argv ss)"

definition needs_escape :: "byte \<Rightarrow> byte \<Rightarrow> bool" where
  "needs_escape sep c \<longleftrightarrow> c = sep \<or> c = 92"

definition export_size :: "byte \<Rightarrow> env_entry \<Rightarrow> nat" where
  "export_size sep e =
     length (fst e) + 2
     + (if sep = 0 then length (snd e) else sum_list (map (\<lambda>c. if needs_escape sep c then 2 else 1) (snd e)))
     + 2"

text \<open>Pass 2: one entry as text.\<close>

definition escape :: "byte \<Rightarrow> byte list \<Rightarrow> byte list" where
  "escape sep d = concat (map (\<lambda>c. if needs_escape sep c then [92, c] else [c]) d)"

definition export_text :: "byte \<Rightarrow> env_entry \<Rightarrow> byte list" where
  "export_text sep e = fst e @ 61 # escape sep (snd e) @ [sep]"

text \<open>\<open>resp\<close> is the length of the buffer the caller gives, \<open>None\<close> when the function is to allocate one of \<^verbatim>\<open>size\<close>
  bytes. A buffer of the caller need not have the length \<^verbatim>\<open>size\<close>, which is computed when the
  argument is 0.\<close>

definition export_cap :: "nat option \<Rightarrow> nat \<Rightarrow> nat" where
  "export_cap resp sz = (case resp of None \<Rightarrow> sz | Some n \<Rightarrow> n)"

text \<open>The clearing of the buffer and pass 2 into it. Writing outside the buffer is \<open>None\<close>; the result is what was
  written.\<close>

definition export_write :: "nat \<Rightarrow> nat \<Rightarrow> byte list \<Rightarrow> byte list option" where
  "export_write cap sz res =
     (if cap < sz \<or> cap \<le> length res then None else Some (res @ [0] @ replicate (sz - length res - 1) 0))"

text \<open>The result is \<^verbatim>\<open>size\<close> and the bytes written.\<close>

definition hexport_r ::
  "(nat \<Rightarrow> bool) \<Rightarrow> hsearch_data \<Rightarrow> byte \<Rightarrow> nat option \<Rightarrow> nat \<Rightarrow> byte list list \<Rightarrow>
   (errno + nat \<times> byte list) option" where
  "hexport_r mem htab sep resp sz argv = do {
     tab \<leftarrow> htab_table htab;
     if length tab \<le> unat (htab_size htab) then None
     else do {
       list \<leftarrow> export_scan argv (take (unat (htab_size htab)) (tl tab));
       let totlen = sum_list (map (export_size sep) list);
       list \<leftarrow> qsort cmpkey (length list) 4 list;
       if sz \<noteq> 0 \<and> sz < totlen + 1 then Some (Inl ENOMEM)
       else
         let sz = (if sz \<noteq> 0 then sz else totlen + 1) in
         if resp = None \<and> \<not> mem sz then Some (Inl ENOMEM)
         else map_option (\<lambda>buf. Inr (sz, buf)) (export_write (export_cap resp sz) sz (concat (map (export_text sep) list)))
     }
   }"

section \<open>Import\<close>

text \<open>The text is read through \<^verbatim>\<open>dp\<close>, the rest of the copy that the function makes; what is written into the
  copy (the terminators and the value without escapes) lies before \<^verbatim>\<open>dp\<close> and is only read as the name and
  the value. Reading behind the copy is \<open>None\<close>.\<close>

primrec skip_blank :: "byte list \<Rightarrow> byte list option" where
  "skip_blank [] = None"
| "skip_blank (c # dp) = (if isblank c then skip_blank dp else Some (c # dp))"

primrec skip_comment :: "byte \<Rightarrow> byte list \<Rightarrow> byte list option" where
  "skip_comment sep [] = None"
| "skip_comment sep (c # dp) = (if c \<noteq> 0 \<and> c \<noteq> sep then skip_comment sep dp else Some (c # dp))"

primrec parse_name :: "byte \<Rightarrow> byte list \<Rightarrow> (byte list \<times> byte list) option" where
  "parse_name sep [] = None"
| "parse_name sep (c # dp) =
     (if c \<noteq> 61 \<and> c \<noteq> 0 \<and> c \<noteq> sep then do { (name, dp) \<leftarrow> parse_name sep dp; Some (c # name, dp) }
      else Some ([], c # dp))"

fun parse_value :: "byte \<Rightarrow> byte list \<Rightarrow> (byte list \<times> byte list) option" where
  "parse_value sep [] = None"
| "parse_value sep (c # dp) =
     (if c \<noteq> 0 \<and> c \<noteq> sep then
        if c = 92 then
          (case dp of
             [] \<Rightarrow> None
           | e # dp' \<Rightarrow>
               if e \<noteq> 0 then do { (value, dp) \<leftarrow> parse_value sep dp'; Some (e # value, dp) }
               else do { (value, dp) \<leftarrow> parse_value sep dp; Some (c # value, dp) })
        else do { (value, dp) \<leftarrow> parse_value sep dp; Some (c # value, dp) }
      else Some ([], c # dp))"

text \<open>One round of the loop: the rest of the text and the table, or the failed insertion.\<close>

definition himport_item ::
  "(nat \<Rightarrow> bool) \<Rightarrow> byte \<Rightarrow> byte list \<Rightarrow> hsearch_data \<Rightarrow> (hsearch_data + byte list \<times> hsearch_data) option" where
  "himport_item mem sep dp htab = do {
     dp \<leftarrow> skip_blank dp;
     if hd dp = 35 then do {
       dp \<leftarrow> skip_comment sep dp;
       Some (Inr (tl dp, htab))
     }
     else do {
       (name, dp) \<leftarrow> parse_name sep dp;
       if hd dp \<noteq> 0 \<and> tl dp = [] then None
       else if hd dp = 0 \<or> hd (tl dp) = 0 \<or> hd dp = sep \<or> hd (tl dp) = sep then do {
         let dp = (if hd dp = 61 then tl dp else dp);
         let dp = tl dp;
         (_, htab) \<leftarrow> hdelete_r name htab;
         Some (Inr (dp, htab))
       }
       else do {
         (value, dp) \<leftarrow> parse_value sep (tl dp);
         (r, htab) \<leftarrow> hsearch_r mem name (Some value) ENTER htab;
         (case r of Herror _ \<Rightarrow> Some (Inl htab) | Hfound _ _ \<Rightarrow> Some (Inr (tl dp, htab)))
       }
     }
   }"

partial_function (option) himport_loop ::
  "(nat \<Rightarrow> bool) \<Rightarrow> byte \<Rightarrow> byte list \<Rightarrow> hsearch_data \<Rightarrow> (nat \<times> hsearch_data) option" where
  "himport_loop mem sep dp htab = do {
     r \<leftarrow> himport_item mem sep dp htab;
     (case r of
        Inl htab \<Rightarrow> Some (0, htab)
      | Inr (dp, htab) \<Rightarrow> if dp \<noteq> [] \<and> hd dp \<noteq> 0 then himport_loop mem sep dp htab else Some (1, htab))
   }"

definition CONFIG_ENV_MIN_ENTRIES :: nat where
  "CONFIG_ENV_MIN_ENTRIES = 64"

definition CONFIG_ENV_MAX_ENTRIES :: nat where
  "CONFIG_ENV_MAX_ENTRIES = 512"

definition himport_entries :: "nat \<Rightarrow> nat" where
  "himport_entries sz =
     (let nent = CONFIG_ENV_MIN_ENTRIES + sz div 8
      in if nent > CONFIG_ENV_MAX_ENTRIES then CONFIG_ENV_MAX_ENTRIES else nent)"

definition himport_r ::
  "(nat \<Rightarrow> bool) \<Rightarrow> hsearch_data \<Rightarrow> byte list \<Rightarrow> nat \<Rightarrow> byte \<Rightarrow> bool \<Rightarrow> (nat \<times> hsearch_data) option" where
  "himport_r mem htab env sz sep noclear =
     (if \<not> mem sz then Some (0, htab)
      else if length env < sz then None
      else
        let htab = (if \<not> noclear \<and> htab_table htab \<noteq> None then hdestroy_r htab else htab) in
        if htab_table htab = None then do {
          (r, htab) \<leftarrow> hcreate_r mem (of_nat (himport_entries sz)) htab;
          if r = 0 then Some (0, htab) else himport_loop mem sep (take sz env) htab
        }
        else himport_loop mem sep (take sz env) htab)"

section \<open>Parsing back what was printed\<close>

text \<open>A name that survives the text form.\<close>

definition name_ok :: "byte \<Rightarrow> byte list \<Rightarrow> bool" where
  "name_ok sep k \<longleftrightarrow> 0 \<notin> set k \<and> 61 \<notin> set k \<and> sep \<notin> set k \<and> (k \<noteq> [] \<longrightarrow> \<not> isblank (hd k) \<and> hd k \<noteq> 35)"

lemma parse_name_ok:
  "61 \<notin> set k \<Longrightarrow> 0 \<notin> set k \<Longrightarrow> sep \<notin> set k \<Longrightarrow> parse_name sep (k @ 61 # r) = Some (k, 61 # r)"
  by (induction k) auto

lemma escape_Cons: "escape sep (c # d) = (if needs_escape sep c then [92, c] else [c]) @ escape sep d"
  by (simp add: escape_def)

lemma parse_value_ok:
  "0 \<notin> set d \<Longrightarrow> sep \<noteq> 92 \<Longrightarrow> parse_value sep (escape sep d @ sep # r) = Some (d, sep # r)"
proof (induction d)
  case (Cons c d)
  then show ?case by (cases "needs_escape sep c") (auto simp: escape_Cons needs_escape_def)
qed (simp add: escape_def)

lemma escape_head:
  "d \<noteq> [] \<Longrightarrow> 0 \<notin> set d \<Longrightarrow> sep \<noteq> 92 \<Longrightarrow> escape sep d \<noteq> [] \<and> hd (escape sep d) \<noteq> 0 \<and> hd (escape sep d) \<noteq> sep"
  by (cases d) (auto simp: escape_Cons needs_escape_def)

text \<open>The separators in use.\<close>

definition sep_ok :: "byte \<Rightarrow> bool" where
  "sep_ok sep \<longleftrightarrow> sep = 0 \<or> sep = 10"

lemma himport_item_text:
  assumes sep: "sep_ok sep" and k: "name_ok sep k" and d: "d \<noteq> []" "0 \<notin> set d"
    and put: "hput k d htab = Some htab'"
  shows "himport_item (\<lambda>_. True) sep (export_text sep (k, d) @ r) htab = Some (Inr (r, htab'))"
proof -
  have s: "sep \<noteq> 92" "sep \<noteq> 61" "sep = 0 \<or> sep = 10" using sep by (auto simp: sep_ok_def)
  have b: "skip_blank (export_text sep (k, d) @ r) = Some (export_text sep (k, d) @ r)"
    using k by (cases k) (auto simp: export_text_def name_ok_def isblank_def)
  have c: "hd (export_text sep (k, d) @ r) \<noteq> 35"
    using k by (cases k) (auto simp: export_text_def name_ok_def)
  have n: "parse_name sep (export_text sep (k, d) @ r) = Some (k, 61 # escape sep d @ sep # r)"
    using k s parse_name_ok [of k sep "escape sep d @ sep # r"] by (simp add: export_text_def name_ok_def)
  note h = escape_head [OF d s(1)]
  have t: "hd (escape sep d @ sep # r) = hd (escape sep d)" using h by simp
  obtain q i where q: "hsearch_r (\<lambda>_. True) k (Some d) ENTER htab = Some (Hfound q i, htab')"
    using put by (auto simp: hput_def split: bind_splits hresult.splits)
  show ?thesis
    using b c n h t s parse_value_ok [OF d(2) s(1), of r] q by (simp add: himport_item_def Let_def)
qed

section \<open>The exported entries\<close>

definition slot_entry :: "hslot \<Rightarrow> env_entry" where
  "slot_entry s = (the (ent_key s), the (ent_data s))"

definition live_entries :: "hsearch_data \<Rightarrow> env_entry list" where
  "live_entries htab =
     (case htab_table htab of None \<Rightarrow> [] | Some tab \<Rightarrow> map slot_entry (filter (\<lambda>s. used s > 0) (tl tab)))"

lemma export_scan_all:
  "\<forall>s \<in> set ss. used s > 0 \<longrightarrow> ent_key s \<noteq> None \<and> ent_data s \<noteq> None \<Longrightarrow>
     export_scan [] ss = Some (map slot_entry (filter (\<lambda>s. used s > 0) ss))"
  by (induction ss) (auto simp: slot_entry_def)

lemma distinct_map_filter:
  assumes "\<And>i j. i < length xs \<Longrightarrow> j < length xs \<Longrightarrow> P (xs ! i) \<Longrightarrow> P (xs ! j) \<Longrightarrow> f (xs ! i) = f (xs ! j) \<Longrightarrow> i = j"
  shows "distinct (map f (filter P xs))"
  using assms
proof (induction xs)
  case (Cons x xs)
  have "distinct (map f (filter P xs))"
  proof (rule Cons.IH)
    fix i j
    assume "i < length xs" "j < length xs" "P (xs ! i)" "P (xs ! j)" "f (xs ! i) = f (xs ! j)"
    then show "i = j" using Cons.prems [of "Suc i" "Suc j"] by simp
  qed
  moreover have "f y \<noteq> f x" if y: "y \<in> set xs" "P y" "P x" for y
  proof
    assume e: "f y = f x"
    obtain j where "j < length xs" "y = xs ! j" using y(1) by (auto simp: in_set_conv_nth)
    then show False using Cons.prems [of 0 "Suc j"] y e by simp
  qed
  ultimately show ?case by (auto simp: eq_commute [of "f x"])
qed simp

lemma option_eqI: "(\<And>d. a = Some d \<longleftrightarrow> b = Some d) \<Longrightarrow> a = b"
  by (cases a; cases b) auto

lemma tab_ok_slots:
  assumes "tab_ok szw tab" and "s \<in> set (tl tab)" and "used s > 0"
  shows "\<exists>i k d. holds tab (unat szw) k i \<and> s = tab ! i \<and> ent_key s = Some k \<and> ent_data s = Some d \<and> 0 \<notin> set k \<and> 0 \<notin> set d"
proof -
  obtain j where j: "j < length (tl tab)" "s = tl tab ! j" using assms(2) by (auto simp: in_set_conv_nth)
  have s: "s = tab ! Suc j" using j by (simp add: nth_tl)
  have r: "1 \<le> Suc j" "Suc j \<le> unat szw" using j assms(1) by (simp_all add: tab_ok_def)
  then have "used (tab ! Suc j) = - 1 \<or> used (tab ! Suc j) = 0 \<or> live_ok szw tab (Suc j)"
    using assms(1) unfolding tab_ok_def by blast
  then have "live_ok szw tab (Suc j)" using assms(3) s by auto
  then obtain k d where "ent_key s = Some k" "ent_data s = Some d" "0 \<notin> set k" "0 \<notin> set d"
    using s by (auto simp: live_ok_def)
  moreover from this have "holds tab (unat szw) k (Suc j)" using r s assms(3) by (simp add: holds_def)
  ultimately show ?thesis using s by blast
qed

lemma holds_in_tl:
  assumes "tab_ok szw tab" and "holds tab (unat szw) k i"
  shows "tab ! i \<in> set (tl tab)"
proof -
  have "i - 1 < length (tl tab)" "tl tab ! (i - 1) = tab ! i"
    using assms by (auto simp: tab_ok_def holds_def nth_tl)
  then show ?thesis by (metis nth_mem)
qed

lemma live_entries_ok:
  assumes "htab_ok htab"
  shows "distinct (map fst (live_entries htab))"
    and "map_of (live_entries htab) = htab_map htab"
    and "length (live_entries htab) = unat (htab_filled htab)"
    and "(k, d) \<in> set (live_entries htab) \<longleftrightarrow> htab_map htab k = Some d"
    and "(k, d) \<in> set (live_entries htab) \<Longrightarrow> 0 \<notin> set k \<and> 0 \<notin> set d"
proof -
  obtain tab where t: "htab_table htab = Some tab" and ok: "tab_ok (htab_size htab) tab"
    and fil: "unat (htab_filled htab) = card (live tab (unat (htab_size htab)))"
    using assms by (auto simp: htab_ok_def)
  let ?sz = "unat (htab_size htab)"
  have len: "length tab = ?sz + 1" using ok by (simp add: tab_ok_def)
  have le: "live_entries htab = map slot_entry (filter (\<lambda>s. used s > 0) (tl tab))" using t by (simp add: live_entries_def)
  have H: "i = j" if ij: "i < length (tl tab)" "j < length (tl tab)" "used (tl tab ! i) > 0" "used (tl tab ! j) > 0"
    "fst (slot_entry (tl tab ! i)) = fst (slot_entry (tl tab ! j))" for i j
  proof -
    have k: "\<exists>k. ent_key (tab ! Suc x) = Some k \<and> holds tab ?sz k (Suc x)"
      if x: "x < length (tl tab)" "used (tl tab ! x) > 0" for x
    proof -
      have "tl tab ! x \<in> set (tl tab)" using x(1) by simp
      then obtain y where "ent_key (tl tab ! x) = Some y" using tab_ok_slots [OF ok _ x(2)] by blast
      then show ?thesis using x len by (auto simp: holds_def nth_tl)
    qed
    obtain k1 k2 where "ent_key (tab ! Suc i) = Some k1" "holds tab ?sz k1 (Suc i)"
      "ent_key (tab ! Suc j) = Some k2" "holds tab ?sz k2 (Suc j)" using k [OF ij(1,3)] k [OF ij(2,4)] by blast
    moreover from this have "k1 = k2" using ij(1,2,5) by (simp add: slot_entry_def nth_tl)
    ultimately have "Suc i = Suc j" using ok unfolding tab_ok_def by blast
    then show ?thesis by simp
  qed
  have "distinct (map (fst \<circ> slot_entry) (filter (\<lambda>s. used s > 0) (tl tab)))"
    by (rule distinct_map_filter) (use H in simp)
  then show dist: "distinct (map fst (live_entries htab))" using le by simp
  have mem: "(k, d) \<in> set (live_entries htab) \<longleftrightarrow> htab_map htab k = Some d" for k d
  proof
    assume "(k, d) \<in> set (live_entries htab)"
    then obtain s where s: "s \<in> set (tl tab)" "used s > 0" "slot_entry s = (k, d)" using le by auto
    obtain i k' d' where i: "holds tab ?sz k' i" "s = tab ! i" "ent_key s = Some k'" "ent_data s = Some d'"
      using tab_ok_slots [OF ok s(1,2)] by blast
    then have "k' = k" "d' = d" using s(3) by (simp_all add: slot_entry_def)
    then show "htab_map htab k = Some d" using htab_map_holds [OF t ok] i by simp
  next
    assume m: "htab_map htab k = Some d"
    then obtain i where i: "holds tab ?sz k i" using htab_map_Some_holds [OF t ok, of k] by auto
    have "ent_data (tab ! i) = Some d" using htab_map_holds [OF t ok i] m by simp
    then have "slot_entry (tab ! i) = (k, d)" using i by (simp add: slot_entry_def holds_def)
    moreover have "used (tab ! i) > 0" using i by (simp add: holds_def)
    ultimately show "(k, d) \<in> set (live_entries htab)" using le holds_in_tl [OF ok i] by (auto intro: image_eqI [of _ _ "tab ! i"])
  qed
  then show "(k, d) \<in> set (live_entries htab) \<longleftrightarrow> htab_map htab k = Some d" .
  show "map_of (live_entries htab) = htab_map htab"
  proof
    fix k
    have "map_of (live_entries htab) k = Some d \<longleftrightarrow> htab_map htab k = Some d" for d using mem dist by simp
    then show "map_of (live_entries htab) k = htab_map htab k" by (rule option_eqI)
  qed
  show "0 \<notin> set k \<and> 0 \<notin> set d" if "(k, d) \<in> set (live_entries htab)"
  proof -
    obtain s where s: "s \<in> set (tl tab)" "used s > 0" "slot_entry s = (k, d)" using le \<open>(k, d) \<in> _\<close> by auto
    then show ?thesis using tab_ok_slots [OF ok s(1,2)] by (auto simp: slot_entry_def)
  qed
  have "length (filter (\<lambda>s. used s > 0) (tl tab)) = card {i. i < length (tl tab) \<and> used (tl tab ! i) > 0}"
    by (rule length_filter_conv_card)
  also have "\<dots> = card (live tab ?sz)"
  proof (rule bij_betw_same_card [of Suc])
    show "bij_betw Suc {i. i < length (tl tab) \<and> used (tl tab ! i) > 0} (live tab ?sz)"
    proof (rule bij_betw_imageI)
      show "Suc ` {i. i < length (tl tab) \<and> used (tl tab ! i) > 0} = live tab ?sz"
      proof (intro equalityI subsetI)
        fix i
        assume "i \<in> live tab ?sz"
        then show "i \<in> Suc ` {i. i < length (tl tab) \<and> used (tl tab ! i) > 0}"
          using len by (intro image_eqI [of _ _ "i - 1"]) (auto simp: live_def nth_tl)
      qed (use len in \<open>auto simp: live_def nth_tl\<close>)
    qed simp
  qed
  finally show "length (live_entries htab) = unat (htab_filled htab)" using le fil by simp
qed

section \<open>Export of a table that is a map\<close>

definition export_need :: "byte \<Rightarrow> hsearch_data \<Rightarrow> nat" where
  "export_need sep htab = sum_list (map (export_size sep) (live_entries htab))"

lemma hexport_entries:
  assumes "htab_ok htab"
  shows "\<exists>es. mset es = mset (live_entries htab) \<and>
    hexport_r mem htab sep resp sz [] =
     (if sz \<noteq> 0 \<and> sz < export_need sep htab + 1 then Some (Inl ENOMEM)
      else
        let sz = (if sz \<noteq> 0 then sz else export_need sep htab + 1) in
        if resp = None \<and> \<not> mem sz then Some (Inl ENOMEM)
        else map_option (\<lambda>buf. Inr (sz, buf)) (export_write (export_cap resp sz) sz (concat (map (export_text sep) es))))"
proof -
  obtain tab where t: "htab_table htab = Some tab" and ok: "tab_ok (htab_size htab) tab"
    using assms by (auto simp: htab_ok_def)
  have len: "length tab = unat (htab_size htab) + 1" using ok by (simp add: tab_ok_def)
  have "\<forall>s \<in> set (tl tab). used s > 0 \<longrightarrow> ent_key s \<noteq> None \<and> ent_data s \<noteq> None"
    using tab_ok_slots [OF ok] by blast
  then have sc: "export_scan [] (take (unat (htab_size htab)) (tl tab)) = Some (live_entries htab)"
    using export_scan_all [of "tl tab"] t len by (simp add: live_entries_def)
  obtain es where es: "qsort cmpkey (length (live_entries htab)) 4 (live_entries htab) = Some es" "mset es = mset (live_entries htab)"
    using qsort_perm [of "length (live_entries htab)" "live_entries htab" 4 cmpkey] by auto
  show ?thesis using es sc t len by (intro exI [of _ es]) (simp add: hexport_r_def export_need_def Let_def)
qed

lemma perm_entries:
  assumes "htab_ok htab" and "mset es = mset (live_entries htab)"
  shows "map_of es = htab_map htab" and "distinct (map fst es)" and "set es = set (live_entries htab)"
    and "length es = unat (htab_filled htab)"
proof -
  show s: "set es = set (live_entries htab)" using assms(2) by (metis set_mset_mset)
  have "mset (map fst es) = mset (map fst (live_entries htab))" using assms(2) by simp
  then show d: "distinct (map fst es)" using live_entries_ok(1) [OF assms(1)] by (metis mset_eq_imp_distinct_iff)
  show "map_of es = htab_map htab"
    using map_of_eqI [of es "live_entries htab"] live_entries_ok(1,2) [OF assms(1)] d s
    by (metis map_of_inject_set)
  show "length es = unat (htab_filled htab)"
    using live_entries_ok(3) [OF assms(1)] assms(2) by (metis size_mset)
qed

section \<open>Import of exported text\<close>

abbreviation puts :: "env_entry list \<Rightarrow> hop list" where
  "puts \<equiv> map (\<lambda>(k, d). Put k d)"

lemma map_ops_puts: "map_ops (puts es) m = m ++ map_of (rev es)"
  by (induction es arbitrary: m) (auto simp: map_of_append)

lemma map_of_rev_distinct: "distinct (map fst es) \<Longrightarrow> map_of (rev es) = map_of es"
  by (rule map_of_inject_set [THEN iffD2]) (simp_all add: rev_map [symmetric])

lemma export_text_hd:
  "name_ok sep k \<Longrightarrow> export_text sep (k, d) \<noteq> [] \<and> hd (export_text sep (k, d)) \<noteq> 0"
  by (cases k) (auto simp: export_text_def name_ok_def)

lemma himport_loop_text:
  assumes sep: "sep_ok sep" and end_text: "r = [] \<or> hd r = 0"
  shows "es \<noteq> [] \<Longrightarrow> \<forall>(k, d) \<in> set es. name_ok sep k \<and> d \<noteq> [] \<and> 0 \<notin> set d \<Longrightarrow>
    run_ops hput hdel (puts es) htab = Some htab' \<Longrightarrow>
    himport_loop (\<lambda>_. True) sep (concat (map (export_text sep) es) @ r) htab = Some (1, htab')"
proof (induction es arbitrary: htab)
  case (Cons e es)
  obtain k d where e: "e = (k, d)" by (cases e)
  obtain htab1 where h1: "hput k d htab = Some htab1" "run_ops hput hdel (puts es) htab1 = Some htab'"
    using Cons.prems(3) e by (auto split: bind_splits)
  have kd: "name_ok sep k" "d \<noteq> []" "0 \<notin> set d" using Cons.prems(2) e by auto
  note item = himport_item_text [OF sep kd h1(1)]
  show ?case
  proof (cases es)
    case Nil
    then show ?thesis using item [of r] h1(2) end_text e by (subst himport_loop.simps) auto
  next
    case (Cons e2 es2)
    obtain k2 d2 where e2: "e2 = (k2, d2)" by (cases e2)
    have "name_ok sep k2" using Cons.prems(2) Cons e2 by auto
    then have hd: "concat (map (export_text sep) es) @ r \<noteq> []" "hd (concat (map (export_text sep) es) @ r) \<noteq> 0"
      using export_text_hd [of sep k2 d2] Cons e2 by auto
    have "himport_loop (\<lambda>_. True) sep (concat (map (export_text sep) es) @ r) htab1 = Some (1, htab')"
      using Cons.prems(2) Cons h1(2) by (intro Cons.IH) auto
    then show ?thesis using item [of "concat (map (export_text sep) es) @ r"] hd e
      by (subst himport_loop.simps) simp
  qed
qed simp


lemma himport_entries_bounds: "64 \<le> himport_entries sz" "himport_entries sz \<le> 512"
  by (simp_all add: himport_entries_def CONFIG_ENV_MIN_ENTRIES_def CONFIG_ENV_MAX_ENTRIES_def Let_def)

lemma himport_empty:
  assumes "htab_ok htab"
  shows "\<exists>htab'. himport_loop (\<lambda>_. True) sep (0 # replicate n 0) htab = Some (1, htab') \<and> htab_ok htab'
    \<and> htab_map htab' = (htab_map htab)([] := None)"
proof -
  obtain m htab' where d: "hdelete_r [] htab = Some (m, htab')" "htab_ok htab'" "htab_map htab' = (htab_map htab)([] := None)"
    using hdelete [OF assms, of "[]"] by auto
  have i: "himport_item (\<lambda>_. True) sep (0 # replicate n 0) htab = Some (Inr (replicate n 0, htab'))"
    using d(1) by (simp add: himport_item_def isblank_def Let_def)
  have "himport_loop (\<lambda>_. True) sep (0 # replicate n 0) htab = Some (1, htab')"
    using i by (subst himport_loop.simps) (cases n; simp)
  then show ?thesis using d by blast
qed

lemma himport_text:
  assumes sep: "sep_ok sep" and es: "\<forall>(k, d) \<in> set es. name_ok sep k \<and> d \<noteq> [] \<and> 0 \<notin> set d"
    and n: "length es \<le> himport_entries sz" and sz: "sz = length (concat (map (export_text sep) es)) + Suc pad"
  shows "\<exists>htab'. himport_r (\<lambda>_. True) htab0 (concat (map (export_text sep) es) @ replicate (Suc pad) 0) sz sep False
      = Some (1, htab') \<and> htab_ok htab' \<and> htab_map htab' = map_of (rev es)"
proof -
  let ?nel = "of_nat (himport_entries sz) :: u32" and ?env = "concat (map (export_text sep) es) @ replicate (Suc pad) 0"
  have u: "unat ?nel = himport_entries sz" using himport_entries_bounds [of sz] by (simp add: unsigned_of_nat take_bit_nat_eq_self)
  define htab1 where "htab1 = (if htab_table htab0 \<noteq> None then hdestroy_r htab0 else htab0)"
  have t1: "htab_table htab1 = None" by (simp add: htab1_def hdestroy_r_def)
  obtain p where p: "prime_size (unat p)" "himport_entries sz \<le> unat p" "unat p \<le> 521"
    "hcreate_r (\<lambda>_. True) ?nel htab1 = Some (1, fresh_htab p)"
    using hcreate_small [OF t1, of ?nel "\<lambda>_. True"] u himport_entries_bounds [of sz] by auto
  have "unat p < 2 ^ 31" using p(3) by simp
  note f = fresh_table [OF p(1) this]
  have imp: "himport_r (\<lambda>_. True) htab0 ?env sz sep False = himport_loop (\<lambda>_. True) sep ?env (fresh_htab p)"
    using p(4) t1 sz by (simp add: himport_r_def Let_def htab1_def split: if_splits)
  show ?thesis
  proof (cases "es = []")
    case True
    then show ?thesis using imp himport_empty [OF f(1), of sep pad] f(2) by auto
  next
    case False
    have "list_all hop_ok (puts es)" using es by (auto simp: list_all_iff name_ok_def)
    moreover have "length (filter is_Put (puts es)) \<le> length (puts es)" by (rule length_filter_le)
    then have "length (filter is_Put (puts es)) \<le> free_slots (fresh_htab p)"
      unfolding f(3) length_map using n p(2) by (rule order_trans [OF _ order_trans])
    ultimately obtain htab' where h: "run_ops hput hdel (puts es) (fresh_htab p) = Some htab'" "htab_ok htab'"
      "htab_map htab' = map_ops (puts es) (htab_map (fresh_htab p))"
      using hv.run_refines [OF f(1), of "puts es"] by blast
    have "himport_loop (\<lambda>_. True) sep ?env (fresh_htab p) = Some (1, htab')"
      by (rule himport_loop_text [OF sep _ False es h(1)]) simp
    then show ?thesis using imp h f(2) by (simp add: map_ops_puts)
  qed
qed

lemma export_import:
  assumes "htab_ok htab" and "sep_ok sep"
    and "\<And>k d. htab_map htab k = Some d \<Longrightarrow> name_ok sep k \<and> d \<noteq> []"
    and "hexport_r mem htab sep resp sz [] = Some (Inr (n, text))"
    and "unat (htab_filled htab) \<le> himport_entries (length text)"
  shows "\<exists>htab'. himport_r (\<lambda>_. True) htab0 text (length text) sep False = Some (1, htab')
    \<and> htab_ok htab' \<and> htab_map htab' = htab_map htab"
proof -
  obtain es where es: "mset es = mset (live_entries htab)"
    and h: "hexport_r mem htab sep resp sz [] =
     (if sz \<noteq> 0 \<and> sz < export_need sep htab + 1 then Some (Inl ENOMEM)
      else
        let sz = (if sz \<noteq> 0 then sz else export_need sep htab + 1) in
        if resp = None \<and> \<not> mem sz then Some (Inl ENOMEM)
        else map_option (\<lambda>buf. Inr (sz, buf)) (export_write (export_cap resp sz) sz (concat (map (export_text sep) es))))"
    using hexport_entries [OF assms(1), of mem sep resp sz] by blast
  note p = perm_entries [OF assms(1) es]
  obtain pad where t: "text = concat (map (export_text sep) es) @ replicate (Suc pad) 0"
    using h assms(4) by (auto simp: Let_def export_write_def split: if_splits)
  have e: "\<forall>(k, d) \<in> set es. name_ok sep k \<and> d \<noteq> [] \<and> 0 \<notin> set d"
  proof clarify
    fix k d
    assume "(k, d) \<in> set es"
    then have "(k, d) \<in> set (live_entries htab)" using p(3) by simp
    then show "name_ok sep k \<and> d \<noteq> [] \<and> 0 \<notin> set d"
      using live_entries_ok(4,5) [OF assms(1), of k d] assms(3) by blast
  qed
  have len: "length es \<le> himport_entries (length text)" using p(4) assms(5) by simp
  have "length text = length (concat (map (export_text sep) es)) + Suc pad" using t by simp
  from himport_text [OF assms(2) e len this, of htab0]
  show ?thesis using p(1,2) t map_of_rev_distinct [OF p(2)] by simp
qed

text \<open>C12. What \<^verbatim>\<open>hexport_r\<close> writes, \<^verbatim>\<open>himport_r\<close> reads: with one of the two separators in use, a table whose names
  survive the text form (no \<open>=\<close>, no separator, no blank or \<open>#\<close> in front) and whose values are not empty is
  imported into a new table that holds exactly the same variables, whatever characters the values contain
  and whatever table was there before.\<close>

theorem hexport_himport:
  assumes "htab_ok htab" and "sep_ok sep"
    and "\<And>k d. htab_map htab k = Some d \<Longrightarrow> name_ok sep k \<and> d \<noteq> []"
    and "hexport_r mem htab sep resp sz [] = Some (Inr (n, text))"
    and "unat (htab_filled htab) \<le> himport_entries (length text)"
  shows "\<exists>htab'. himport_r (\<lambda>_. True) htab0 text (length text) sep False = Some (1, htab')
    \<and> htab_ok htab' \<and> htab_map htab' = htab_map htab"
  by (rule export_import [OF assms])

section \<open>How much an export writes\<close>

definition backslashes :: "hsearch_data \<Rightarrow> nat" where
  "backslashes htab = sum_list (map (\<lambda>e. count_list (snd e) 92) (live_entries htab))"

lemma sum_list_perm:
  fixes f :: "'a \<Rightarrow> nat"
  assumes "mset xs = mset ys"
  shows "sum_list (map f xs) = sum_list (map f ys)"
  using arg_cong [OF assms, of "\<lambda>m. sum_mset (image_mset f m)"] by (simp flip: sum_mset_sum_list)

lemma length_escape:
  "length (escape sep d) = sum_list (map (\<lambda>c. if needs_escape sep c then 2 else 1) d)"
  by (induction d) (simp_all add: escape_def)

lemma length_escape_0: "0 \<notin> set d \<Longrightarrow> length (escape 0 d) = length d + count_list d 92"
  by (induction d) (auto simp: escape_def needs_escape_def)

lemma export_text_length:
  "sep \<noteq> 0 \<Longrightarrow> length (export_text sep e) + 2 = export_size sep e"
  "0 \<notin> set (snd e) \<Longrightarrow> length (export_text 0 e) + 2 = export_size 0 e + count_list (snd e) 92"
  by (simp add: export_text_def export_size_def length_escape, simp add: export_text_def export_size_def length_escape_0)

lemma export_length:
  assumes "sep \<noteq> 0"
  shows "length (concat (map (export_text sep) es)) + 2 * length es = sum_list (map (export_size sep) es)"
proof (induction es)
  case (Cons e es)
  then show ?case using export_text_length(1) [OF assms, of e] by simp
qed simp

lemma export_length_0:
  assumes "\<forall>e \<in> set es. 0 \<notin> set (snd e)"
  shows "length (concat (map (export_text 0) es)) + 2 * length es =
    sum_list (map (export_size 0) es) + sum_list (map (\<lambda>e. count_list (snd e) 92) es)"
  using assms
proof (induction es)
  case (Cons e es)
  then show ?case using export_text_length(2) [of e] by simp
qed simp

lemma export_written:
  assumes "htab_ok htab" and "mset es = mset (live_entries htab)"
  shows "length (concat (map (export_text sep) es)) + 2 * unat (htab_filled htab) =
    export_need sep htab + (if sep = 0 then backslashes htab else 0)"
proof -
  note pe = perm_entries [OF assms]
  have need: "sum_list (map (export_size sep) es) = export_need sep htab"
    unfolding export_need_def by (rule sum_list_perm [OF assms(2)])
  have slashes: "sum_list (map (\<lambda>e. count_list (snd e) 92) es) = backslashes htab"
    unfolding backslashes_def by (rule sum_list_perm [OF assms(2)])
  have "\<forall>e \<in> set es. 0 \<notin> set (snd e)"
    using pe(3) live_entries_ok(5) [OF assms(1)] by (metis prod.collapse)
  then show ?thesis
    using export_length [of sep es] export_length_0 [of es] need slashes pe(4) by (cases "sep = 0") simp_all
qed

lemma hexport_outside:
  assumes "htab_ok htab" and "bsz = (if sz = 0 then export_need sep htab + 1 else sz)"
  shows "hexport_r mem htab sep resp sz [] = None \<longleftrightarrow>
      export_need sep htab < bsz \<and> (resp \<noteq> None \<or> mem bsz) \<and>
      (export_cap resp bsz < bsz \<or>
       export_cap resp bsz + 2 * unat (htab_filled htab) \<le> export_need sep htab + (if sep = 0 then backslashes htab else 0))"
proof -
  obtain es where p: "mset es = mset (live_entries htab)"
    and h: "hexport_r mem htab sep resp sz [] =
     (if sz \<noteq> 0 \<and> sz < export_need sep htab + 1 then Some (Inl ENOMEM)
      else
        let sz = (if sz \<noteq> 0 then sz else export_need sep htab + 1) in
        if resp = None \<and> \<not> mem sz then Some (Inl ENOMEM)
        else map_option (\<lambda>buf. Inr (sz, buf)) (export_write (export_cap resp sz) sz (concat (map (export_text sep) es))))"
    using hexport_entries [OF assms(1), of mem sep resp sz] by blast
  have "export_cap resp bsz \<le> length (concat (map (export_text sep) es)) \<longleftrightarrow>
    export_cap resp bsz + 2 * unat (htab_filled htab) \<le> export_need sep htab + (if sep = 0 then backslashes htab else 0)"
    unfolding export_written [OF assms(1) p, of sep, symmetric] by simp
  moreover have "hexport_r mem htab sep resp sz [] = None \<longleftrightarrow>
      export_need sep htab < bsz \<and> (resp \<noteq> None \<or> mem bsz) \<and>
      (export_cap resp bsz < bsz \<or> export_cap resp bsz \<le> length (concat (map (export_text sep) es)))"
    unfolding h assms(2) by (simp add: Let_def export_write_def not_less Suc_le_eq)
  ultimately show ?thesis by simp
qed

text \<open>C18. When \<^verbatim>\<open>hexport_r\<close> writes outside its buffer. \<^verbatim>\<open>size\<close> is the one given, or when that is 0 the computed one;
  the buffer has that length when the function allocates it, otherwise the length the caller's buffer has. The call leaves
  the buffer exactly when it gets as far as writing (the computed need is below \<^verbatim>\<open>size\<close>, the memory was
  there) and the buffer is shorter than \<^verbatim>\<open>size\<close>, or not longer than the text written: the need, less the two
  bytes for each variable that are counted twice, plus, with the NUL separator only, one byte for each backslash in the
  values, whose escapes are written but not counted. So with another separator a buffer that is as long as
  \<^verbatim>\<open>size\<close> is never overrun; with NUL and size 0 it is overrun exactly
  when there are more than two backslashes for each variable, and with NUL and a buffer of exactly the given size, as when
  the environment is saved, exactly when the need is accepted and the text does not fit.\<close>

theorem hexport_overflow:
  assumes "htab_ok htab" and "bsz = (if sz = 0 then export_need sep htab + 1 else sz)"
  shows "(hexport_r mem htab sep resp sz [] = None \<longleftrightarrow>
      export_need sep htab < bsz \<and> (resp \<noteq> None \<or> mem bsz) \<and>
      (export_cap resp bsz < bsz \<or>
       export_cap resp bsz + 2 * unat (htab_filled htab) \<le> export_need sep htab + (if sep = 0 then backslashes htab else 0)))
    \<and> (sep \<noteq> 0 \<and> bsz \<le> export_cap resp bsz \<longrightarrow> hexport_r mem htab sep resp sz [] \<noteq> None)
    \<and> (sep = 0 \<and> sz = 0 \<and> resp = None \<and> mem bsz \<longrightarrow>
       (hexport_r mem htab sep resp sz [] = None \<longleftrightarrow> 2 * unat (htab_filled htab) < backslashes htab))
    \<and> (sep = 0 \<and> sz \<noteq> 0 \<and> resp = Some sz \<longrightarrow>
       (hexport_r mem htab sep resp sz [] = None \<longleftrightarrow>
        export_need 0 htab < sz \<and> sz + 2 * unat (htab_filled htab) \<le> export_need 0 htab + backslashes htab))"
  unfolding hexport_outside [OF assms] using assms(2) by (auto simp: export_cap_def)

text \<open>A table of one variable whose value is three backslashes.\<close>

definition slash_tab :: "hslot list" where
  "slash_tab = [fresh_slot, \<lparr>used = 1, ent_key = Some [100], ent_data = Some [92, 92, 92]\<rparr>,
     fresh_slot, fresh_slot, fresh_slot, fresh_slot]"

definition slash_htab :: hsearch_data where
  "slash_htab = \<lparr>htab_table = Some slash_tab, htab_size = 5, htab_filled = 1\<rparr>"

lemma slash_nth:
  "slash_tab ! 1 = \<lparr>used = 1, ent_key = Some [100], ent_data = Some [92, 92, 92]\<rparr>"
  "slash_tab ! Suc 0 = \<lparr>used = 1, ent_key = Some [100], ent_data = Some [92, 92, 92]\<rparr>"
  "slash_tab ! 2 = fresh_slot" "slash_tab ! 3 = fresh_slot" "slash_tab ! 4 = fresh_slot" "slash_tab ! 5 = fresh_slot"
  by (simp_all add: slash_tab_def)

lemma slash_ok: "htab_ok slash_htab"
proof (rule htab_okI [of _ slash_tab])
  have u5: "unat (5::u32) = 5" by simp
  have l1: "live_ok 5 slash_tab 1"
    unfolding live_ok_def reach_def using worn_hashes(1)
    by (intro exI [of _ "[100]"] exI [of _ "[92, 92, 92]"]) (auto simp: slash_nth intro!: exI [of _ 0])
  have "\<forall>i. 1 \<le> i \<and> i \<le> (5::nat) \<longrightarrow> used (slash_tab ! i) = - 1 \<or> used (slash_tab ! i) = 0 \<or> live_ok 5 slash_tab i"
    unfolding five using l1 by (auto simp: slash_nth fresh_slot_def)
  moreover have "\<forall>i j k. holds slash_tab 5 k i \<and> holds slash_tab 5 k j \<longrightarrow> i = j"
    unfolding holds_def conj_assoc [symmetric] five by (auto simp: slash_nth fresh_slot_def)
  ultimately have "tab_ok 5 slash_tab" unfolding tab_ok_def u5 using prime_size_5 by (simp add: slash_tab_def)
  then show "tab_ok (htab_size slash_htab) slash_tab" by (simp add: slash_htab_def)
  have "live slash_tab 5 = {1}"
    unfolding live_def conj_assoc [symmetric] five by (auto simp: slash_nth fresh_slot_def)
  then show "unat (htab_filled slash_htab) = card (live slash_tab (unat (htab_size slash_htab)))"
    by (simp add: slash_htab_def)
qed (simp add: slash_htab_def)

lemma slash_need:
  "export_need 0 slash_htab = 8" "export_need 10 slash_htab = 11" "backslashes slash_htab = 3"
  "unat (htab_filled slash_htab) = 1"
  by (simp_all add: export_need_def export_size_def needs_escape_def backslashes_def live_entries_def slash_htab_def
      slash_tab_def fresh_slot_def slot_entry_def)

lemma hexport_overflow_witness:
  "hexport_r (\<lambda>_. True) slash_htab 10 None 0 [] \<noteq> None \<and> hexport_r (\<lambda>_. True) slash_htab 0 None 0 [] = None \<and>
   hexport_r (\<lambda>_. True) slash_htab 0 (Some 9) 9 [] = None \<and> hexport_r (\<lambda>_. True) slash_htab 0 (Some 10) 10 [] \<noteq> None"
  using hexport_overflow [OF slash_ok, of 12 0 10 "\<lambda>_. True" None] hexport_overflow [OF slash_ok, of 9 0 0 "\<lambda>_. True" None]
    hexport_overflow [OF slash_ok, of 9 9 0 "\<lambda>_. True" "Some 9"] hexport_overflow [OF slash_ok, of 10 10 0 "\<lambda>_. True" "Some 10"]
  by (simp add: slash_need export_cap_def)

text \<open>The variables of the sample table.\<close>

lemma worn_map: "htab_map worn_htab k = Some d \<Longrightarrow> name_ok 0 k \<and> d \<noteq> []"
  by (auto simp: htab_map_def worn_htab_def worn_tab_def worn_slot_def name_ok_def isblank_def split: option.splits if_splits)

lemma hexport_himport_witness:
  "\<exists>n text. hexport_r (\<lambda>_. True) worn_htab 0 None 0 [] = Some (Inr (n, text)) \<and>
    (\<exists>htab'. himport_r (\<lambda>_. True) slash_htab text (length text) 0 False = Some (1, htab')
      \<and> htab_ok htab' \<and> htab_map htab' = htab_map worn_htab)"
proof -
  have "backslashes worn_htab = 0"
    by (simp add: backslashes_def live_entries_def worn_htab_def worn_tab_def worn_slot_def fresh_slot_def slot_entry_def)
  then have "hexport_r (\<lambda>_. True) worn_htab 0 None 0 [] \<noteq> None"
    using hexport_outside [OF worn_ok refl, of "\<lambda>_. True" 0 None 0] by (simp add: export_cap_def)
  then obtain n out where t: "hexport_r (\<lambda>_. True) worn_htab 0 None 0 [] = Some (Inr (n, out))"
    using hexport_entries [OF worn_ok, of "\<lambda>_. True" 0 None 0] by (auto simp: Let_def)
  have "unat (htab_filled worn_htab) \<le> himport_entries (length out)"
    using himport_entries_bounds(1) [of "length out"] by (simp add: worn_htab_def)
  then show ?thesis
    using hexport_himport [OF worn_ok _ worn_map t, of slash_htab] t by (simp add: sep_ok_def)
qed

end
