(* ===== verification/Environment.thy ===== *)
theory Environment
  imports Power_Loss Crc32 Env_Text
begin

text \<open>
  The environment of the boot loader: loading and saving it in the factory store
  (\<^verbatim>\<open>u-boot32/common/env_factory.c\<close>, \<^verbatim>\<open>env_common.c\<close>) and the functions that read and set variables
  (\<^verbatim>\<open>cmd_nvedit.c\<close>), for the NAS configuration (\<^verbatim>\<open>CONFIG_ENV_SIZE\<close> = 4 KiB, \<^verbatim>\<open>CONFIG_ENV_OVERWRITE\<close> set).
  Together with the archive, the two-slot store and the table: what is set and saved is there after a
  restart, also when the power fails during the save.
\<close>

section \<open>The state\<close>

text \<open>The variables of the environment code: \<^verbatim>\<open>env_htab\<close>, the flags and the address of \<^verbatim>\<open>gd\<close> (the memory from
  \<^verbatim>\<open>gd->env_addr\<close> on), the variables that follow some of the environment's, and the factory store.\<close>

record uboot_env =
  env_htab :: hsearch_data
  env_fac :: factory
  env_valid :: bool
  env_ready :: bool
  env_area :: "byte list"
  env_id :: int
  load_addr :: u32
  BootFile :: "byte list"
  gd_baudrate :: int

definition CONFIG_ENV_SIZE :: nat where "CONFIG_ENV_SIZE = 4 * 1024"
definition ENV_HEADER_SIZE :: nat where "ENV_HEADER_SIZE = 4"
definition ENV_SIZE :: nat where "ENV_SIZE = CONFIG_ENV_SIZE - ENV_HEADER_SIZE"
definition TEMP_BUFFER_FOR_FLASH_DATA_ADDR :: u32 where "TEMP_BUFFER_FOR_FLASH_DATA_ADDR = 0x0c000000"

definition ENV_FILENAME_IN_FACTORY :: "byte list" where
  "ENV_FILENAME_IN_FACTORY = FACTORY_HEADER_FILE_NAME @ bytes_of ''env.txt''"

section \<open>Loading\<close>

text \<open>\<open>denv\<close> is \<^verbatim>\<open>default_environment\<close>, a constant of the board.\<close>

definition env_init :: "byte list \<Rightarrow> uboot_env \<Rightarrow> int \<times> uboot_env" where
  "env_init denv st = (0, st\<lparr>env_area := denv, env_valid := True\<rparr>)"

definition set_default_env :: "(nat \<Rightarrow> bool) \<Rightarrow> byte list \<Rightarrow> uboot_env \<Rightarrow> uboot_env option" where
  "set_default_env mem denv st =
     (if length denv > ENV_SIZE then Some st
      else do {
        (_, h) \<leftarrow> himport_r mem (env_htab st) denv (length denv) 0 False;
        Some (st\<lparr>env_htab := h, env_ready := True\<rparr>)
      })"

text \<open>\<open>buf\<close> is the memory from the address \<open>a\<close> on.\<close>

definition env_import ::
  "(nat \<Rightarrow> bool) \<Rightarrow> byte list \<Rightarrow> u32 \<Rightarrow> byte list \<Rightarrow> bool \<Rightarrow> uboot_env \<Rightarrow> (int \<times> uboot_env) option" where
  "env_import mem denv a buf check st =
     (if length buf < CONFIG_ENV_SIZE then None
      else if check \<and> crc32 (a + 4) 0 (drop ENV_HEADER_SIZE buf) ENV_SIZE \<noteq> rd32 buf 0 then do {
        st \<leftarrow> set_default_env mem denv st;
        Some (0, st)
      }
      else do {
        (r, h) \<leftarrow> himport_r mem (env_htab st) (drop ENV_HEADER_SIZE buf) ENV_SIZE 0 False;
        let st = st\<lparr>env_htab := h\<rparr>;
        if r \<noteq> 0 then Some (1, st\<lparr>env_ready := True\<rparr>)
        else do { st \<leftarrow> set_default_env mem denv st; Some (0, st) }
      })"

section \<open>Saving\<close>

definition write_env ::
  "factory_cfg \<Rightarrow> flash_dev \<Rightarrow> u32 \<Rightarrow> byte list \<Rightarrow> factory \<Rightarrow> (int \<times> factory) option" where
  "write_env cfg dev sz buffer fac = do {
     (ret, fac) \<leftarrow> factory_write cfg ENV_FILENAME_IN_FACTORY buffer sz fac;
     if ret \<noteq> 0 then Some (ret, fac) else factory_save cfg dev fac
   }"

text \<open>The block with its checksum, as \<^verbatim>\<open>env_t\<close>.\<close>

definition env_block :: "byte list \<Rightarrow> byte list" where
  "env_block data = le32 (crc32 (TEMP_BUFFER_FOR_FLASH_DATA_ADDR + 4) 0 data ENV_SIZE) @ data"

text \<open>The export goes into the \<^verbatim>\<open>data\<close> field of an \<^verbatim>\<open>env_t\<close>, which has \<^verbatim>\<open>ENV_SIZE\<close> bytes; writing behind it is
  outside the buffer.\<close>

definition saveenv :: "factory_cfg \<Rightarrow> flash_dev \<Rightarrow> uboot_env \<Rightarrow> (int \<times> uboot_env) option" where
  "saveenv cfg dev st = do {
     r \<leftarrow> hexport_r (\<lambda>_. True) (env_htab st) 0 (Some ENV_SIZE) ENV_SIZE [];
     (case r of
        Inl _ \<Rightarrow> Some (1, st)
      | Inr (_, data) \<Rightarrow> do {
          (ret, fac) \<leftarrow> write_env cfg dev (of_nat CONFIG_ENV_SIZE) (env_block data) (env_fac st);
          Some (if ret \<noteq> 0 then 1 else 0, st\<lparr>env_fac := fac\<rparr>)
        })
   }"

definition read_env :: "factory_cfg \<Rightarrow> factory \<Rightarrow> (int \<times> (u32 \<times> u32) option) option" where
  "read_env cfg fac = factory_read cfg ENV_FILENAME_IN_FACTORY fac"

definition delete_env :: "factory_cfg \<Rightarrow> flash_dev \<Rightarrow> uboot_env \<Rightarrow> uboot_env option" where
  "delete_env cfg dev st = do {
     (_, fac) \<leftarrow> factory_delete cfg ENV_FILENAME_IN_FACTORY (env_fac st);
     (_, fac) \<leftarrow> factory_save cfg dev fac;
     Some (st\<lparr>env_fac := fac\<rparr>)
   }"

definition env_relocate_spec ::
  "(nat \<Rightarrow> bool) \<Rightarrow> factory_cfg \<Rightarrow> flash_dev \<Rightarrow> byte list \<Rightarrow> uboot_env \<Rightarrow> uboot_env option" where
  "env_relocate_spec mem cfg dev denv st = do {
     (ret, r) \<leftarrow> read_env cfg (env_fac st);
     if ret \<noteq> 0 then do {
       st \<leftarrow> set_default_env mem denv st;
       (_, st) \<leftarrow> saveenv cfg dev st;
       Some st
     }
     else do {
       (a, n) \<leftarrow> r;
       (_, st) \<leftarrow> env_import mem denv a (drop (unat (a - FACTORY_DATA_ADDR)) (factory_mem (env_fac st))) True st;
       Some st
     }
   }"

definition env_relocate ::
  "(nat \<Rightarrow> bool) \<Rightarrow> factory_cfg \<Rightarrow> flash_dev \<Rightarrow> byte list \<Rightarrow> uboot_env \<Rightarrow> uboot_env option" where
  "env_relocate mem cfg dev denv st =
     (if \<not> env_valid st then do {
        st \<leftarrow> set_default_env mem denv st;
        r \<leftarrow> hexport_r (\<lambda>_. True) (env_htab st) 0 (Some ENV_SIZE) ENV_SIZE [];
        (case r of
           Inl _ \<Rightarrow> Some st
         | Inr (_, data) \<Rightarrow> do {
             (ret, fac) \<leftarrow> factory_write cfg ENV_FILENAME_IN_FACTORY (env_block data) (of_nat CONFIG_ENV_SIZE) (env_fac st);
             if ret \<noteq> 0 then Some (st\<lparr>env_fac := fac\<rparr>)
             else do { (_, fac) \<leftarrow> factory_save cfg dev fac; Some (st\<lparr>env_fac := fac\<rparr>) }
           })
      }
      else env_relocate_spec mem cfg dev denv st)"

section \<open>Reading before the table exists\<close>

text \<open>\<^verbatim>\<open>env_get_char\<close> before and after relocation, \<^verbatim>\<open>env_get_addr\<close> and the functions behind them: the
  area when it is valid, the default environment otherwise. Reading outside is \<open>None\<close>.\<close>

definition env_get_char :: "byte list \<Rightarrow> uboot_env \<Rightarrow> nat \<Rightarrow> byte option" where
  "env_get_char denv st i =
     (let m = (if env_valid st then env_area st else denv) in if i < length m then Some (m ! i) else None)"

text \<open>\<^verbatim>\<open>envmatch\<close> walks the name and the environment together; the name ends with a NUL character,
  and walking past that has no defined result.\<close>

primrec envmatch :: "(nat \<Rightarrow> byte option) \<Rightarrow> byte list \<Rightarrow> nat \<Rightarrow> nat option option" where
  "envmatch rdc [] i2 = None"
| "envmatch rdc (c # s1) i2 = do {
     e \<leftarrow> rdc i2;
     if c = e then
       if c = 61 then Some (Some (i2 + 1)) else envmatch rdc s1 (i2 + 1)
     else Some (if c = 0 \<and> e = 61 then Some (i2 + 1) else None)
   }"

text \<open>The inner loop: the end of the entry, or giving up behind \<^verbatim>\<open>CONFIG_ENV_SIZE\<close>.\<close>

function env_entry_end :: "(nat \<Rightarrow> byte option) \<Rightarrow> nat \<Rightarrow> nat option option" where
  "env_entry_end rdc nxt =
     (case rdc nxt of
        None \<Rightarrow> None
      | Some c \<Rightarrow>
          if c \<noteq> 0 then if nxt \<ge> CONFIG_ENV_SIZE then Some None else env_entry_end rdc (nxt + 1)
          else Some (Some nxt))"
  by auto
termination by (relation "measure (\<lambda>(rdc, nxt). CONFIG_ENV_SIZE - nxt)") auto

text \<open>Copying the value: what was written, and whether its end was reached.\<close>

primrec env_copy_out :: "(nat \<Rightarrow> byte option) \<Rightarrow> nat \<Rightarrow> nat \<Rightarrow> (byte list \<times> bool) option" where
  "env_copy_out rdc val 0 = Some ([], False)"
| "env_copy_out rdc val (Suc len) = do {
     c \<leftarrow> rdc val;
     if c = 0 then Some ([], True)
     else do { (cs, fin) \<leftarrow> env_copy_out rdc (val + 1) len; Some (c # cs, fin) }
   }"

text \<open>The return value and the string left in the buffer.\<close>

partial_function (option) getenv_f_loop ::
  "(nat \<Rightarrow> byte option) \<Rightarrow> byte list \<Rightarrow> nat \<Rightarrow> nat \<Rightarrow> (int \<times> byte list) option" where
  "getenv_f_loop rdc name len i = do {
     c \<leftarrow> rdc i;
     if c = 0 then Some (- 1, [])
     else do {
       nxt \<leftarrow> env_entry_end rdc i;
       (case nxt of
          None \<Rightarrow> Some (- 1, [])
        | Some nxt \<Rightarrow> do {
            val \<leftarrow> envmatch rdc (name @ [0]) i;
            (case val of
               None \<Rightarrow> getenv_f_loop rdc name len (nxt + 1)
             | Some val \<Rightarrow> do {
                 (cs, fin) \<leftarrow> env_copy_out rdc val len;
                 if fin then Some (int (length cs), cs)
                 else Some (int len, butlast cs)
               })
          })
     }
   }"

definition getenv_f :: "byte list \<Rightarrow> uboot_env \<Rightarrow> byte list \<Rightarrow> nat \<Rightarrow> (int \<times> byte list) option" where
  "getenv_f denv st name len = getenv_f_loop (env_get_char denv st) name len 0"

section \<open>Reading and setting variables\<close>

definition getenv :: "byte list \<Rightarrow> byte list \<Rightarrow> uboot_env \<Rightarrow> byte list option option" where
  "getenv denv name st =
     (if env_ready st then hget name (env_htab st)
      else do {
        (n, buf) \<leftarrow> getenv_f denv st name 32;
        Some (if n > 0 then Some buf else None)
      })"

definition getenv_ulong :: "byte list \<Rightarrow> byte list \<Rightarrow> u32 \<Rightarrow> u32 \<Rightarrow> uboot_env \<Rightarrow> u32 option" where
  "getenv_ulong denv name base default_val st = do {
     str \<leftarrow> getenv denv name st;
     Some (case str of None \<Rightarrow> default_val | Some s \<Rightarrow> simple_strtoul (s @ [0]) base)
   }"

text \<open>\<^verbatim>\<open>copy_filename\<close> of \<^verbatim>\<open>net/net.c\<close>: an opening quote is skipped, a quote ends the name.\<close>

definition copy_filename :: "byte list \<Rightarrow> nat \<Rightarrow> byte list" where
  "copy_filename src sz =
     (let (src, sz) = (if src \<noteq> [] \<and> hd src = 34 then (tl src, sz - 1) else (src, sz))
      in take (sz - 1) (takeWhile (\<lambda>c. c \<noteq> 34) src))"

definition baudrate_table :: "int list" where
  "baudrate_table = [4800, 9600, 19200, 38400, 57600, 115200]"

text \<open>The value: the arguments from the third on, joined by blanks.\<close>

definition join_args :: "byte list list \<Rightarrow> byte list" where
  "join_args vs = butlast (concat (map (\<lambda>v. v @ [32]) vs))"

definition argv_at :: "byte list option list \<Rightarrow> nat \<Rightarrow> byte list option" where
  "argv_at argv i = (if i < length argv then argv ! i else None)"

text \<open>The standard streams 0, 1 and 2 are redirected by \<open>assign\<close>, the result of \<^verbatim>\<open>console_assign\<close>. An argument
  that is NULL and is read has no defined result.\<close>

definition console_of :: "byte list \<Rightarrow> nat option" where
  "console_of name =
     (if name = bytes_of ''stdin'' then Some 0
      else if name = bytes_of ''stdout'' then Some 1
      else if name = bytes_of ''stderr'' then Some 2
      else None)"

text \<open>The check of a new baud rate when the variable exists: the error return, or the rate set.\<close>

definition set_baudrate :: "byte list \<Rightarrow> byte list option list \<Rightarrow> uboot_env \<Rightarrow> (int + uboot_env) option" where
  "set_baudrate name argv st =
     (if name = bytes_of ''baudrate'' then do {
        v \<leftarrow> argv_at argv 2;
        let baudrate = sint (simple_strtoul (v @ [0]) 10);
        if baudrate \<notin> set baudrate_table then Some (Inl 1)
        else Some (Inr (st\<lparr>gd_baudrate := baudrate\<rparr>))
      }
      else Some (Inr st))"

definition env_follow :: "byte list \<Rightarrow> byte list \<Rightarrow> uboot_env \<Rightarrow> uboot_env" where
  "env_follow name v st =
     (if name = bytes_of ''loadaddr'' then st\<lparr>load_addr := simple_strtoul (v @ [0]) 16\<rparr>
      else if name = bytes_of ''bootfile'' then st\<lparr>BootFile := copy_filename v 128\<rparr>
      else st)"

definition do_env_set_impl ::
  "(nat \<Rightarrow> bool) \<Rightarrow> (nat \<Rightarrow> byte list \<Rightarrow> int) \<Rightarrow> nat \<Rightarrow> byte list option list \<Rightarrow> uboot_env \<Rightarrow> (int \<times> uboot_env) option" where
  "do_env_set_impl mem assign argc argv st = do {
     name \<leftarrow> argv_at argv 1;
     if 61 \<in> set name then Some (1, st)
     else do {
       let st = st\<lparr>env_id := env_id st + 1\<rparr>;
       (ep, _) \<leftarrow> hsearch_r mem name None FIND (env_htab st);
       redirect \<leftarrow>
         (case console_of name of
            None \<Rightarrow> Some None
          | Some console \<Rightarrow>
              if argc < 3 then Some (Some 1)
              else do { v \<leftarrow> argv_at argv 2; Some (if assign console v < 0 then Some 1 else None) });
       (case redirect of
          Some rc \<Rightarrow> Some (rc, st)
        | None \<Rightarrow> do {
            r \<leftarrow> (case ep of Hfound _ _ \<Rightarrow> set_baudrate name argv st | Herror _ \<Rightarrow> Some (Inr st));
            (case r of
               Inl rc \<Rightarrow> Some (rc, st)
             | Inr st \<Rightarrow>
                 if argc < 3 \<or> argv_at argv 2 = None then do {
                   (rc, h) \<leftarrow> hdelete_r name (env_htab st);
                   Some (if rc = 0 then 1 else 0, st\<lparr>env_htab := h\<rparr>)
                 }
                 else do {
                   vs \<leftarrow> those (map (argv_at argv) [2..<argc]);
                   if \<not> mem (sum_list (map (\<lambda>v. length v + 1) vs)) then Some (1, st)
                   else do {
                     (r, h) \<leftarrow> hsearch_r mem name (Some (join_args vs)) ENTER (env_htab st);
                     let st = st\<lparr>env_htab := h\<rparr>;
                     (case r of
                        Herror _ \<Rightarrow> Some (1, st)
                      | Hfound _ _ \<Rightarrow> Some (0, env_follow name (hd vs) st))
                   }
                 })
          })
     }
   }"

definition setenv ::
  "(nat \<Rightarrow> bool) \<Rightarrow> (nat \<Rightarrow> byte list \<Rightarrow> int) \<Rightarrow> byte list \<Rightarrow> byte list option \<Rightarrow> uboot_env \<Rightarrow> (int \<times> uboot_env) option" where
  "setenv mem assign varname varvalue st =
     do_env_set_impl mem assign (if varvalue = None \<or> varvalue = Some [] then 2 else 3)
       [Some (bytes_of ''setenv''), Some varname, varvalue, None] st"

text \<open>\<^verbatim>\<open>simple_itoa\<close> of \<^verbatim>\<open>lib/vsprintf.c\<close>.\<close>

function simple_itoa :: "u32 \<Rightarrow> byte list" where
  "simple_itoa i =
     (if i div 10 > 0 then simple_itoa (i div 10) @ [48 + ucast (i mod 10)] else [48 + ucast (i mod 10)])"
  by auto
termination
  by (relation "measure unat") (auto simp: word_less_nat_alt unat_div)

declare simple_itoa.simps [simp del] env_entry_end.simps [simp del]

definition setenv_ulong ::
  "(nat \<Rightarrow> bool) \<Rightarrow> (nat \<Rightarrow> byte list \<Rightarrow> int) \<Rightarrow> byte list \<Rightarrow> u32 \<Rightarrow> uboot_env \<Rightarrow> (int \<times> uboot_env) option" where
  "setenv_ulong mem assign varname value st = setenv mem assign varname (Some (simple_itoa value)) st"

definition setenv_addr ::
  "(nat \<Rightarrow> bool) \<Rightarrow> (nat \<Rightarrow> byte list \<Rightarrow> int) \<Rightarrow> byte list \<Rightarrow> u32 \<Rightarrow> uboot_env \<Rightarrow> (int \<times> uboot_env) option" where
  "setenv_addr mem assign varname addr st = setenv mem assign varname (Some (sprintf_x addr)) st"

definition do_env_set ::
  "(nat \<Rightarrow> bool) \<Rightarrow> (nat \<Rightarrow> byte list \<Rightarrow> int) \<Rightarrow> byte list option list \<Rightarrow> uboot_env \<Rightarrow> (int \<times> uboot_env) option" where
  "do_env_set mem assign argv st =
     (if length argv < 2 then Some (CMD_RET_USAGE, st) else do_env_set_impl mem assign (length argv) argv st)"

definition do_env_save :: "factory_cfg \<Rightarrow> flash_dev \<Rightarrow> uboot_env \<Rightarrow> (int \<times> uboot_env) option" where
  "do_env_save cfg dev st = do { (r, st) \<leftarrow> saveenv cfg dev st; Some (if r \<noteq> 0 then 1 else 0, st) }"

definition do_env_default ::
  "(nat \<Rightarrow> bool) \<Rightarrow> byte list \<Rightarrow> byte list list \<Rightarrow> uboot_env \<Rightarrow> (int \<times> uboot_env) option" where
  "do_env_default mem denv argv st =
     (if length argv \<noteq> 2 \<or> argv ! 1 \<noteq> bytes_of ''-f'' then Some (CMD_RET_USAGE, st)
      else do { st \<leftarrow> set_default_env mem denv st; Some (0, st) })"

section \<open>Completion and the variables for the kernel\<close>

text \<open>\<^verbatim>\<open>env_complete\<close>: the matching names, as many as there is room for, and whether the scan was cut short.\<close>

partial_function (option) env_complete_loop ::
  "byte list \<Rightarrow> int \<Rightarrow> hsearch_data \<Rightarrow> nat \<Rightarrow> int \<Rightarrow> byte list list \<Rightarrow> (byte list list \<times> bool) option" where
  "env_complete_loop var maxv htab idx bufsz found = do {
     r \<leftarrow> hmatch_r var idx htab;
     (case r of
        Herror _ \<Rightarrow> Some (found, False)
      | Hfound idx _ \<Rightarrow> do {
          tab \<leftarrow> htab_table htab;
          s \<leftarrow> get_slot tab idx;
          k \<leftarrow> ent_key s;
          let vallen = int (length k) + 1;
          if int (length found) \<ge> maxv - 2 \<or> bufsz < vallen then Some (found, True)
          else env_complete_loop var maxv htab idx (bufsz - vallen) (found @ [k])
        })
   }"

definition strcmp_compar :: "byte list \<Rightarrow> byte list \<Rightarrow> int" where
  "strcmp_compar p1 p2 = sint (strcmp p1 p2)"

definition env_complete :: "byte list \<Rightarrow> int \<Rightarrow> int \<Rightarrow> uboot_env \<Rightarrow> byte list list option" where
  "env_complete var maxv bufsz st = do {
     (found, more) \<leftarrow> env_complete_loop var maxv (env_htab st) 0 bufsz [];
     cmdv \<leftarrow> qsort strcmp_compar (length found) 4 found;
     Some (if more then cmdv @ [bytes_of ''...''] else cmdv)
   }"

text \<open>\<^verbatim>\<open>env_export\<close>: the variables as name and value for the kernel, in \<^verbatim>\<open>SYS_USER_ENVIRONMENT_MAX_INDEX + 1\<close>
  records of \<^verbatim>\<open>SYS_USER_ENVIRONMENT_DATA_SIZE\<close> bytes; writing outside them is \<open>None\<close>. The test for a failed
  export compares an unsigned number with 0, so that the failure is followed by reading from NULL.\<close>

definition SYS_USER_ENVIRONMENT_MAX_INDEX :: nat where "SYS_USER_ENVIRONMENT_MAX_INDEX = 99"
definition SYS_USER_ENVIRONMENT_DATA_SIZE :: nat where "SYS_USER_ENVIRONMENT_DATA_SIZE = 124"

definition env_export_item :: "byte list \<Rightarrow> (byte list \<times> byte list) option" where
  "env_export_item item =
     (if 61 \<in> set item then Some (takeWhile (\<lambda>c. c \<noteq> 61) item, tl (dropWhile (\<lambda>c. c \<noteq> 61) item)) else None)"

function env_export_loop ::
  "byte list \<Rightarrow> nat \<Rightarrow> (byte list \<times> byte list) option list option" where
  "env_export_loop buf index =
     (if buf = [] \<or> hd buf = 0 then Some []
      else
        let item = takeWhile (\<lambda>c. c \<noteq> 0) buf; rest = dropWhile (\<lambda>c. c \<noteq> 0) buf in
        if rest = [] \<or> index > SYS_USER_ENVIRONMENT_MAX_INDEX \<or> length item + 1 > SYS_USER_ENVIRONMENT_DATA_SIZE
        then None
        else do { vs \<leftarrow> env_export_loop (tl rest) (index + 1); Some (env_export_item item # vs) })"
  by auto
termination
proof (relation "measure (\<lambda>(buf, index). length buf)")
  fix buf :: "byte list" and index x xa
  assume "\<not> (buf = [] \<or> hd buf = 0)" and "xa = dropWhile (\<lambda>c. c \<noteq> 0) buf"
  then show "((tl xa, index + 1), buf, index) \<in> measure (\<lambda>(buf, index). length buf)"
    using length_dropWhile_le [of "\<lambda>c. c \<noteq> 0" buf] by (cases buf) auto
qed simp

declare env_export_loop.simps [simp del]

definition env_export :: "(nat \<Rightarrow> bool) \<Rightarrow> uboot_env \<Rightarrow> (byte list \<times> byte list) option list option" where
  "env_export mem st = do {
     r \<leftarrow> hexport_r mem (env_htab st) 0 None 0 [];
     (case r of Inl _ \<Rightarrow> None | Inr (_, buf) \<Rightarrow> env_export_loop buf 0)
   }"

section \<open>A saved environment is loaded\<close>

lemma himport_take:
  assumes "sz \<le> length env"
  shows "himport_r mem htab env sz sep noclear = himport_r mem htab (take sz env) sz sep noclear"
proof -
  have "take sz (take sz env) = take sz env" "\<not> length (take sz env) < sz" "\<not> length env < sz"
    using assms by simp_all
  then show ?thesis unfolding himport_r_def by (simp only: if_False)
qed

lemma rd32_le32_append: "rd32 (le32 w @ p) 0 = w"
  by (rule rd32_le32) (simp add: rd_def nth_append)

lemma hexport_length:
  assumes "htab_ok htab" and "hexport_r mem htab sep (Some sz) sz [] = Some (Inr (n, data))" and "sz \<noteq> 0"
  shows "length data = sz" and "n = sz"
  using hexport_entries [OF assms(1), of mem sep "Some sz" sz] assms(2,3)
  by (auto simp: Let_def export_write_def export_cap_def split: if_splits)

text \<open>A table that can be saved: its variables survive the text form and its export fits.\<close>

definition env_savable :: "hsearch_data \<Rightarrow> byte list \<Rightarrow> bool" where
  "env_savable htab data \<longleftrightarrow> htab_ok htab \<and> unat (htab_filled htab) \<le> 512
     \<and> (\<forall>k d. htab_map htab k = Some d \<longrightarrow> name_ok 0 k \<and> d \<noteq> [])
     \<and> hexport_r (\<lambda>_. True) htab 0 (Some ENV_SIZE) ENV_SIZE [] = Some (Inr (ENV_SIZE, data))"

lemma env_savable_length:
  assumes "env_savable htab data"
  shows "length data = ENV_SIZE" and "length (env_block data) = CONFIG_ENV_SIZE"
proof -
  show l: "length data = ENV_SIZE"
    using assms hexport_length [of htab "\<lambda>_. True" 0 ENV_SIZE ENV_SIZE data]
    by (simp add: env_savable_def ENV_SIZE_def CONFIG_ENV_SIZE_def ENV_HEADER_SIZE_def)
  show "length (env_block data) = CONFIG_ENV_SIZE"
    by (simp add: env_block_def l ENV_SIZE_def CONFIG_ENV_SIZE_def ENV_HEADER_SIZE_def)
qed

lemma env_import_block:
  assumes sav: "env_savable htab data" and buf: "take CONFIG_ENV_SIZE buf = env_block data"
  shows "\<exists>h. env_import (\<lambda>_. True) denv a buf True st = Some (1, st\<lparr>env_htab := h, env_ready := True\<rparr>)
    \<and> htab_ok h \<and> htab_map h = htab_map htab"
proof -
  note len = env_savable_length [OF sav]
  have lb: "CONFIG_ENV_SIZE \<le> length buf" using arg_cong [OF buf, of length] len(2) by (simp add: min_def split: if_splits)
  define r where "r = drop CONFIG_ENV_SIZE buf"
  have b: "buf = env_block data @ r" using buf append_take_drop_id [of CONFIG_ENV_SIZE buf] by (simp add: r_def)
  have d: "drop ENV_HEADER_SIZE buf = data @ r" by (simp add: b env_block_def ENV_HEADER_SIZE_def)
  have c: "rd32 buf 0 = crc32 (a + 4) 0 (drop ENV_HEADER_SIZE buf) ENV_SIZE"
    unfolding d using len(1)
    by (simp add: b env_block_def rd32_le32_append crc32_def crc32_no_comp_eq)
  have "unat (htab_filled htab) \<le> himport_entries (length data)"
    using sav len(1) by (simp add: env_savable_def himport_entries_def CONFIG_ENV_MIN_ENTRIES_def CONFIG_ENV_MAX_ENTRIES_def
      ENV_SIZE_def CONFIG_ENV_SIZE_def ENV_HEADER_SIZE_def)
  then obtain h where h: "himport_r (\<lambda>_. True) (env_htab st) data (length data) 0 False = Some (1, h)"
    "htab_ok h" "htab_map h = htab_map htab"
    using export_import [of htab 0 "\<lambda>_. True" "Some ENV_SIZE" ENV_SIZE ENV_SIZE data "env_htab st"] sav by (auto simp: env_savable_def sep_ok_def)
  have "himport_r (\<lambda>_. True) (env_htab st) (drop ENV_HEADER_SIZE buf) ENV_SIZE 0 False = Some (1, h)"
    using himport_take [of ENV_SIZE "drop ENV_HEADER_SIZE buf"] h(1) len(1) by (simp add: d)
  then show ?thesis using c h lb by (intro exI [of _ h]) (simp add: env_import_def Let_def)
qed

lemma env_relocate_stored:
  assumes sav: "env_savable htab data" and c: "factory_contents cfg (env_fac st) ENV_FILENAME_IN_FACTORY = Some (env_block data)"
    and v: "env_valid st"
  shows "\<exists>h. env_relocate (\<lambda>_. True) cfg dev denv st = Some (st\<lparr>env_htab := h, env_ready := True\<rparr>)
    \<and> htab_ok h \<and> htab_map h = htab_map htab"
proof -
  obtain a n where r: "factory_read cfg ENV_FILENAME_IN_FACTORY (env_fac st) = Some (0, Some (a, n))"
    and t: "take (unat n) (drop (unat (a - FACTORY_DATA_ADDR)) (factory_mem (env_fac st))) = env_block data"
    using c by (auto simp: factory_contents_def split: option.splits if_splits)
  let ?buf = "drop (unat (a - FACTORY_DATA_ADDR)) (factory_mem (env_fac st))"
  have "length (take (unat n) ?buf) = CONFIG_ENV_SIZE" using t env_savable_length(2) [OF sav] by simp
  then have "take CONFIG_ENV_SIZE ?buf = take (unat n) ?buf" by (auto simp: min_def split: if_splits)
  then have "take CONFIG_ENV_SIZE ?buf = env_block data" using t by simp
  from env_import_block [OF sav this, of denv a st] show ?thesis
    using v r by (auto simp: env_relocate_def env_relocate_spec_def read_env_def)
qed

lemma getenv_ready:
  "env_ready st \<Longrightarrow> htab_ok (env_htab st) \<Longrightarrow> 0 \<notin> set name \<Longrightarrow> getenv denv name st = Some (htab_map (env_htab st) name)"
  by (simp add: getenv_def hv.get_law)

section \<open>Saving and restarting\<close>

lemma env_filename: "tar_name ENV_FILENAME_IN_FACTORY" "\<not> name_match ENV_FILENAME_IN_FACTORY FACTORY_HEADER_FILE_NAME"
  by (simp_all add: ENV_FILENAME_IN_FACTORY_def FACTORY_HEADER_FILE_NAME_def bytes_of_def tar_name_def name_match_def cstr_Cons cstr_def isascii_def)

text \<open>The store can take the environment and be saved: the write and the save have room, and the save does
  not wrap the sequence number.\<close>

definition env_storable ::
  "factory_cfg \<Rightarrow> flash_dev \<Rightarrow> entry list \<Rightarrow> nat \<Rightarrow> entry list \<times> u32 \<Rightarrow> byte list \<Rightarrow> factory \<Rightarrow> bool" where
  "env_storable cfg dev es p im data fac \<longleftrightarrow> factory_synced cfg dev es p im fac
     \<and> length (archive es) + 512 + CONFIG_ENV_SIZE + TAR_PADDING_SZ \<le> cfg_half cfg
     \<and> length (archive (tar_rewrite ENV_FILENAME_IN_FACTORY (env_block data) (of_nat CONFIG_ENV_SIZE) True True False es))
         + 512 + TAR_PADDING_SZ \<le> cfg_half cfg
     \<and> (\<forall>b. spi_prog dev 0xFF b = b) \<and> (p = 1 \<or> snd im + 1 \<noteq> 0)
     \<and> (\<forall>e \<in> set (tl es). \<not> rtk_signed (fst e))"

lemma env_size_u32: "unat (of_nat CONFIG_ENV_SIZE :: u32) = CONFIG_ENV_SIZE"
  by (simp add: CONFIG_ENV_SIZE_def)

lemma saveenv_written:
  assumes sav: "env_savable (env_htab st) data" and sto: "env_storable cfg dev es p im data (env_fac st)"
    and m: "length m = cfg_size cfg"
  shows "\<exists>fac1 fac2 fac3. factory_write cfg ENV_FILENAME_IN_FACTORY (env_block data) (of_nat CONFIG_ENV_SIZE) (env_fac st) = Some (0, fac1)
    \<and> factory_save cfg dev fac1 = Some (0, fac2)
    \<and> saveenv cfg dev st = Some (0, st\<lparr>env_fac := fac2\<rparr>)
    \<and> factory_init cfg dev h1 h2 (boot\<lparr>factory_mem := m, factory_flash := factory_flash fac2\<rparr>) = Some (0, fac3)
    \<and> factory_contents cfg fac3 ENV_FILENAME_IN_FACTORY = Some (env_block data)
    \<and> (\<forall>g. tar_name g \<and> \<not> name_match ENV_FILENAME_IN_FACTORY g \<longrightarrow> factory_contents cfg fac3 g = factory_contents cfg (env_fac st) g)"
proof -
  note len = env_savable_length [OF sav]
  have b: "blocks CONFIG_ENV_SIZE = CONFIG_ENV_SIZE" by (simp add: blocks_def CONFIG_ENV_SIZE_def)
  obtain fac1 fac2 fac3 where
    f: "factory_write cfg ENV_FILENAME_IN_FACTORY (env_block data) (of_nat CONFIG_ENV_SIZE) (env_fac st) = Some (0, fac1)"
    "factory_save cfg dev fac1 = Some (0, fac2)"
    "factory_init cfg dev h1 h2 (boot\<lparr>factory_mem := m, factory_flash := factory_flash fac2\<rparr>) = Some (0, fac3)"
    "\<forall>g. tar_name g \<longrightarrow> factory_contents cfg fac3 g =
       (if cstr g = cstr ENV_FILENAME_IN_FACTORY then Some (take (unat (of_nat CONFIG_ENV_SIZE :: u32)) (env_block data))
        else if name_match ENV_FILENAME_IN_FACTORY g then None else factory_contents cfg (env_fac st) g)"
    using write_save_boot [of cfg dev es p im "env_fac st" ENV_FILENAME_IN_FACTORY "of_nat CONFIG_ENV_SIZE" "env_block data" m h1 h2 boot]
      sto len(2) m env_filename unfolding env_storable_def env_size_u32 b
    by (auto simp: CONFIG_ENV_SIZE_def)
  have "saveenv cfg dev st = Some (0, st\<lparr>env_fac := fac2\<rparr>)"
    using sav f(1,2) by (simp add: saveenv_def write_env_def env_savable_def)
  moreover have "cstr g \<noteq> cstr ENV_FILENAME_IN_FACTORY" if "\<not> name_match ENV_FILENAME_IN_FACTORY g" for g
    using that by (auto simp: name_match_def)
  then have "factory_contents cfg fac3 ENV_FILENAME_IN_FACTORY = Some (env_block data)"
    "\<forall>g. tar_name g \<and> \<not> name_match ENV_FILENAME_IN_FACTORY g \<longrightarrow> factory_contents cfg fac3 g = factory_contents cfg (env_fac st) g"
    using f(4) env_filename(1) len(2) env_size_u32 by simp_all
  ultimately show ?thesis using f(1-3) by blast
qed

text \<open>C2. What is saved is there after a restart. A table whose variables survive the text form and whose
  export fits into the 4 KiB of the environment, saved by \<^verbatim>\<open>saveenv\<close> into a store that has room: the call
  succeeds; after a restart, \<^verbatim>\<open>factory_init\<close> and \<^verbatim>\<open>env_relocate\<close>, whatever was in RAM, find the checksum
  correct, and \<^verbatim>\<open>getenv\<close> returns for every name what it returned before. The files of the store whose name does not
  begin with that of the environment are as they were.\<close>

theorem saveenv_restart:
  assumes "env_savable (env_htab st) data" and "env_storable cfg dev es p im data (env_fac st)"
    and "length m = cfg_size cfg"
  shows "\<exists>st1 fac st2. saveenv cfg dev st = Some (0, st1)
    \<and> factory_init cfg dev h1 h2 (boot\<lparr>factory_mem := m, factory_flash := factory_flash (env_fac st1)\<rparr>) = Some (0, fac)
    \<and> env_relocate (\<lambda>_. True) cfg dev denv (snd (env_init denv (new\<lparr>env_fac := fac\<rparr>))) = Some st2
    \<and> (\<forall>name. 0 \<notin> set name \<longrightarrow> getenv denv name st2 = Some (htab_map (env_htab st) name))
    \<and> (\<forall>g. tar_name g \<and> \<not> name_match ENV_FILENAME_IN_FACTORY g \<longrightarrow>
         factory_contents cfg fac g = factory_contents cfg (env_fac st) g)"
proof -
  obtain fac2 fac3 where f: "saveenv cfg dev st = Some (0, st\<lparr>env_fac := fac2\<rparr>)"
    "factory_init cfg dev h1 h2 (boot\<lparr>factory_mem := m, factory_flash := factory_flash fac2\<rparr>) = Some (0, fac3)"
    "factory_contents cfg fac3 ENV_FILENAME_IN_FACTORY = Some (env_block data)"
    "\<forall>g. tar_name g \<and> \<not> name_match ENV_FILENAME_IN_FACTORY g \<longrightarrow> factory_contents cfg fac3 g = factory_contents cfg (env_fac st) g"
    using saveenv_written [OF assms] by blast
  let ?st = "snd (env_init denv (new\<lparr>env_fac := fac3\<rparr>))"
  obtain h where h: "env_relocate (\<lambda>_. True) cfg dev denv ?st = Some (?st\<lparr>env_htab := h, env_ready := True\<rparr>)"
    "htab_ok h" "htab_map h = htab_map (env_htab st)"
    using env_relocate_stored [OF assms(1), of cfg ?st dev denv] f(3) by (auto simp: env_init_def)
  then show ?thesis using f getenv_ready [of "?st\<lparr>env_htab := h, env_ready := True\<rparr>"]
    by (intro exI [of _ "st\<lparr>env_fac := fac2\<rparr>"] exI [of _ fac3] exI [of _ "?st\<lparr>env_htab := h, env_ready := True\<rparr>"]) simp
qed

text \<open>A sample: the NAS store with the directory alone, and the table of four variables.\<close>

lemma env_savable_small:
  assumes ok: "htab_ok htab" and "unat (htab_filled htab) \<le> 512"
    and "\<And>k d. htab_map htab k = Some d \<Longrightarrow> name_ok 0 k \<and> d \<noteq> []"
    and small: "sum_list (map (\<lambda>e. length (fst e) + 2 * length (snd e) + 4) (live_entries htab)) < ENV_SIZE"
  shows "\<exists>data. env_savable htab data"
proof -
  obtain es where p: "mset es = mset (live_entries htab)"
    and h: "hexport_r (\<lambda>_. True) htab 0 (Some ENV_SIZE) ENV_SIZE [] =
     (if ENV_SIZE \<noteq> 0 \<and> ENV_SIZE < export_need 0 htab + 1 then Some (Inl ENOMEM)
      else
        let sz = (if ENV_SIZE \<noteq> 0 then ENV_SIZE else export_need 0 htab + 1) in
        if Some ENV_SIZE = None \<and> \<not> True then Some (Inl ENOMEM)
        else map_option (\<lambda>buf. Inr (sz, buf))
          (export_write (export_cap (Some ENV_SIZE) sz) sz (concat (map (export_text 0) es))))"
    using hexport_entries [OF ok, of "\<lambda>_. True" 0 "Some ENV_SIZE" ENV_SIZE] by blast
  let ?s = "sum_list (map (\<lambda>e. length (fst e) + 2 * length (snd e) + 4) es)"
  have s: "?s < ENV_SIZE" using small sum_list_perm [OF p] by metis
  have "sum_list (map (export_size 0) es) \<le> ?s"
    by (rule sum_list_mono) (simp add: export_size_def)
  then have "export_need 0 htab \<le> ?s"
    unfolding export_need_def sum_list_perm [OF p, symmetric] .
  moreover have "length (concat (map (export_text 0) es)) \<le> ?s"
    unfolding length_concat map_map
  proof (rule sum_list_mono)
    fix e
    have "length (escape 0 d) \<le> 2 * length d" for d by (induction d) (simp_all add: escape_def)
    then show "(length \<circ> export_text 0) e \<le> length (fst e) + 2 * length (snd e) + 4"
      by (simp add: export_text_def le_Suc_eq le_add2 trans_le_add1 add_le_mono)
  qed
  ultimately have "\<exists>data. hexport_r (\<lambda>_. True) htab 0 (Some ENV_SIZE) ENV_SIZE [] = Some (Inr (ENV_SIZE, data))"
    unfolding h using s by (simp add: Let_def export_write_def export_cap_def)
  then show ?thesis using assms by (auto simp: env_savable_def)
qed

lemma sample_savable: "\<exists>data. env_savable worn_htab data" "\<exists>data. env_savable slash_htab data"
proof -
  show "\<exists>data. env_savable worn_htab data"
    by (rule env_savable_small [OF worn_ok])
      (use worn_map in \<open>simp_all add: worn_htab_def worn_tab_def worn_slot_def fresh_slot_def live_entries_def slot_entry_def
        ENV_SIZE_def CONFIG_ENV_SIZE_def ENV_HEADER_SIZE_def\<close>)
  have "htab_map slash_htab k = Some d \<Longrightarrow> name_ok 0 k \<and> d \<noteq> []" for k d
    by (auto simp: htab_map_def slash_htab_def slash_tab_def fresh_slot_def name_ok_def isblank_def split: option.splits if_splits)
  then show "\<exists>data. env_savable slash_htab data"
    by (intro env_savable_small [OF slash_ok])
      (simp_all add: slash_htab_def slash_tab_def fresh_slot_def live_entries_def slot_entry_def
        ENV_SIZE_def CONFIG_ENV_SIZE_def ENV_HEADER_SIZE_def)
qed

lemma nas_storable:
  assumes "length (env_block data) = CONFIG_ENV_SIZE"
  shows "env_storable nas_cfg nas_dev root_es 0 (root_es, 0) data (nas_state 0)"
proof -
  have b: "blocks CONFIG_ENV_SIZE = CONFIG_ENV_SIZE" by (simp add: blocks_def CONFIG_ENV_SIZE_def)
  have "length (archive (tar_rewrite ENV_FILENAME_IN_FACTORY (env_block data) (of_nat CONFIG_ENV_SIZE) True True False root_es))
      = 1024 + CONFIG_ENV_SIZE"
    using root_rewrite_length(1) [OF env_filename, of "of_nat CONFIG_ENV_SIZE" "env_block data"] assms
    unfolding env_size_u32 b by simp
  then show ?thesis
    using nas_synced [of 0] root_es_ok(3) nas_cfg_ok nas_prog root_rewrite_length(2) [OF env_filename, of 0 "[]"]
    by (simp add: env_storable_def CONFIG_ENV_SIZE_def TAR_PADDING_SZ_def)
qed

definition nas_env :: "hsearch_data \<Rightarrow> uboot_env" where
  "nas_env htab = \<lparr>env_htab = htab, env_fac = nas_state 0, env_valid = True, env_ready = True, env_area = [],
     env_id = 1, load_addr = 0, BootFile = [], gd_baudrate = 115200\<rparr>"

lemma saveenv_restart_witness:
  "\<exists>st1 fac st2. saveenv nas_cfg nas_dev (nas_env worn_htab) = Some (0, st1)
    \<and> factory_init nas_cfg nas_dev [] [] ((nas_state 5)\<lparr>factory_mem := replicate 0x20000 7, factory_flash := factory_flash (env_fac st1)\<rparr>) = Some (0, fac)
    \<and> env_relocate (\<lambda>_. True) nas_cfg nas_dev [0] (snd (env_init [0] ((nas_env slash_htab)\<lparr>env_fac := fac\<rparr>))) = Some st2
    \<and> (\<forall>name. 0 \<notin> set name \<longrightarrow> getenv [0] name st2 = Some (htab_map (env_htab (nas_env worn_htab)) name))
    \<and> (\<forall>g. tar_name g \<and> \<not> name_match ENV_FILENAME_IN_FACTORY g \<longrightarrow>
         factory_contents nas_cfg fac g = factory_contents nas_cfg (env_fac (nas_env worn_htab)) g)"
proof -
  obtain data where d: "env_savable worn_htab data" using sample_savable(1) by blast
  have "env_savable (env_htab (nas_env worn_htab)) data" using d by (simp add: nas_env_def)
  moreover have "env_storable nas_cfg nas_dev root_es 0 (root_es, 0) data (env_fac (nas_env worn_htab))"
    using nas_storable [OF env_savable_length(2) [OF d]] by (simp add: nas_env_def)
  ultimately show ?thesis by (rule saveenv_restart) (simp add: nas_cfg_def)
qed

lemma env_restored:
  assumes "env_savable htab dat" "factory_contents cfg fac ENV_FILENAME_IN_FACTORY = Some (env_block dat)"
  shows "\<exists>st2. env_relocate (\<lambda>_. True) cfg dev denv (snd (env_init denv (new\<lparr>env_fac := fac\<rparr>))) = Some st2
    \<and> (\<forall>name. 0 \<notin> set name \<longrightarrow> getenv denv name st2 = Some (htab_map htab name))"
proof -
  let ?st = "snd (env_init denv (new\<lparr>env_fac := fac\<rparr>))"
  obtain h where "env_relocate (\<lambda>_. True) cfg dev denv ?st = Some (?st\<lparr>env_htab := h, env_ready := True\<rparr>)"
    "htab_ok h" "htab_map h = htab_map htab"
    using env_relocate_stored [OF assms(1), of cfg ?st dev denv] assms(2) by (auto simp: env_init_def)
  then show ?thesis using getenv_ready [of "?st\<lparr>env_htab := h, env_ready := True\<rparr>"]
    by (intro exI [of _ "?st\<lparr>env_htab := h, env_ready := True\<rparr>"]) simp
qed

text \<open>The store between the write of the environment and the save.\<close>

lemma env_written:
  assumes sav: "env_savable (env_htab st) data" and sto: "env_storable cfg dev es p im data (env_fac st)"
  defines "es' \<equiv> tar_rewrite ENV_FILENAME_IN_FACTORY (env_block data) (of_nat CONFIG_ENV_SIZE) True True False es"
  shows "\<exists>fac1. factory_write cfg ENV_FILENAME_IN_FACTORY (env_block data) (of_nat CONFIG_ENV_SIZE) (env_fac st) = Some (0, fac1)
    \<and> factory_dirty fac1 \<and> factory_synced cfg dev es' p im fac1 \<and> factory_flash fac1 = factory_flash (env_fac st)
    \<and> factory_contents cfg fac1 ENV_FILENAME_IN_FACTORY = Some (env_block data)"
proof -
  note len = env_savable_length(2) [OF sav]
  have b: "blocks CONFIG_ENV_SIZE = CONFIG_ENV_SIZE" by (simp add: blocks_def CONFIG_ENV_SIZE_def)
  have syn: "factory_synced cfg dev es p im (env_fac st)"
    and fit: "length (archive es) + 512 + blocks (unat (of_nat CONFIG_ENV_SIZE :: u32)) + TAR_PADDING_SZ \<le> cfg_half cfg"
    using sto unfolding env_storable_def env_size_u32 b by blast+
  have cfg: "cfg_ok cfg" and inv: "factory_inv cfg es (env_fac st)" and root: "factory_root es"
    using syn by (simp_all add: factory_synced_def)
  have ok: "\<forall>e \<in> set es. entry_ok e" using inv by (simp add: factory_inv_def tar_area_def)
  have n: "unat (of_nat CONFIG_ENV_SIZE :: u32) \<le> length (env_block data)" "unat (of_nat CONFIG_ENV_SIZE :: u32) < 2 ^ 30"
    unfolding env_size_u32 using len by (simp_all add: CONFIG_ENV_SIZE_def)
  from factory_write_ok [OF cfg inv env_filename(1) n fit] obtain fac1 where
    w: "factory_write cfg ENV_FILENAME_IN_FACTORY (env_block data) (of_nat CONFIG_ENV_SIZE) (env_fac st) = Some (0, fac1)"
      "factory_dirty fac1" "factory_inv cfg es' fac1" "factory_current_pp fac1 = factory_current_pp (env_fac st)"
      "factory_seq_num fac1 = factory_seq_num (env_fac st)" "factory_flash fac1 = factory_flash (env_fac st)"
    unfolding es'_def by blast
  moreover have "factory_synced cfg dev es' p im fac1"
    using syn w rewrite_root [OF root env_filename(2)] by (auto simp: factory_synced_def es'_def)
  moreover have "factory_contents cfg fac1 ENV_FILENAME_IN_FACTORY = Some (env_block data)"
    unfolding factory_contents_inv [OF cfg w(3)] es'_def
    using lookup_after_add [OF ok env_filename(1) n(1)] len unfolding env_size_u32 by simp
  ultimately show ?thesis by blast
qed

text \<open>C1. Losing the power during \<^verbatim>\<open>saveenv\<close> loses no environment. Stop the erase and program operations of
  the save at any point and restart: \<^verbatim>\<open>factory_init\<close> and \<^verbatim>\<open>env_relocate\<close> succeed, and \<^verbatim>\<open>getenv\<close> then
  returns for every name the value that was saved before, or for every name the value that was being saved;
  never a mixture, and never the default environment. The operations are those of \<^verbatim>\<open>saveenv\<close>: run to the end they
  leave the flash it leaves.\<close>

theorem saveenv_power_loss:
  assumes "env_savable (env_htab st) data" and "env_storable cfg dev es p im data (env_fac st)"
    and "env_savable htab0 data0" and "tar_lookup ENV_FILENAME_IN_FACTORY (fst im) = Some (env_block data0)"
    and "save_reaches cfg dev
      (tar_rewrite ENV_FILENAME_IN_FACTORY (env_block data) (of_nat CONFIG_ENV_SIZE) True True False es, snd im + 1)
      (1 - p) (factory_flash (env_fac st)) (ph, f)"
    and "factory_flash boot = f" and "length (factory_mem boot) = cfg_size cfg"
  shows "(\<exists>st1 x. saveenv cfg dev st = Some (0, st1)
      \<and> save_reaches cfg dev
          (tar_rewrite ENV_FILENAME_IN_FACTORY (env_block data) (of_nat CONFIG_ENV_SIZE) True True False es, snd im + 1)
          (1 - p) (factory_flash (env_fac st)) (Programming x [], factory_flash (env_fac st1)))
    \<and> (\<exists>fac st2. factory_init cfg dev h1 h2 boot = Some (0, fac)
      \<and> env_relocate (\<lambda>_. True) cfg dev denv (snd (env_init denv (new\<lparr>env_fac := fac\<rparr>))) = Some st2
      \<and> ((\<forall>name. 0 \<notin> set name \<longrightarrow> getenv denv name st2 = Some (htab_map htab0 name))
         \<or> (\<forall>name. 0 \<notin> set name \<longrightarrow> getenv denv name st2 = Some (htab_map (env_htab st) name))))"
proof -
  let ?es = "tar_rewrite ENV_FILENAME_IN_FACTORY (env_block data) (of_nat CONFIG_ENV_SIZE) True True False es"
  have room: "length (archive ?es) + 512 + TAR_PADDING_SZ \<le> cfg_half cfg"
    and prog: "\<And>b. spi_prog dev 0xFF b = b" and nw: "p = 1 \<or> snd im + 1 \<noteq> 0"
    using assms(2) by (simp_all add: env_storable_def)
  obtain fac1 where
    w: "factory_write cfg ENV_FILENAME_IN_FACTORY (env_block data) (of_nat CONFIG_ENV_SIZE) (env_fac st) = Some (0, fac1)"
      "factory_dirty fac1" "factory_synced cfg dev ?es p im fac1" "factory_flash fac1 = factory_flash (env_fac st)"
      "factory_contents cfg fac1 ENV_FILENAME_IN_FACTORY = Some (env_block data)"
    using env_written [OF assms(1,2)] by blast
  obtain fac2 x where v: "factory_save cfg dev fac1 = Some (0, fac2)"
    "save_reaches cfg dev (?es, snd im + 1) (1 - p) (factory_flash fac1) (Programming x [], factory_flash fac2)"
    using factory_save_run [OF w(3,2) room prog] by blast
  have "saveenv cfg dev st = Some (0, st\<lparr>env_fac := fac2\<rparr>)"
    using assms(1) w(1) v(1) by (simp add: saveenv_def write_env_def env_savable_def)
  moreover have r: "save_reaches cfg dev (?es, snd im + 1) (1 - p) (factory_flash fac1) (ph, f)" using assms(5) w(4) by simp
  obtain fac where fac: "factory_init cfg dev h1 h2 boot = Some (0, fac)"
    and c: "factory_contents cfg fac = (\<lambda>path. tar_lookup path (fst im)) \<or> factory_contents cfg fac = factory_contents cfg fac1"
    using save_atomic [OF w(3) room prog nw r assms(6,7), of h1 h2] by blast
  from c have "\<exists>htab\<in>{htab0, env_htab st}. \<exists>dat. env_savable htab dat
      \<and> factory_contents cfg fac ENV_FILENAME_IN_FACTORY = Some (env_block dat)"
    using assms(1,3,4) w(5) by auto
  ultimately show ?thesis
    using fac v(2) w(4) env_restored [of _ _ cfg fac dev denv new] by fastforce
qed

text \<open>The sample store with an environment saved once.\<close>

lemma nas_saved_once:
  assumes "length (env_block data) = CONFIG_ENV_SIZE" and "length (env_block data') = CONFIG_ENV_SIZE"
  shows "\<exists>es fac. env_storable nas_cfg nas_dev es 1 (tar_rewrite ENV_FILENAME_IN_FACTORY (env_block data) (of_nat CONFIG_ENV_SIZE) True True False root_es, 1) data' fac"
proof -
  let ?n = "of_nat CONFIG_ENV_SIZE :: u32"
  let ?es = "tar_rewrite ENV_FILENAME_IN_FACTORY (env_block data) ?n True True False root_es"
  let ?hr = "tar_build_header (replicate 512 0) FACTORY_HEADER_FILE_NAME 0 53"
  let ?he = "tar_build_header (replicate 512 0) ENV_FILENAME_IN_FACTORY ?n 48"
  note b = nas_storable [OF assms(1)]
  have bl: "blocks CONFIG_ENV_SIZE = CONFIG_ENV_SIZE" by (simp add: blocks_def CONFIG_ENV_SIZE_def)
  have nl: "length (cstr ENV_FILENAME_IN_FACTORY) < 100" "length (cstr FACTORY_HEADER_FILE_NAME) < 100"
    using tar_name_length [OF env_filename(1)] tar_name_length [OF factory_header_name(2)] by simp_all
  have cr: "cstr ?hr = FACTORY_HEADER_FILE_NAME" "cstr ?he = cstr ENV_FILENAME_IN_FACTORY"
    using nl factory_header_name(1) by (simp_all add: cstr_build_header)
  have nm: "\<not> name_match ENV_FILENAME_IN_FACTORY ?hr" "name_match ENV_FILENAME_IN_FACTORY ?he"
    using env_filename(2) cr factory_header_name(1) by (simp_all add: name_match_def)
  have l: "length ?hr = 512" "length ?he = 512" using nl by simp_all
  have es: "?es = [(?hr, []), (?he, new_body (env_block data) ?n)]" using nm by (simp add: root_es_def)
  have nb: "length (new_body (env_block x) ?n) = CONFIG_ENV_SIZE" if "length (env_block x) = CONFIG_ENV_SIZE" for x
    using that by (simp add: env_size_u32 bl)
  have la: "length (archive ?es) = 1024 + CONFIG_ENV_SIZE" using es l nb [OF assms(1)] by simp
  have syn: "factory_synced nas_cfg nas_dev root_es 0 (root_es, 0) (nas_state 0)" by (rule nas_synced)
  obtain fac1 where f1: "factory_dirty fac1" "factory_synced nas_cfg nas_dev ?es 0 (root_es, 0) fac1"
    using factory_write_synced [OF syn env_filename, of ?n "env_block data"] assms(1) root_es_ok(3) nas_cfg_ok(2)
    unfolding env_size_u32 bl by (auto simp: CONFIG_ENV_SIZE_def TAR_PADDING_SZ_def)
  obtain fac2 where f2: "factory_synced nas_cfg nas_dev (stamped (?es, 1)) 1 (?es, 1) fac2"
    using factory_save_synced [OF f1(2,1) _ nas_prog] la nas_cfg_ok(2) by (auto simp: CONFIG_ENV_SIZE_def TAR_PADDING_SZ_def)
  define hs where "hs = fill_rtk_header (of_nat (length (archive ?es))) 1 ?hr"
  have st: "stamped (?es, 1) = [(hs, []), (?he, new_body (env_block data) ?n)]" unfolding es hs_def by simp
  have root: "factory_root (stamped (?es, 1))" and okk: "\<forall>e \<in> set (stamped (?es, 1)). entry_ok e"
    using f2 by (auto simp: factory_synced_def factory_inv_def tar_area_def)
  have hs: "cstr hs = FACTORY_HEADER_FILE_NAME" "length hs = 512"
    using root okk entry_ok_length [of hs "[]"] unfolding st by (auto simp: factory_root_def entry_name_def)
  have nmh: "\<not> name_match ENV_FILENAME_IN_FACTORY hs" using env_filename(2) hs(1) factory_header_name(1) by (simp add: name_match_def)
  have "rd (replicate 512 0) 508 = (0 :: byte)" by (simp add: rd_def)
  then have "rd ?he 508 = 0" using nl by (simp add: tar_build_header_keeps)
  then have "?he ! 508 = 0" using l(2) by (simp add: rd_def)
  then have uns: "\<not> rtk_signed ?he" using l(2)
    by (auto simp: rtk_signed_def hdr_signature_def RTK_bytes dest!: arg_cong [of _ _ hd] simp flip: Cons_nth_drop_Suc)
  have "length (archive (tar_rewrite ENV_FILENAME_IN_FACTORY (env_block data') ?n True True False (stamped (?es, 1)))) = 1024 + CONFIG_ENV_SIZE"
    unfolding st using nmh nm(2) hs(2) l(2) nl nb [OF assms(2)] by simp
  moreover have "length (archive (stamped (?es, 1))) = 1024 + CONFIG_ENV_SIZE"
    unfolding st using hs(2) l(2) nb [OF assms(1)] by simp
  ultimately have "env_storable nas_cfg nas_dev (stamped (?es, 1)) 1 (?es, 1) data' fac2"
    using f2 uns nas_prog nas_cfg_ok(2) st by (simp add: env_storable_def CONFIG_ENV_SIZE_def TAR_PADDING_SZ_def)
  then show ?thesis by blast
qed

theorem saveenv_power_loss_witness:
  "\<exists>fac0 boot st1 fac st2. saveenv nas_cfg nas_dev ((nas_env slash_htab)\<lparr>env_fac := fac0\<rparr>) = Some (0, st1)
    \<and> factory_init nas_cfg nas_dev [] [] boot = Some (0, fac)
    \<and> env_relocate (\<lambda>_. True) nas_cfg nas_dev [0] (snd (env_init [0] ((nas_env worn_htab)\<lparr>env_fac := fac\<rparr>))) = Some st2
    \<and> ((\<forall>name. 0 \<notin> set name \<longrightarrow> getenv [0] name st2 = Some (htab_map worn_htab name))
       \<or> (\<forall>name. 0 \<notin> set name \<longrightarrow> getenv [0] name st2 = Some (htab_map (env_htab ((nas_env slash_htab)\<lparr>env_fac := fac0\<rparr>)) name)))"
proof -
  obtain d0 d1 where d: "env_savable worn_htab d0" "env_savable slash_htab d1" using sample_savable by blast
  note l = env_savable_length(2) [OF d(1)] env_savable_length(2) [OF d(2)]
  let ?es = "tar_rewrite ENV_FILENAME_IN_FACTORY (env_block d0) (of_nat CONFIG_ENV_SIZE) True True False root_es"
  obtain es fac0 where sto: "env_storable nas_cfg nas_dev es 1 (?es, 1) d1 fac0" using nas_saved_once [OF l] by blast
  let ?st = "(nas_env slash_htab)\<lparr>env_fac := fac0\<rparr>"
  let ?boot = "fac0\<lparr>factory_mem := replicate 0x20000 7\<rparr>"
  have look: "tar_lookup ENV_FILENAME_IN_FACTORY (fst (?es, 1 :: u32)) = Some (env_block d0)"
    using lookup_after_add [OF root_es_ok(1) env_filename(1), of "of_nat CONFIG_ENV_SIZE" "env_block d0"] l(1)
    unfolding env_size_u32 by simp
  have "(\<exists>st1 x. saveenv nas_cfg nas_dev ?st = Some (0, st1)
      \<and> save_reaches nas_cfg nas_dev
          (tar_rewrite ENV_FILENAME_IN_FACTORY (env_block d1) (of_nat CONFIG_ENV_SIZE) True True False es, snd (?es, 1 :: u32) + 1)
          (1 - 1) (factory_flash (env_fac ?st)) (Programming x [], factory_flash (env_fac st1)))
    \<and> (\<exists>fac st2. factory_init nas_cfg nas_dev [] [] ?boot = Some (0, fac)
    \<and> env_relocate (\<lambda>_. True) nas_cfg nas_dev [0] (snd (env_init [0] ((nas_env worn_htab)\<lparr>env_fac := fac\<rparr>))) = Some st2
    \<and> ((\<forall>name. 0 \<notin> set name \<longrightarrow> getenv [0] name st2 = Some (htab_map worn_htab name))
       \<or> (\<forall>name. 0 \<notin> set name \<longrightarrow> getenv [0] name st2 = Some (htab_map (env_htab ?st) name))))"
    by (rule saveenv_power_loss [OF _ _ d(1) look, where data = d1 and es = es and p = 1 and ph = "Erasing (spi_slot_addr nas_cfg 0)"])
      (use d(2) sto in \<open>simp_all add: nas_env_def nas_cfg_def save_reaches_def Let_def\<close>)
  then show ?thesis by blast
qed

section \<open>Setting and reading\<close>

lemma join_single: "join_args [v] = v"
  by (simp add: join_args_def)

lemma env_follow_simps [simp]:
  "env_htab (env_follow name v st) = env_htab st" "env_ready (env_follow name v st) = env_ready st"
  "env_valid (env_follow name v st) = env_valid st" "env_area (env_follow name v st) = env_area st"
  by (simp_all add: env_follow_def)

text \<open>An ordinary name: no \<open>=\<close>, not one of the streams, not the baud rate.\<close>

definition plain_name :: "byte list \<Rightarrow> bool" where
  "plain_name name \<longleftrightarrow> 0 \<notin> set name \<and> 61 \<notin> set name \<and> console_of name = None \<and> name \<noteq> bytes_of ''baudrate''"

lemma hfind_result:
  assumes "htab_ok htab" and "0 \<notin> set key"
  shows "\<exists>r. hsearch_r mem key data FIND htab = Some (r, htab)"
  using hfind [OF assms, of mem data] by (auto split: option.splits)

lemma set_core:
  assumes ok: "htab_ok (env_htab st)" and name: "plain_name name"
  shows "do_env_set_impl mem assign 2 [Some c, Some name, vv, None] st = do {
      (rc, h) \<leftarrow> hdelete_r name (env_htab st);
      Some (if rc = 0 then 1 else 0, st\<lparr>env_id := env_id st + 1, env_htab := h\<rparr>) }"
    and "mem (length v + 1) \<Longrightarrow> do_env_set_impl mem assign 3 [Some c, Some name, Some v, None] st = do {
      (r, h) \<leftarrow> hsearch_r mem name (Some v) ENTER (env_htab st);
      (case r of
         Herror _ \<Rightarrow> Some (1, st\<lparr>env_id := env_id st + 1, env_htab := h\<rparr>)
       | Hfound _ _ \<Rightarrow> Some (0, env_follow name v (st\<lparr>env_id := env_id st + 1, env_htab := h\<rparr>))) }"
proof -
  obtain r where r: "hsearch_r mem name None FIND (env_htab st) = Some (r, env_htab st)"
    using hfind_result [OF ok, of name mem None] name by (auto simp: plain_name_def)
  have n: "61 \<notin> set name" "console_of name = None" "name \<noteq> bytes_of ''baudrate''" using name by (simp_all add: plain_name_def)
  show "do_env_set_impl mem assign 2 [Some c, Some name, vv, None] st = do {
      (rc, h) \<leftarrow> hdelete_r name (env_htab st);
      Some (if rc = 0 then 1 else 0, st\<lparr>env_id := env_id st + 1, env_htab := h\<rparr>) }"
    using n r by (cases r) (simp_all add: do_env_set_impl_def argv_at_def set_baudrate_def Let_def)
  assume m: "mem (length v + 1)"
  have a: "those (map (argv_at [Some c, Some name, Some v, None]) [2..<3]) = Some [v]"
    by (simp add: argv_at_def upt_rec)
  have a12: "argv_at [Some c, Some name, Some v, None] 1 = Some name" "argv_at [Some c, Some name, Some v, None] 2 = Some v"
    by (simp_all add: argv_at_def)
  show "do_env_set_impl mem assign 3 [Some c, Some name, Some v, None] st = do {
      (r, h) \<leftarrow> hsearch_r mem name (Some v) ENTER (env_htab st);
      (case r of
         Herror _ \<Rightarrow> Some (1, st\<lparr>env_id := env_id st + 1, env_htab := h\<rparr>)
       | Hfound _ _ \<Rightarrow> Some (0, env_follow name v (st\<lparr>env_id := env_id st + 1, env_htab := h\<rparr>))) }"
    using n r a a12 m by (cases r) (simp_all add: do_env_set_impl_def set_baudrate_def Let_def join_single cong: hresult.case_cong)
qed

text \<open>C19. \<^verbatim>\<open>setenv\<close> and \<^verbatim>\<open>getenv\<close>: once the environment is loaded and while the table has a free slot, setting an
  ordinary variable to a value makes \<^verbatim>\<open>getenv\<close> return that value, setting it to nothing or to the empty
  string removes it (the result tells whether it was there), and no other variable changes.\<close>

theorem setenv_getenv:
  assumes "env_ready st" and "htab_ok (env_htab st)" and "has_free (env_htab st)" and "plain_name name"
    and "\<And>v. vv = Some v \<Longrightarrow> 0 \<notin> set v"
  shows "\<exists>rc st'. setenv (\<lambda>_. True) assign name vv st = Some (rc, st') \<and> htab_ok (env_htab st')
    \<and> getenv denv name st' = Some (if vv = Some [] then None else vv)
    \<and> (\<forall>n. 0 \<notin> set n \<and> n \<noteq> name \<longrightarrow> getenv denv n st' = getenv denv n st)
    \<and> (rc = 0 \<longleftrightarrow> vv \<noteq> None \<and> vv \<noteq> Some [] \<or> getenv denv name st \<noteq> Some None)"
proof -
  let ?h = "env_htab st"
  have n0: "0 \<notin> set name" using assms(4) by (simp add: plain_name_def)
  have g: "getenv denv n st = Some (htab_map ?h n)" if "0 \<notin> set n" for n
    using getenv_ready [OF assms(1,2) that] by simp
  show ?thesis
  proof (cases "vv = None \<or> vv = Some []")
    case True
    obtain rc h where d: "hdelete_r name ?h = Some (rc, h)" "htab_ok h" "htab_map h = (htab_map ?h)(name := None)"
      "rc = (if htab_map ?h name = None then 0 else 1)"
      using hdelete [OF assms(2) n0] by blast
    let ?st = "st\<lparr>env_id := env_id st + 1, env_htab := h\<rparr>"
    have "setenv (\<lambda>_. True) assign name vv st = Some (if rc = 0 then 1 else 0, ?st)"
      using True d(1) set_core(1) [OF assms(2,4)] by (auto simp: setenv_def)
    moreover have "getenv denv n ?st = Some (((htab_map ?h)(name := None)) n)" if "0 \<notin> set n" for n
      using getenv_ready [of ?st n denv] assms(1) d(2,3) that by simp
    ultimately show ?thesis using True d g n0 by (intro exI [of _ "if rc = 0 then 1 else 0"] exI [of _ ?st]) auto
  next
    case False
    then obtain v where v: "vv = Some v" "v \<noteq> []" by auto
    obtain r i h where e: "hsearch_r (\<lambda>_. True) name (Some v) ENTER ?h = Some (Hfound r i, h)" "htab_ok h"
      "htab_map h = (htab_map ?h)(name \<mapsto> v)"
      using henter [OF assms(2,3) _ n0 assms(5) [OF v(1)], of "\<lambda>_. True"] by auto
    let ?st = "env_follow name v (st\<lparr>env_id := env_id st + 1, env_htab := h\<rparr>)"
    have "setenv (\<lambda>_. True) assign name vv st = Some (0, ?st)"
      using v e(1) set_core(2) [OF assms(2,4), of "\<lambda>_. True" v] by (simp add: setenv_def)
    moreover have "getenv denv n ?st = Some (((htab_map ?h)(name \<mapsto> v)) n)" if "0 \<notin> set n" for n
      using getenv_ready [of ?st n denv] assms(1) e(2,3) that by simp
    ultimately show ?thesis using v e(2) g n0 by (intro exI [of _ 0] exI [of _ ?st]) auto
  qed
qed

lemma setenv_getenv_witness:
  "\<exists>st'. setenv (\<lambda>_. True) (\<lambda>_ _. 0) [97, 98] (Some [49, 50]) (nas_env slash_htab) = Some (0, st')
    \<and> getenv [0] [97, 98] st' = Some (Some [49, 50])
    \<and> (\<forall>n. 0 \<notin> set n \<and> n \<noteq> [97, 98] \<longrightarrow> getenv [0] n st' = getenv [0] n (nas_env slash_htab))"
proof -
  have "0 < free_slots slash_htab" by (simp add: free_slots_def slash_htab_def slash_tab_def fresh_slot_def)
  then have "has_free (env_htab (nas_env slash_htab))" using has_free_slots [OF slash_ok] by (simp add: nas_env_def)
  moreover have "plain_name [97, 98]" by (simp add: plain_name_def console_of_def bytes_of_def)
  ultimately show ?thesis
    using setenv_getenv [of "nas_env slash_htab" "[97, 98]" "Some [49, 50]" "\<lambda>_ _. 0" "[0]"] slash_ok
    by (auto simp: nas_env_def)
qed

subsection \<open>Numbers\<close>

lemma decimal_char:
  assumes "d < 10"
  shows "digit_char False d = 48 + ucast (of_nat d :: u32)"
proof -
  have "d = 0 \<or> d = 1 \<or> d = 2 \<or> d = 3 \<or> d = 4 \<or> d = 5 \<or> d = 6 \<or> d = 7 \<or> d = 8 \<or> d = 9" using assms by auto
  then show ?thesis by (elim disjE) (simp_all add: digit_char_def bytes_of_def)
qed

lemma simple_itoa_digits:
  "\<exists>ds. simple_itoa v = map (digit_char False) ds \<and> (\<forall>d \<in> set ds. d < 10) \<and> ds \<noteq> [] \<and> digits_value 10 ds = unat v"
proof (induction v rule: simple_itoa.induct)
  case (1 i)
  have l: "unat (i mod 10) < 10" by (simp add: unat_mod)
  have m: "48 + ucast (i mod 10) = digit_char False (unat (i mod 10))"
    using decimal_char [OF l] by simp
  show ?case
  proof (cases "i div 10 > 0")
    case True
    then obtain ds where ds: "simple_itoa (i div 10) = map (digit_char False) ds" "\<forall>d \<in> set ds. d < 10" "digits_value 10 ds = unat (i div 10)"
      using 1 by blast
    have "simple_itoa i = map (digit_char False) (ds @ [unat (i mod 10)])"
      using True ds(1) m by (subst simple_itoa.simps) simp
    moreover have "digits_value 10 (ds @ [unat (i mod 10)]) = unat i"
      using ds(3) by (simp add: digits_value_snoc unat_div unat_mod)
    ultimately show ?thesis using ds(2) l by (intro exI [of _ "ds @ [unat (i mod 10)]"]) simp
  next
    case False
    then have "i div 10 = 0" by (simp add: word_gt_0)
    then have "unat (i div 10) = 0" by simp
    then have "unat i < 10" by (simp add: unat_div)
    then have "digits_value 10 [unat (i mod 10)] = unat i" by (simp add: digits_value_def unat_mod)
    moreover have "simple_itoa i = map (digit_char False) [unat (i mod 10)]"
      using False m by (subst simple_itoa.simps) simp
    ultimately show ?thesis using l by (intro exI [of _ "[unat (i mod 10)]"]) simp
  qed
qed

lemma simple_itoa_strtoul: "simple_strtoul (simple_itoa v @ 0 # t) 10 = v"
proof -
  obtain ds where "simple_itoa v = map (digit_char False) ds" "\<forall>d \<in> set ds. d < 10" "ds \<noteq> []" "digits_value 10 ds = unat v"
    using simple_itoa_digits by blast
  then show ?thesis using simple_strtoul_digits [of ds 10 False t] by simp
qed

lemma simple_itoa_string: "simple_itoa v \<noteq> [] \<and> 0 \<notin> set (simple_itoa v)"
proof -
  obtain ds where ds: "simple_itoa v = map (digit_char False) ds" "\<forall>d \<in> set ds. d < 10" "ds \<noteq> []"
    using simple_itoa_digits by blast
  have "digit_char False d \<noteq> 0" if "d < 10" for d
  proof -
    have "d = 0 \<or> d = 1 \<or> d = 2 \<or> d = 3 \<or> d = 4 \<or> d = 5 \<or> d = 6 \<or> d = 7 \<or> d = 8 \<or> d = 9" using that by auto
    then show ?thesis by (elim disjE) (simp_all add: digit_char_def bytes_of_def)
  qed
  then show ?thesis using ds by auto
qed

lemma setenv_ulong_getenv:
  assumes "env_ready st" and "htab_ok (env_htab st)" and "has_free (env_htab st)" and "plain_name name"
  shows "\<exists>st'. setenv_ulong (\<lambda>_. True) assign name v st = Some (0, st') \<and> getenv_ulong denv name 10 w st' = Some v"
proof -
  have n0: "0 \<notin> set name" using assms(4) by (simp add: plain_name_def)
  note v = simple_itoa_string [of v]
  obtain r i h where e: "hsearch_r (\<lambda>_. True) name (Some (simple_itoa v)) ENTER (env_htab st) = Some (Hfound r i, h)" "htab_ok h"
    "htab_map h = (htab_map (env_htab st))(name \<mapsto> simple_itoa v)"
    using henter [OF assms(2,3) _ n0, of "\<lambda>_. True" "simple_itoa v"] v by auto
  let ?st = "env_follow name (simple_itoa v) (st\<lparr>env_id := env_id st + 1, env_htab := h\<rparr>)"
  have "setenv_ulong (\<lambda>_. True) assign name v st = Some (0, ?st)"
    using v e(1) set_core(2) [OF assms(2,4), of "\<lambda>_. True" "simple_itoa v"] by (simp add: setenv_ulong_def setenv_def)
  moreover have "getenv denv name ?st = Some (Some (simple_itoa v))"
    using getenv_ready [of ?st name denv] assms(1) e(2,3) n0 by simp
  ultimately show ?thesis by (simp add: getenv_ulong_def simple_itoa_strtoul)
qed

section \<open>A damaged environment\<close>

text \<open>C20. A stored environment with a damaged byte is never used. Change any one byte of the stored block,
  in the checksum or in the data: \<^verbatim>\<open>env_import\<close> finds the checksum wrong, loads the default environment in
  place of the stored one, and returns 0.\<close>

theorem env_import_damaged:
  assumes "length data = ENV_SIZE" and "i < CONFIG_ENV_SIZE" and "x \<noteq> env_block data ! i"
    and "take CONFIG_ENV_SIZE buf = (env_block data)[i := x]"
  shows "env_import mem denv a buf True st = do { st' \<leftarrow> set_default_env mem denv st; Some (0, st') }"
proof -
  let ?c = "crc32 (TEMP_BUFFER_FOR_FLASH_DATA_ADDR + 4) 0 data ENV_SIZE"
  have lb: "length (env_block data) = CONFIG_ENV_SIZE"
    by (simp add: env_block_def assms(1) ENV_SIZE_def CONFIG_ENV_SIZE_def ENV_HEADER_SIZE_def)
  have len: "CONFIG_ENV_SIZE \<le> length buf"
    using arg_cong [OF assms(4), of length] lb by (simp add: min_def split: if_splits)
  define r where "r = drop CONFIG_ENV_SIZE buf"
  have b: "buf = (env_block data)[i := x] @ r" using assms(4) append_take_drop_id [of CONFIG_ENV_SIZE buf] by (simp add: r_def)
  have e: "crc32 (a + 4) 0 (d @ r) ENV_SIZE = crc32 c 0 d ENV_SIZE" if "length d = ENV_SIZE" for d c
    using that by (simp add: crc32_def crc32_no_comp_eq)
  have "crc32 (a + 4) 0 (drop ENV_HEADER_SIZE buf) ENV_SIZE \<noteq> rd32 buf 0"
  proof (cases "i < 4")
    case True
    then have "buf = (le32 ?c)[i := x] @ data @ r" by (simp add: b env_block_def list_update_append)
    moreover have "rd32 ((le32 ?c)[i := x] @ data @ r) 0 \<noteq> ?c"
    proof
      assume "rd32 ((le32 ?c)[i := x] @ data @ r) 0 = ?c"
      then have "le32 ?c = (le32 ?c)[i := x]"
        using rd32_le32_take [of 0 "(le32 ?c)[i := x] @ data @ r"] by simp
      then have "le32 ?c ! i = x" using True by (metis length_le32 nth_list_update_eq)
      then show False using assms(3) True by (simp add: env_block_def nth_append)
    qed
    ultimately show ?thesis using e [OF assms(1)] by (simp add: ENV_HEADER_SIZE_def)
  next
    case False
    then have u: "buf = le32 ?c @ data[i - 4 := x] @ r" by (simp add: b env_block_def list_update_append)
    have "i - 4 < length data" using False assms(1,2) by (simp add: ENV_SIZE_def ENV_HEADER_SIZE_def)
    moreover have "x \<noteq> data ! (i - 4)" using assms(3) False by (simp add: env_block_def nth_append)
    ultimately have "crc32 (a + 4) 0 (data[i - 4 := x]) (length data) \<noteq> crc32 (TEMP_BUFFER_FOR_FLASH_DATA_ADDR + 4) 0 data (length data)"
      by (rule crc32_differs)
    then show ?thesis
      using e [of "data[i - 4 := x]" "a + 4"] assms(1) by (simp add: u ENV_HEADER_SIZE_def rd32_le32_append)
  qed
  then show ?thesis using len by (simp add: env_import_def)
qed

lemma env_import_damaged_witness:
  "env_import (\<lambda>_. True) [0] 0x07000200 ((env_block (replicate ENV_SIZE 0))[10 := 1]) True (nas_env slash_htab) =
    do { st' \<leftarrow> set_default_env (\<lambda>_. True) [0] (nas_env slash_htab); Some (0, st') }"
proof (rule env_import_damaged)
  have l: "length (env_block (replicate ENV_SIZE 0)) = CONFIG_ENV_SIZE"
    by (simp add: env_block_def ENV_SIZE_def CONFIG_ENV_SIZE_def ENV_HEADER_SIZE_def)
  show "take CONFIG_ENV_SIZE ((env_block (replicate ENV_SIZE 0))[10 := 1]) = (env_block (replicate ENV_SIZE 0))[10 := 1]"
    using l by simp
  show "(1 :: byte) \<noteq> env_block (replicate ENV_SIZE 0) ! 10"
    by (simp add: env_block_def nth_append ENV_SIZE_def CONFIG_ENV_SIZE_def ENV_HEADER_SIZE_def)
qed (simp_all add: CONFIG_ENV_SIZE_def)

section \<open>Reading before the table exists\<close>

definition mem_at :: "byte list \<Rightarrow> nat \<Rightarrow> byte option" where
  "mem_at m i = (if i < length m then Some (m ! i) else None)"

lemma env_get_char_mem: "env_get_char denv st = mem_at (if env_valid st then env_area st else denv)"
  by (simp add: env_get_char_def mem_at_def Let_def fun_eq_iff)

lemma mem_at_append [simp]: "mem_at (pre @ c # r) (length pre) = Some c"
  by (simp add: mem_at_def)

lemma env_entry_end_text:
  "0 \<notin> set s \<Longrightarrow> length pre + length s \<le> CONFIG_ENV_SIZE \<Longrightarrow>
     env_entry_end (mem_at (pre @ s @ 0 # r)) (length pre) = Some (Some (length pre + length s))"
proof (induction s arbitrary: pre)
  case Nil
  then show ?case by (subst env_entry_end.simps) simp
next
  case (Cons c s)
  have "env_entry_end (mem_at ((pre @ [c]) @ s @ 0 # r)) (length (pre @ [c])) = Some (Some (length (pre @ [c]) + length s))"
    using Cons.prems by (intro Cons.IH) simp_all
  then show ?case using Cons.prems by (subst env_entry_end.simps) simp
qed

lemma envmatch_text:
  "0 \<notin> set name \<Longrightarrow> 61 \<notin> set name \<Longrightarrow> 0 \<notin> set k \<Longrightarrow> 61 \<notin> set k \<Longrightarrow>
     envmatch (mem_at (pre @ k @ 61 # r)) (name @ [0]) (length pre) =
     Some (if name = k then Some (length pre + length k + 1) else None)"
proof (induction name arbitrary: pre k)
  case Nil
  then show ?case by (cases k) auto
next
  case (Cons c name)
  show ?case
  proof (cases k)
    case Nil
    then show ?thesis using Cons.prems by simp
  next
    case (Cons e k')
    have "envmatch (mem_at ((pre @ [e]) @ k' @ 61 # r)) (name @ [0]) (length (pre @ [e])) =
        Some (if name = k' then Some (length (pre @ [e]) + length k' + 1) else None)"
      using Cons.prems Cons by (intro Cons.IH) auto
    then show ?thesis using Cons Cons.prems by auto
  qed
qed

lemma env_copy_out_text:
  "0 \<notin> set d \<Longrightarrow> env_copy_out (mem_at (pre @ d @ 0 # r)) (length pre) len =
     Some (if length d < len then (d, True) else (take len d, False))"
proof (induction len arbitrary: pre d)
  case (Suc len)
  show ?case
  proof (cases d)
    case (Cons c d')
    have "env_copy_out (mem_at ((pre @ [c]) @ d' @ 0 # r)) (length (pre @ [c])) len =
        Some (if length d' < len then (d', True) else (take len d', False))"
      using Suc.prems Cons by (intro Suc.IH) auto
    then show ?thesis using Cons Suc.prems by auto
  qed simp
qed simp

text \<open>A value without backslashes is stored as it is.\<close>

lemma escape_plain: "0 \<notin> set d \<Longrightarrow> 92 \<notin> set d \<Longrightarrow> escape 0 d = d"
  by (induction d) (auto simp: escape_def needs_escape_def)

lemma getenv_f_text:
  assumes name: "0 \<notin> set name" "61 \<notin> set name"
  shows "\<forall>(k, d) \<in> set es. 0 \<notin> set k \<and> 61 \<notin> set k \<and> 0 \<notin> set d \<and> 92 \<notin> set d \<Longrightarrow>
    length pre + length (concat (map (export_text 0) es)) \<le> CONFIG_ENV_SIZE \<Longrightarrow>
    getenv_f_loop (mem_at (pre @ concat (map (export_text 0) es) @ 0 # r)) name len (length pre) =
    Some (case map_of es name of
       None \<Rightarrow> (- 1, [])
     | Some d \<Rightarrow> if length d < len then (int (length d), d) else (int len, take (len - 1) d))"
proof (induction es arbitrary: pre)
  case Nil
  then show ?case by (subst getenv_f_loop.simps) simp
next
  case (Cons e es)
  obtain k d where e: "e = (k, d)" by (cases e)
  have kd: "0 \<notin> set k" "61 \<notin> set k" "0 \<notin> set d" "92 \<notin> set d" using Cons.prems(1) e by auto
  let ?rest = "concat (map (export_text 0) es) @ 0 # r"
  let ?s = "k @ 61 # d"
  have t: "export_text 0 e = ?s @ [0]" using kd e by (simp add: export_text_def escape_plain)
  have m: "pre @ concat (map (export_text 0) (e # es)) @ 0 # r = pre @ ?s @ 0 # ?rest" using t by simp
  have nx: "env_entry_end (mem_at (pre @ ?s @ 0 # ?rest)) (length pre) = Some (Some (length pre + length ?s))"
    using kd Cons.prems(2) t by (intro env_entry_end_text) auto
  have em: "envmatch (mem_at (pre @ ?s @ 0 # ?rest)) (name @ [0]) (length pre) =
      Some (if name = k then Some (length pre + length k + 1) else None)"
    using envmatch_text [OF name kd(1,2), of pre "d @ 0 # ?rest"] by simp
  have rd: "\<exists>c. mem_at (pre @ ?s @ 0 # ?rest) (length pre) = Some c \<and> c \<noteq> 0"
    using kd by (cases k) auto
  show ?case
  proof (cases "name = k")
    case True
    have co: "env_copy_out (mem_at (pre @ ?s @ 0 # ?rest)) (length pre + length k + 1) len =
        Some (if length d < len then (d, True) else (take len d, False))"
      using env_copy_out_text [OF kd(3), of "pre @ k @ [61]" ?rest len] by simp
    have bl: "butlast (take len d) = take (len - 1) d" if "\<not> length d < len"
      using that by (simp add: butlast_take)
    show ?thesis unfolding m using nx em rd co bl True e by (subst getenv_f_loop.simps) auto
  next
    case False
    have "getenv_f_loop (mem_at ((pre @ ?s @ [0]) @ ?rest)) name len (length (pre @ ?s @ [0])) =
        Some (case map_of es name of
           None \<Rightarrow> (- 1, [])
         | Some d \<Rightarrow> if length d < len then (int (length d), d) else (int len, take (len - 1) d))"
      using Cons.prems t by (intro Cons.IH) auto
    then show ?thesis unfolding m using nx em rd False e by (subst getenv_f_loop.simps) auto
  qed
qed

text \<open>C21. Reading a variable before and after the default environment is imported: for a
  default environment that fits, with distinct names and with values that are not empty and hold no backslash, the
  search in the table returns the value of every name, and the scan of the text before it returns the same value, cut
  after the 31 bytes that \<^verbatim>\<open>gd->env_buf\<close> has room for. Neither finds a name that is not in the text.\<close>

theorem getenv_before_after:
  assumes "denv = concat (map (export_text 0) es) @ replicate (Suc pad) 0" and "length denv \<le> ENV_SIZE"
    and "distinct (map fst es)" and "length es \<le> himport_entries (length denv)"
    and "\<forall>(k, d) \<in> set es. name_ok 0 k \<and> d \<noteq> [] \<and> 0 \<notin> set d \<and> 92 \<notin> set d"
    and "\<not> env_ready st" and "st = snd (env_init denv st0)"
  shows "\<exists>st'. set_default_env (\<lambda>_. True) denv st = Some st' \<and> env_ready st'
    \<and> (\<forall>name. 0 \<notin> set name \<and> 61 \<notin> set name \<longrightarrow>
         getenv denv name st = Some (map_option (take 31) (map_of es name))
         \<and> getenv denv name st' = Some (map_of es name))"
proof -
  have e1: "\<forall>(k, d) \<in> set es. name_ok 0 k \<and> d \<noteq> [] \<and> 0 \<notin> set d" using assms(5) by auto
  have e2: "\<forall>(k, d) \<in> set es. 0 \<notin> set k \<and> 61 \<notin> set k \<and> 0 \<notin> set d \<and> 92 \<notin> set d"
    using assms(5) by (auto simp: name_ok_def)
  have "length denv = length (concat (map (export_text 0) es)) + Suc pad" using assms(1) by simp
  from himport_text [OF _ e1 assms(4) this, of "env_htab st"] obtain h where
    h: "himport_r (\<lambda>_. True) (env_htab st) denv (length denv) 0 False = Some (1, h)" "htab_ok h" "htab_map h = map_of (rev es)"
    using assms(1) by (auto simp: sep_ok_def)
  let ?st = "st\<lparr>env_htab := h, env_ready := True\<rparr>"
  have sd: "set_default_env (\<lambda>_. True) denv st = Some ?st" using assms(2) h(1) by (simp add: set_default_env_def)
  have "getenv denv name st = Some (map_option (take 31) (map_of es name)) \<and> getenv denv name ?st = Some (map_of es name)"
    if n: "0 \<notin> set name" "61 \<notin> set name" for name
  proof
    have g: "env_get_char denv st = mem_at ([] @ concat (map (export_text 0) es) @ 0 # replicate pad 0)"
      using assms(1,7) by (simp add: env_get_char_mem env_init_def)
    have sz: "length ([] :: byte list) + length (concat (map (export_text 0) es)) \<le> CONFIG_ENV_SIZE"
      using assms(1,2) by (simp add: ENV_SIZE_def)
    have "getenv_f denv st name 32 = Some (case map_of es name of
       None \<Rightarrow> (- 1, [])
     | Some d \<Rightarrow> if length d < 32 then (int (length d), d) else (int 32, take (32 - 1) d))"
      unfolding getenv_f_def g using getenv_f_text [OF n e2 sz, of "replicate pad 0" 32] by simp
    moreover have "d \<noteq> []" if "map_of es name = Some d" for d
      using assms(5) map_of_SomeD [OF that] by auto
    ultimately show "getenv denv name st = Some (map_option (take 31) (map_of es name))"
      using assms(6) by (auto simp: getenv_def split: option.splits)
    have "map_of es name = htab_map h name" using h(3) map_of_rev_distinct [OF assms(3)] by simp
    then show "getenv denv name ?st = Some (map_of es name)"
      using getenv_ready [of ?st name denv] h(2) n by simp
  qed
  then show ?thesis using sd by (intro exI [of _ ?st]) simp
qed

text \<open>Variables of the default environment of the boards, among them one that is longer than the buffer.\<close>

definition nas_defaults :: "env_entry list" where
  "nas_defaults = map (\<lambda>(k, d). (bytes_of k, bytes_of d))
     [(''bootargs'', ''console=ttyS0,115200 earlyprintk loglevel=4''), (''bootcmd'', ''bootr''), (''bootdelay'', ''0''),
      (''baudrate'', ''115200''), (''mtd_part'', ''mtdparts=rtk_nand:'')]"

definition nas_denv :: "byte list" where
  "nas_denv = concat (map (export_text 0) nas_defaults) @ [0, 0]"

lemma nas_denv_size: "length nas_denv = 125" "length nas_defaults = 5"
  by (simp_all add: nas_denv_def nas_defaults_def export_text_def escape_def needs_escape_def bytes_of_def)

lemma getenv_before_after_witness:
  "\<exists>st'. set_default_env (\<lambda>_. True) nas_denv (snd (env_init nas_denv ((nas_env slash_htab)\<lparr>env_ready := False\<rparr>))) = Some st'
    \<and> env_ready st'
    \<and> getenv nas_denv (bytes_of ''bootargs'') (snd (env_init nas_denv ((nas_env slash_htab)\<lparr>env_ready := False\<rparr>)))
        = Some (Some (bytes_of ''console=ttyS0,115200 earlyprint''))
    \<and> getenv nas_denv (bytes_of ''bootargs'') st' = Some (Some (bytes_of ''console=ttyS0,115200 earlyprintk loglevel=4''))"
proof -
  let ?st = "snd (env_init nas_denv ((nas_env slash_htab)\<lparr>env_ready := False\<rparr>))"
  have "\<exists>st'. set_default_env (\<lambda>_. True) nas_denv ?st = Some st' \<and> env_ready st'
    \<and> (\<forall>name. 0 \<notin> set name \<and> 61 \<notin> set name \<longrightarrow>
         getenv nas_denv name ?st = Some (map_option (take 31) (map_of nas_defaults name))
         \<and> getenv nas_denv name st' = Some (map_of nas_defaults name))"
  proof (rule getenv_before_after [OF _ _ _ _ _ _ refl])
    show "nas_denv = concat (map (export_text 0) nas_defaults) @ replicate (Suc 1) 0"
      by (simp add: nas_denv_def)
    show "\<forall>(k, d) \<in> set nas_defaults. name_ok 0 k \<and> d \<noteq> [] \<and> 0 \<notin> set d \<and> 92 \<notin> set d"
      by (simp add: nas_defaults_def name_ok_def isblank_def bytes_of_def)
    show "distinct (map fst nas_defaults)"
      by (simp add: nas_defaults_def bytes_of_def)
    show "\<not> env_ready ?st"
      by (simp add: env_init_def)
  qed (simp_all add: nas_denv_size himport_entries_def CONFIG_ENV_MIN_ENTRIES_def CONFIG_ENV_MAX_ENTRIES_def ENV_SIZE_def
      CONFIG_ENV_SIZE_def ENV_HEADER_SIZE_def)
  moreover have "0 \<notin> set (bytes_of ''bootargs'')" "61 \<notin> set (bytes_of ''bootargs'')"
    by (simp_all add: bytes_of_def)
  moreover have "map_of nas_defaults (bytes_of ''bootargs'') = Some (bytes_of ''console=ttyS0,115200 earlyprintk loglevel=4'')"
    by (simp add: nas_defaults_def)
  moreover have "take 31 (bytes_of ''console=ttyS0,115200 earlyprintk loglevel=4'') = bytes_of ''console=ttyS0,115200 earlyprint''"
    by (simp add: bytes_of_def)
  ultimately show ?thesis by auto
qed

end
