(* ===== verification/Lmb.thy ===== *)
theory Lmb
  imports Boot_Prelude "HOL-Library.Monad_Syntax"
begin

text \<open>
  The logical memory blocks of \<^verbatim>\<open>lib/lmb.c\<close>: two sorted tables of address ranges, the
  memory of the board and the parts of it that are taken, from which the loader allocates
  room for the kernel, the device tree and the initial RAM disk. The tables are arrays of
  nine pairs with a counter, kept as the code keeps them, so that the entries past the counter, which the
  code reads in one case, are part of the model; \<^verbatim>\<open>phys_addr_t\<close>, \<^verbatim>\<open>phys_size_t\<close> and
  \<^verbatim>\<open>unsigned long\<close> are 32-bit words and wrap.
  \<open>None\<close> stands for an access outside the array.
\<close>

section \<open>The tables\<close>

definition MAX_LMB_REGIONS :: nat where
  "MAX_LMB_REGIONS = 8"

definition LMB_ALLOC_ANYWHERE :: u32 where
  "LMB_ALLOC_ANYWHERE = 0"

text \<open>\<^verbatim>\<open>struct lmb_property\<close>: base and size of a range.\<close>

type_synonym lmb_property = "u32 \<times> u32"

record lmb_region =
  rgn_cnt :: u32
  rgn_size :: u32
  rgn_region :: "lmb_property list"

record lmb =
  lmb_memory :: lmb_region
  lmb_reserved :: lmb_region

definition rgn_at :: "lmb_region \<Rightarrow> nat \<Rightarrow> lmb_property option" where
  "rgn_at rgn i = (if i < length (rgn_region rgn) then Some (rgn_region rgn ! i) else None)"

definition rgn_put :: "lmb_region \<Rightarrow> nat \<Rightarrow> lmb_property \<Rightarrow> lmb_region option" where
  "rgn_put rgn i p =
    (if i < length (rgn_region rgn)
     then Some (rgn\<lparr>rgn_region := (rgn_region rgn)[i := p]\<rparr>) else None)"

definition lmb_init :: "lmb \<Rightarrow> lmb option" where
  "lmb_init l =
    do { m \<leftarrow> rgn_put (lmb_memory l) 0 (0, 0);
         r \<leftarrow> rgn_put (lmb_reserved l) 0 (0, 0);
         Some (l\<lparr>lmb_memory := m\<lparr>rgn_cnt := 1, rgn_size := 0\<rparr>,
                 lmb_reserved := r\<lparr>rgn_cnt := 1, rgn_size := 0\<rparr>\<rparr>) }"

section \<open>Ranges\<close>

definition lmb_addrs_overlap :: "u32 \<Rightarrow> u32 \<Rightarrow> u32 \<Rightarrow> u32 \<Rightarrow> bool" where
  "lmb_addrs_overlap base1 size1 base2 size2 \<longleftrightarrow>
    base1 < base2 + size2 \<and> base2 < base1 + size1"

definition lmb_addrs_adjacent :: "u32 \<Rightarrow> u32 \<Rightarrow> u32 \<Rightarrow> u32 \<Rightarrow> int" where
  "lmb_addrs_adjacent base1 size1 base2 size2 =
    (if base2 = base1 + size1 then 1 else if base1 = base2 + size2 then -1 else 0)"

definition lmb_regions_adjacent :: "lmb_region \<Rightarrow> nat \<Rightarrow> nat \<Rightarrow> int option" where
  "lmb_regions_adjacent rgn r1 r2 =
    do { (base1, size1) \<leftarrow> rgn_at rgn r1;
         (base2, size2) \<leftarrow> rgn_at rgn r2;
         Some (lmb_addrs_adjacent base1 size1 base2 size2) }"

definition lmb_align_down :: "u32 \<Rightarrow> u32 \<Rightarrow> u32" where
  "lmb_align_down addr sz = (addr AND NOT (sz - 1))"

definition lmb_align_up :: "u32 \<Rightarrow> u32 \<Rightarrow> u32" where
  "lmb_align_up addr sz = ((addr + (sz - 1)) AND NOT (sz - 1))"

section \<open>Removing and joining entries\<close>

text \<open>The loop of \<^verbatim>\<open>lmb_remove_region\<close>; \<open>n\<close> is \<^verbatim>\<open>rgn->cnt - 1\<close>, which wraps for an empty table.\<close>

function lmb_shift_down :: "lmb_region \<Rightarrow> nat \<Rightarrow> nat \<Rightarrow> lmb_region option" where
  "lmb_shift_down rgn i n =
    (if i < n then
       do { p \<leftarrow> rgn_at rgn (i + 1);
            rgn' \<leftarrow> rgn_put rgn i p;
            lmb_shift_down rgn' (i + 1) n }
     else Some rgn)"
  by pat_completeness auto
termination
  by (relation "measure (\<lambda>(rgn, i, n). n - i)") auto

declare lmb_shift_down.simps [simp del]

definition lmb_remove_region :: "lmb_region \<Rightarrow> nat \<Rightarrow> lmb_region option" where
  "lmb_remove_region rgn r =
    do { rgn' \<leftarrow> lmb_shift_down rgn r (unat (rgn_cnt rgn - 1));
         Some (rgn'\<lparr>rgn_cnt := rgn_cnt rgn' - 1\<rparr>) }"

definition lmb_coalesce_regions :: "lmb_region \<Rightarrow> nat \<Rightarrow> nat \<Rightarrow> lmb_region option" where
  "lmb_coalesce_regions rgn r1 r2 =
    do { (base1, size1) \<leftarrow> rgn_at rgn r1;
         (base2, size2) \<leftarrow> rgn_at rgn r2;
         rgn' \<leftarrow> rgn_put rgn r1 (base1, size1 + size2);
         lmb_remove_region rgn' r2 }"

section \<open>Adding a range\<close>

text \<open>
  The first loop of \<^verbatim>\<open>lmb_add_region\<close>: the range is in the table already, or it was joined to
  entry \<open>i\<close>, or the loop ran to the end.
\<close>

datatype lmb_scan = Scan_same | Scan_joined nat lmb_region | Scan_none

function lmb_scan_loop :: "lmb_region \<Rightarrow> u32 \<Rightarrow> u32 \<Rightarrow> nat \<Rightarrow> lmb_scan option" where
  "lmb_scan_loop rgn base sz i =
    (if i < unat (rgn_cnt rgn) then
       do { (rgnbase, rgnsize) \<leftarrow> rgn_at rgn i;
            if rgnbase = base \<and> rgnsize = sz then Some Scan_same
            else let adjacent = lmb_addrs_adjacent base sz rgnbase rgnsize
              in if adjacent > 0
                 then do { rgn' \<leftarrow> rgn_put rgn i (rgnbase - sz, rgnsize + sz);
                           Some (Scan_joined i rgn') }
                 else if adjacent < 0
                 then do { rgn' \<leftarrow> rgn_put rgn i (rgnbase, rgnsize + sz);
                           Some (Scan_joined i rgn') }
                 else lmb_scan_loop rgn base sz (i + 1) }
     else Some Scan_none)"
  by pat_completeness auto
termination
  by (relation "measure (\<lambda>(rgn, base, sz, i). unat (rgn_cnt rgn) - i)") auto

declare lmb_scan_loop.simps [simp del]

text \<open>The test between the loops: entry \<open>i\<close> and the one after it are joined when they touch.\<close>

definition lmb_join_next :: "lmb_region \<Rightarrow> nat \<Rightarrow> (bool \<times> lmb_region) option" where
  "lmb_join_next rgn i =
    (if i < unat (rgn_cnt rgn - 1) then
       do { adjacent \<leftarrow> lmb_regions_adjacent rgn i (i + 1);
            if adjacent \<noteq> 0
            then do { rgn' \<leftarrow> lmb_coalesce_regions rgn i (i + 1); Some (True, rgn') }
            else Some (False, rgn) }
     else Some (False, rgn))"

text \<open>The second loop, with \<open>n = i + 1\<close> for the C variable \<open>i\<close> that counts down to 0.\<close>

fun lmb_insert_loop :: "lmb_region \<Rightarrow> u32 \<Rightarrow> u32 \<Rightarrow> nat \<Rightarrow> lmb_region option" where
  "lmb_insert_loop rgn base sz 0 = Some rgn"
| "lmb_insert_loop rgn base sz (Suc i) =
    do { (rgnbase, rgnsize) \<leftarrow> rgn_at rgn i;
         if base < rgnbase
         then do { rgn' \<leftarrow> rgn_put rgn (i + 1) (rgnbase, rgnsize);
                   lmb_insert_loop rgn' base sz i }
         else rgn_put rgn (i + 1) (base, sz) }"

definition lmb_insert :: "lmb_region \<Rightarrow> u32 \<Rightarrow> u32 \<Rightarrow> lmb_region option" where
  "lmb_insert rgn base sz =
    do { rgn1 \<leftarrow> lmb_insert_loop rgn base sz (unat (rgn_cnt rgn));
         (base0, size0) \<leftarrow> rgn_at rgn1 0;
         rgn2 \<leftarrow> (if base < base0 then rgn_put rgn1 0 (base, sz) else Some rgn1);
         Some (rgn2\<lparr>rgn_cnt := rgn_cnt rgn2 + 1\<rparr>) }"

definition lmb_add_region :: "lmb_region \<Rightarrow> u32 \<Rightarrow> u32 \<Rightarrow> (int \<times> lmb_region) option" where
  "lmb_add_region rgn base sz =
    do { (base0, size0) \<leftarrow> rgn_at rgn 0;
         if rgn_cnt rgn = 1 \<and> size0 = 0
         then do { rgn' \<leftarrow> rgn_put rgn 0 (base, sz); Some (0, rgn') }
         else do {
           scan \<leftarrow> lmb_scan_loop rgn base sz 0;
           case scan of
             Scan_same \<Rightarrow> Some (0, rgn)
           | Scan_joined i rgn1 \<Rightarrow>
               do { (again, rgn2) \<leftarrow> lmb_join_next rgn1 i;
                    Some (if again then 2 else 1, rgn2) }
           | Scan_none \<Rightarrow>
               do { (again, rgn1) \<leftarrow> lmb_join_next rgn (unat (rgn_cnt rgn));
                    if again then Some (1, rgn1)
                    else if MAX_LMB_REGIONS \<le> unat (rgn_cnt rgn) then Some (-1, rgn)
                    else do { rgn2 \<leftarrow> lmb_insert rgn base sz; Some (0, rgn2) } } } }"

definition lmb_add :: "lmb \<Rightarrow> u32 \<Rightarrow> u32 \<Rightarrow> (int \<times> lmb) option" where
  "lmb_add l base sz =
    do { (ret, rgn) \<leftarrow> lmb_add_region (lmb_memory l) base sz;
         Some (ret, l\<lparr>lmb_memory := rgn\<rparr>) }"

definition lmb_reserve :: "lmb \<Rightarrow> u32 \<Rightarrow> u32 \<Rightarrow> (int \<times> lmb) option" where
  "lmb_reserve l base sz =
    do { (ret, rgn) \<leftarrow> lmb_add_region (lmb_reserved l) base sz;
         Some (ret, l\<lparr>lmb_reserved := rgn\<rparr>) }"

section \<open>Freeing a range\<close>

text \<open>The loop that looks for the entry the range lies in; the result is the index, or \<^verbatim>\<open>cnt\<close>.\<close>

function lmb_find_loop :: "lmb_region \<Rightarrow> u32 \<Rightarrow> u32 \<Rightarrow> nat \<Rightarrow> nat option" where
  "lmb_find_loop rgn base stop i =
    (if i < unat (rgn_cnt rgn) then
       do { (rgnbegin, rgnsize) \<leftarrow> rgn_at rgn i;
            if rgnbegin \<le> base \<and> stop \<le> rgnbegin + rgnsize then Some i
            else lmb_find_loop rgn base stop (i + 1) }
     else Some i)"
  by pat_completeness auto
termination
  by (relation "measure (\<lambda>(rgn, base, stop, i). unat (rgn_cnt rgn) - i)") auto

declare lmb_find_loop.simps [simp del]

definition lmb_free_region :: "lmb_region \<Rightarrow> u32 \<Rightarrow> u32 \<Rightarrow> (int \<times> lmb_region) option" where
  "lmb_free_region rgn base sz =
    (let stop = base + sz
     in do { i \<leftarrow> lmb_find_loop rgn base stop 0;
             if i = unat (rgn_cnt rgn) then Some (-1, rgn)
             else do {
               (rgnbegin, rgnsize) \<leftarrow> rgn_at rgn i;
               let rgnend = rgnbegin + rgnsize;
               if rgnbegin = base \<and> rgnend = stop
               then do { rgn' \<leftarrow> lmb_remove_region rgn i; Some (0, rgn') }
               else if rgnbegin = base
               then do { rgn' \<leftarrow> rgn_put rgn i (stop, rgnsize - sz); Some (0, rgn') }
               else if rgnend = stop
               then do { rgn' \<leftarrow> rgn_put rgn i (rgnbegin, rgnsize - sz); Some (0, rgn') }
               else do { rgn' \<leftarrow> rgn_put rgn i (rgnbegin, base - rgnbegin);
                         lmb_add_region rgn' stop (rgnend - stop) } } })"

definition lmb_free :: "lmb \<Rightarrow> u32 \<Rightarrow> u32 \<Rightarrow> (int \<times> lmb) option" where
  "lmb_free l base sz =
    do { (ret, rgn) \<leftarrow> lmb_free_region (lmb_reserved l) base sz;
         Some (ret, l\<lparr>lmb_reserved := rgn\<rparr>) }"

section \<open>Queries\<close>

text \<open>\<^verbatim>\<open>lmb_overlaps_region\<close>: the index of the first entry that overlaps the range, or -1.\<close>

function lmb_overlaps_loop :: "lmb_region \<Rightarrow> u32 \<Rightarrow> u32 \<Rightarrow> nat \<Rightarrow> int option" where
  "lmb_overlaps_loop rgn base sz i =
    (if i < unat (rgn_cnt rgn) then
       do { (rgnbase, rgnsize) \<leftarrow> rgn_at rgn i;
            if lmb_addrs_overlap base sz rgnbase rgnsize then Some (int i)
            else lmb_overlaps_loop rgn base sz (i + 1) }
     else Some (-1))"
  by pat_completeness auto
termination
  by (relation "measure (\<lambda>(rgn, base, sz, i). unat (rgn_cnt rgn) - i)") auto

declare lmb_overlaps_loop.simps [simp del]

definition lmb_overlaps_region :: "lmb_region \<Rightarrow> u32 \<Rightarrow> u32 \<Rightarrow> int option" where
  "lmb_overlaps_region rgn base sz = lmb_overlaps_loop rgn base sz 0"

function lmb_is_reserved_loop :: "lmb_region \<Rightarrow> u32 \<Rightarrow> nat \<Rightarrow> bool option" where
  "lmb_is_reserved_loop rgn addr i =
    (if i < unat (rgn_cnt rgn) then
       do { (base, sz) \<leftarrow> rgn_at rgn i;
            if base \<le> addr \<and> addr \<le> base + sz - 1 then Some True
            else lmb_is_reserved_loop rgn addr (i + 1) }
     else Some False)"
  by pat_completeness auto
termination
  by (relation "measure (\<lambda>(rgn, addr, i). unat (rgn_cnt rgn) - i)") auto

declare lmb_is_reserved_loop.simps [simp del]

definition lmb_is_reserved :: "lmb \<Rightarrow> u32 \<Rightarrow> bool option" where
  "lmb_is_reserved l addr = lmb_is_reserved_loop (lmb_reserved l) addr 0"

section \<open>Allocating\<close>

lemma align_down_le: "lmb_align_down addr sz \<le> addr"
  unfolding lmb_align_down_def by (rule word_and_le2)

lemma overlaps_loop_hit:
  "lmb_overlaps_loop rgn base sz i = Some j \<Longrightarrow> 0 \<le> j \<Longrightarrow>
   rgn_at rgn (nat j) = Some (rb, rs) \<Longrightarrow>
   lmb_addrs_overlap base sz rb rs \<and> nat j < unat (rgn_cnt rgn)"
proof (induction rgn base sz i rule: lmb_overlaps_loop.induct)
  case (1 rgn base sz i)
  note unfold = lmb_overlaps_loop.simps [of rgn base sz i]
  show ?case
  proof (cases "i < unat (rgn_cnt rgn)")
    case True
    with 1(2) obtain b s where bs: "rgn_at rgn i = Some (b, s)"
      by (auto simp: unfold bind_eq_Some_conv simp del: lmb_overlaps_loop.simps)
    show ?thesis
    proof (cases "lmb_addrs_overlap base sz b s")
      case True
      with 1(2,4) bs \<open>i < unat (rgn_cnt rgn)\<close> show ?thesis
        by (auto simp: unfold)
    next
      case False
      with 1(2) bs \<open>i < unat (rgn_cnt rgn)\<close>
      have "lmb_overlaps_loop rgn base sz (i + 1) = Some j"
        by (simp add: unfold)
      from 1(1) [OF True bs refl False this 1(3,4)] show ?thesis .
    qed
  next
    case False
    with 1(2,3) show ?thesis by (simp add: unfold)
  qed
qed

lemma overlap_below:
  assumes "lmb_addrs_overlap base sz rb rs" and "sz \<le> rb"
  shows "rb - sz < base"
proof -
  have "unat rb < unat (base + sz)"
    using assms(1) by (simp add: lmb_addrs_overlap_def word_less_nat_alt)
  also have "\<dots> \<le> unat base + unat sz"
    by (simp add: unat_word_ariths)
  finally have "unat rb < unat base + unat sz" .
  moreover have "unat (rb - sz) = unat rb - unat sz"
    using assms(2) by (rule unat_sub)
  moreover have "unat sz \<le> unat rb"
    using assms(2) by (simp add: word_le_nat_alt)
  ultimately show ?thesis
    by (simp add: word_less_nat_alt)
qed

text \<open>
  The inner loop of \<^verbatim>\<open>__lmb_alloc_base\<close> for one memory region: it returns from the function,
  or leaves the loop and the next region is tried.
\<close>

datatype lmb_try = Try_return u32 lmb | Try_next

function lmb_alloc_try :: "lmb \<Rightarrow> u32 \<Rightarrow> u32 \<Rightarrow> u32 \<Rightarrow> u32 \<Rightarrow> lmb_try option" where
  "lmb_alloc_try l sz align lmbbase base =
    (if base \<noteq> 0 \<and> lmbbase \<le> base then
       do { j \<leftarrow> lmb_overlaps_region (lmb_reserved l) base sz;
            if j < 0
            then do { (ret, rgn) \<leftarrow> lmb_add_region (lmb_reserved l) base (lmb_align_up sz align);
                      Some (Try_return (if ret < 0 then 0 else base) (l\<lparr>lmb_reserved := rgn\<rparr>)) }
            else do { (res_base, res_size) \<leftarrow> rgn_at (lmb_reserved l) (nat j);
                      if res_base < sz then Some Try_next
                      else lmb_alloc_try l sz align lmbbase
                             (lmb_align_down (res_base - sz) align) } }
     else Some Try_next)"
  by pat_completeness auto
termination
proof (relation "measure (\<lambda>(l, sz, align, lmbbase, base). unat base)", goal_cases)
  case (2 l sz align lmbbase base j y res_base res_size)
  then have "lmb_addrs_overlap base sz res_base res_size"
    using overlaps_loop_hit [of "lmb_reserved l" base sz 0 j res_base res_size]
    by (simp add: lmb_overlaps_region_def)
  then have "res_base - sz < base"
    using 2 by (intro overlap_below) (simp_all add: not_less)
  then have "lmb_align_down (res_base - sz) align < base"
    using align_down_le [of "res_base - sz" align] by (rule order_le_less_trans [rotated])
  then show ?case
    by (simp add: word_less_nat_alt)
qed simp

declare lmb_alloc_try.simps [simp del]

text \<open>Where the search starts in a memory region; \<open>None\<close> is the \<^verbatim>\<open>continue\<close> of the code.\<close>

definition lmb_alloc_start :: "u32 \<Rightarrow> u32 \<Rightarrow> u32 \<Rightarrow> u32 \<Rightarrow> u32 \<Rightarrow> u32 option" where
  "lmb_alloc_start lmbbase lmbsize sz align max_addr =
    (if lmbsize < sz then None
     else if max_addr = LMB_ALLOC_ANYWHERE
     then Some (lmb_align_down (lmbbase + lmbsize - sz) align)
     else if lmbbase < max_addr
     then Some (lmb_align_down (min (lmbbase + lmbsize) max_addr - sz) align)
     else None)"

text \<open>The outer loop, with \<open>n = i + 1\<close> for the signed \<^verbatim>\<open>long i\<close> that starts at \<^verbatim>\<open>cnt-1\<close>.\<close>

fun lmb_alloc_loop :: "lmb \<Rightarrow> u32 \<Rightarrow> u32 \<Rightarrow> u32 \<Rightarrow> nat \<Rightarrow> (u32 \<times> lmb) option" where
  "lmb_alloc_loop l sz align max_addr 0 = Some (0, l)"
| "lmb_alloc_loop l sz align max_addr (Suc i) =
    do { (lmbbase, lmbsize) \<leftarrow> rgn_at (lmb_memory l) i;
         case lmb_alloc_start lmbbase lmbsize sz align max_addr of
           None \<Rightarrow> lmb_alloc_loop l sz align max_addr i
         | Some base \<Rightarrow>
             do { r \<leftarrow> lmb_alloc_try l sz align lmbbase base;
                  case r of
                    Try_return alloc l' \<Rightarrow> Some (alloc, l')
                  | Try_next \<Rightarrow> lmb_alloc_loop l sz align max_addr i } }"

text \<open>\<^verbatim>\<open>__lmb_alloc_base\<close>; \<open>lmb_alloc_base\<close> only adds a message on the console.\<close>

definition lmb_alloc_base_impl :: "lmb \<Rightarrow> u32 \<Rightarrow> u32 \<Rightarrow> u32 \<Rightarrow> (u32 \<times> lmb) option" where
  "lmb_alloc_base_impl l sz align max_addr =
    lmb_alloc_loop l sz align max_addr (nat (sint (rgn_cnt (lmb_memory l) - 1) + 1))"

definition lmb_alloc_base :: "lmb \<Rightarrow> u32 \<Rightarrow> u32 \<Rightarrow> u32 \<Rightarrow> (u32 \<times> lmb) option" where
  "lmb_alloc_base l sz align max_addr = lmb_alloc_base_impl l sz align max_addr"

definition lmb_alloc :: "lmb \<Rightarrow> u32 \<Rightarrow> u32 \<Rightarrow> (u32 \<times> lmb) option" where
  "lmb_alloc l sz align = lmb_alloc_base l sz align LMB_ALLOC_ANYWHERE"

section \<open>Well-formed tables\<close>

definition rgn_base :: "lmb_property \<Rightarrow> nat" where
  "rgn_base p = unat (fst p)"

definition rgn_end :: "lmb_property \<Rightarrow> nat" where
  "rgn_end p = unat (fst p) + unat (snd p)"

text \<open>A range that is not empty and ends below the top of the address space.\<close>

definition range_ok :: "lmb_property \<Rightarrow> bool" where
  "range_ok p \<longleftrightarrow> snd p \<noteq> 0 \<and> rgn_end p < 2 ^ 32"

definition ranges_ok :: "lmb_property list \<Rightarrow> bool" where
  "ranges_ok ps \<longleftrightarrow> sorted_wrt (\<lambda>p q. rgn_end p \<le> rgn_base q) ps \<and> (\<forall>p\<in>set ps. range_ok p)"

text \<open>The entries in use.\<close>

definition rgn_entries :: "lmb_region \<Rightarrow> lmb_property list" where
  "rgn_entries rgn = take (unat (rgn_cnt rgn)) (rgn_region rgn)"

definition rgn_room :: "lmb_region \<Rightarrow> bool" where
  "rgn_room rgn \<longleftrightarrow> length (rgn_region rgn) = MAX_LMB_REGIONS + 1 \<and>
    0 < rgn_cnt rgn \<and> unat (rgn_cnt rgn) \<le> MAX_LMB_REGIONS"

definition rgn_ok :: "lmb_region \<Rightarrow> bool" where
  "rgn_ok rgn \<longleftrightarrow> rgn_room rgn \<and> ranges_ok (rgn_entries rgn)"

text \<open>The table with the dummy entry that \<^verbatim>\<open>lmb_init\<close> makes.\<close>

definition rgn_dummy :: "lmb_region \<Rightarrow> bool" where
  "rgn_dummy rgn \<longleftrightarrow> rgn_room rgn \<and> rgn_cnt rgn = 1 \<and> snd (rgn_region rgn ! 0) = 0"

definition range_addrs :: "lmb_property \<Rightarrow> nat set" where
  "range_addrs p = {rgn_base p..<rgn_end p}"

text \<open>The abstract value of a table: the set of addresses its ranges cover.\<close>

definition rgn_addrs :: "lmb_region \<Rightarrow> nat set" where
  "rgn_addrs rgn = \<Union> (range_addrs ` set (rgn_entries rgn))"

definition ranges_apart :: "lmb_property \<Rightarrow> lmb_property \<Rightarrow> bool" where
  "ranges_apart p q \<longleftrightarrow> rgn_end p \<le> rgn_base q \<or> rgn_end q \<le> rgn_base p"

lemmas range_defs = rgn_base_def rgn_end_def range_ok_def

lemma range_ok_less: "range_ok p \<Longrightarrow> rgn_base p < rgn_end p"
  by (simp add: range_defs unat_gt_0)

lemma range_end_word: "range_ok (b, s) \<Longrightarrow> unat (b + s) = rgn_end (b, s)"
  by (simp add: range_defs unat_word_ariths)

lemma range_apart: "range_ok p \<Longrightarrow> range_ok q \<Longrightarrow>
  ranges_apart p q \<longleftrightarrow> range_addrs p \<inter> range_addrs q = {}"
  using range_ok_less [of p] range_ok_less [of q]
  by (auto simp: ranges_apart_def range_addrs_def not_le Int_atLeastLessThan)

lemma ranges_ok_simps [simp]:
  "ranges_ok []"
  "ranges_ok (p # ps) \<longleftrightarrow> range_ok p \<and> (\<forall>q\<in>set ps. rgn_end p \<le> rgn_base q) \<and> ranges_ok ps"
  "ranges_ok (ps @ qs) \<longleftrightarrow> ranges_ok ps \<and> ranges_ok qs \<and>
    (\<forall>p\<in>set ps. \<forall>q\<in>set qs. rgn_end p \<le> rgn_base q)"
  by (auto simp: ranges_ok_def sorted_wrt_append)

lemma ranges_ok_member: "ranges_ok ps \<Longrightarrow> p \<in> set ps \<Longrightarrow> range_ok p"
  by (simp add: ranges_ok_def)

lemma split_entry: "i < length ps \<Longrightarrow> ps = take i ps @ ps ! i # drop (Suc i) ps"
  by (rule id_take_nth_drop)

lemma rgn_room_length [simp]: "rgn_room rgn \<Longrightarrow> length (rgn_entries rgn) = unat (rgn_cnt rgn)"
  by (simp add: rgn_room_def rgn_entries_def MAX_LMB_REGIONS_def)

lemma rgn_at_entry: "rgn_room rgn \<Longrightarrow> i < unat (rgn_cnt rgn) \<Longrightarrow> rgn_at rgn i = Some (rgn_entries rgn ! i)"
  by (simp add: rgn_at_def rgn_room_def rgn_entries_def)

lemma rgn_put_entry:
  assumes "rgn_room rgn" and "i < unat (rgn_cnt rgn)"
  obtains rgn' where "rgn_put rgn i p = Some rgn'" and "rgn_room rgn'"
    and "rgn_cnt rgn' = rgn_cnt rgn" and "rgn_entries rgn' = (rgn_entries rgn)[i := p]"
proof
  show "rgn_put rgn i p = Some (rgn\<lparr>rgn_region := (rgn_region rgn)[i := p]\<rparr>)"
    using assms by (simp add: rgn_put_def rgn_room_def)
qed (use assms in \<open>simp_all add: rgn_room_def rgn_entries_def take_update_swap\<close>)

section \<open>Removing an entry\<close>

lemma shift_down:
  "i \<le> n \<Longrightarrow> n < length (rgn_region rgn) \<Longrightarrow>
   lmb_shift_down rgn i n =
     Some (rgn\<lparr>rgn_region := take i (rgn_region rgn) @
       take (n - i) (drop (Suc i) (rgn_region rgn)) @ drop n (rgn_region rgn)\<rparr>)"
proof (induction rgn i n rule: lmb_shift_down.induct)
  case (1 rgn i n)
  note unfold = lmb_shift_down.simps [of rgn i n]
  show ?case
  proof (cases "i < n")
    case True
    let ?R = "rgn_region rgn" and ?p = "rgn_region rgn ! Suc i"
    have at: "rgn_at rgn (Suc i) = Some ?p"
      using True 1(3) by (simp add: rgn_at_def)
    have put: "rgn_put rgn i ?p = Some (rgn\<lparr>rgn_region := ?R[i := ?p]\<rparr>)"
      using True 1(3) by (simp add: rgn_put_def)
    have "take (Suc i) (?R[i := ?p]) @ take (n - Suc i) (drop (Suc (Suc i)) ?R) @ drop n ?R =
          take i ?R @ take (n - i) (drop (Suc i) ?R) @ drop n ?R"
      using True 1(3)
      by (simp add: take_Suc_conv_app_nth Cons_nth_drop_Suc [symmetric, of "Suc i"] take_Cons' Suc_diff_Suc)
    then show ?thesis
      using 1(1) [OF True _ put] True 1(3) at by (simp add: unfold put)
  next
    case False
    with 1(2) have "n = i" by simp
    then show ?thesis by (simp add: lmb_shift_down.simps [of rgn i i])
  qed
qed

lemma remove_entry:
  assumes "rgn_room rgn" and "i < unat (rgn_cnt rgn)" and "1 < rgn_cnt rgn"
  obtains rgn' where "lmb_remove_region rgn i = Some rgn'" and "rgn_room rgn'"
    and "rgn_cnt rgn' = rgn_cnt rgn - 1"
    and "rgn_entries rgn' = take i (rgn_entries rgn) @ drop (Suc i) (rgn_entries rgn)"
proof -
  let ?R = "rgn_region rgn" and ?n = "unat (rgn_cnt rgn) - 1"
  have n: "unat (rgn_cnt rgn - 1) = ?n"
    using assms(3) by (subst unat_sub) (auto simp: word_le_nat_alt word_less_nat_alt)
  define rgn' where "rgn' = rgn\<lparr>rgn_region := take i ?R @ take (?n - i) (drop (Suc i) ?R) @ drop ?n ?R,
    rgn_cnt := rgn_cnt rgn - 1\<rparr>"
  have len: "length ?R = 9" "unat (rgn_cnt rgn) \<le> 8"
    using assms(1) by (simp_all add: rgn_room_def MAX_LMB_REGIONS_def)
  have "lmb_remove_region rgn i = Some rgn'"
    using assms(2) len by (simp add: lmb_remove_region_def n shift_down rgn'_def)
  moreover have "rgn_room rgn'"
    using assms len n by (auto simp: rgn_room_def rgn'_def MAX_LMB_REGIONS_def word_less_nat_alt)
  moreover have "rgn_entries rgn' = take i (rgn_entries rgn) @ drop (Suc i) (rgn_entries rgn)"
  proof (cases "i = ?n")
    case True
    then show ?thesis
      using assms(2) len n by (simp add: rgn_entries_def rgn'_def)
  next
    case False
    with assms(2) have "i < ?n" by simp
    then show ?thesis
      using assms(2) len n by (auto simp: rgn_entries_def rgn'_def drop_take min_def)
  qed
  ultimately show ?thesis
    using that [of rgn'] by (simp add: rgn'_def)
qed


section \<open>Joining neighbours\<close>

lemma adjacent_word:
  assumes "range_ok (b1, s1)" and "range_ok (b2, s2)"
  shows "lmb_addrs_adjacent b1 s1 b2 s2 =
    (if rgn_end (b1, s1) = rgn_base (b2, s2) then 1
     else if rgn_end (b2, s2) = rgn_base (b1, s1) then -1 else 0)"
  using range_end_word [OF assms(1)] range_end_word [OF assms(2)]
  by (auto simp: lmb_addrs_adjacent_def rgn_base_def word_unat_eq_iff)

lemma join_two:
  assumes "range_ok (b1, s1)" and "range_ok (b2, s2)" and "rgn_end (b1, s1) = rgn_base (b2, s2)"
  shows "range_ok (b1, s1 + s2)" and "rgn_end (b1, s1 + s2) = rgn_end (b2, s2)"
    and "range_addrs (b1, s1 + s2) = range_addrs (b1, s1) \<union> range_addrs (b2, s2)"
proof -
  have "unat (s1 + s2) = unat s1 + unat s2"
    using assms by (simp add: range_defs unat_word_ariths)
  then show "range_ok (b1, s1 + s2)" "rgn_end (b1, s1 + s2) = rgn_end (b2, s2)"
    using assms by (auto simp: range_defs word_unat_eq_iff)
  then show "range_addrs (b1, s1 + s2) = range_addrs (b1, s1) \<union> range_addrs (b2, s2)"
    using assms(3) range_ok_less [OF assms(1)] range_ok_less [OF assms(2)]
    by (auto simp: range_addrs_def rgn_base_def)
qed

lemma join_next:
  assumes ok: "rgn_ok rgn"
  obtains again rgn' where "lmb_join_next rgn i = Some (again, rgn')" and "rgn_ok rgn'"
    and "rgn_addrs rgn' = rgn_addrs rgn" and "unat (rgn_cnt rgn) \<le> i \<Longrightarrow> \<not> again"
proof -
  have room: "rgn_room rgn" and ranges: "ranges_ok (rgn_entries rgn)"
    using ok by (simp_all add: rgn_ok_def)
  have cnt: "unat (rgn_cnt rgn - 1) = unat (rgn_cnt rgn) - 1"
    using room by (subst unat_sub) (auto simp: rgn_room_def word_le_nat_alt word_less_nat_alt)
  show thesis
  proof (cases "Suc i < unat (rgn_cnt rgn)")
    case False
    then have "lmb_join_next rgn i = Some (False, rgn)"
      by (auto simp: lmb_join_next_def cnt)
    then show thesis
      using that ok by blast
  next
    case True
    obtain b1 s1 b2 s2 where p: "rgn_entries rgn ! i = (b1, s1)" "rgn_entries rgn ! Suc i = (b2, s2)"
      by (cases "rgn_entries rgn ! i", cases "rgn_entries rgn ! Suc i")
    define xs ys where "xs = take i (rgn_entries rgn)" and "ys = drop (Suc (Suc i)) (rgn_entries rgn)"
    have es: "rgn_entries rgn = xs @ (b1, s1) # (b2, s2) # ys" and len: "length xs = i"
      using True room split_entry [of i "rgn_entries rgn"] Cons_nth_drop_Suc [of "Suc i" "rgn_entries rgn"]
      by (simp_all add: xs_def ys_def p)
    have r12: "range_ok (b1, s1)" "range_ok (b2, s2)" "rgn_end (b1, s1) \<le> rgn_base (b2, s2)"
      using ranges by (simp_all add: es)
    have at: "rgn_at rgn i = Some (b1, s1)" "rgn_at rgn (Suc i) = Some (b2, s2)"
      using True room by (simp_all add: rgn_at_entry p)
    show thesis
    proof (cases "rgn_end (b1, s1) = rgn_base (b2, s2)")
      case adj: True
      obtain rgn1 where rgn1: "rgn_put rgn i (b1, s1 + s2) = Some rgn1" "rgn_room rgn1"
        "rgn_cnt rgn1 = rgn_cnt rgn" "rgn_entries rgn1 = (rgn_entries rgn)[i := (b1, s1 + s2)]"
        using True room by (elim rgn_put_entry [of rgn i "(b1, s1 + s2)"]) auto
      have "1 < rgn_cnt rgn1"
        using True rgn1(3) by (simp add: word_less_nat_alt)
      then obtain rgn2 where rgn2: "lmb_remove_region rgn1 (Suc i) = Some rgn2" "rgn_room rgn2"
        "rgn_cnt rgn2 = rgn_cnt rgn1 - 1"
        "rgn_entries rgn2 = take (Suc i) (rgn_entries rgn1) @ drop (Suc (Suc i)) (rgn_entries rgn1)"
        using True rgn1 by (elim remove_entry [of rgn1 "Suc i"]) auto
      have es2: "rgn_entries rgn2 = xs @ (b1, s1 + s2) # ys"
        using len by (simp add: rgn2 rgn1 es list_update_append)
      note two = join_two [OF r12(1,2) adj]
      have "ranges_ok (rgn_entries rgn2)"
        using ranges two(1,2) by (auto simp: es es2 rgn_base_def)
      moreover have "rgn_addrs rgn2 = rgn_addrs rgn"
        by (auto simp: rgn_addrs_def es es2 two(3))
      moreover have "lmb_join_next rgn i = Some (True, rgn2)"
        using True adj r12 rgn1(1) rgn2(1) at
        by (simp add: lmb_join_next_def cnt lmb_regions_adjacent_def adjacent_word lmb_coalesce_regions_def)
      ultimately show thesis
        using that [of True rgn2] rgn2(2) True by (simp add: rgn_ok_def)
    next
      case False
      have "rgn_end (b2, s2) \<noteq> rgn_base (b1, s1)"
        using r12 range_ok_less [OF r12(1)] range_ok_less [OF r12(2)] by simp
      then show thesis
        using that [of False rgn] ok False r12 at
        by (simp add: lmb_join_next_def cnt lmb_regions_adjacent_def adjacent_word)
    qed
  qed
qed


section \<open>Adding a range\<close>

text \<open>What the first loop finds when the range overlaps no entry.\<close>

lemma scan_loop:
  assumes "rgn_room rgn" and "ranges_ok (rgn_entries rgn)" and new: "range_ok (base, sz)"
    and away: "\<forall>p\<in>set (rgn_entries rgn). ranges_apart (base, sz) p"
  shows "lmb_scan_loop rgn base sz i = Some Scan_none \<or>
    (\<exists>j b s rgn'. j < unat (rgn_cnt rgn) \<and> rgn_entries rgn ! j = (b, s) \<and>
       lmb_scan_loop rgn base sz i = Some (Scan_joined j rgn') \<and>
       (rgn_end (base, sz) = rgn_base (b, s) \<and> rgn_put rgn j (b - sz, s + sz) = Some rgn' \<or>
        rgn_end (b, s) = rgn_base (base, sz) \<and> rgn_put rgn j (b, s + sz) = Some rgn'))"
proof (induction "unat (rgn_cnt rgn) - i" arbitrary: i)
  case 0
  then show ?case by (simp add: lmb_scan_loop.simps [of rgn base sz i])
next
  case (Suc k)
  then have i: "i < unat (rgn_cnt rgn)" and IH: "k = unat (rgn_cnt rgn) - Suc i"
    by simp_all
  obtain b s where p: "rgn_entries rgn ! i = (b, s)"
    by (cases "rgn_entries rgn ! i")
  have mem: "(b, s) \<in> set (rgn_entries rgn)"
    using i assms(1) p by (metis nth_mem rgn_room_length)
  have ok: "range_ok (b, s)"
    using assms(2) mem by (rule ranges_ok_member)
  have "ranges_apart (base, sz) (b, s)"
    using away mem by blast
  then have diff: "\<not> (b = base \<and> s = sz)"
    using range_ok_less [OF new] by (auto simp: ranges_apart_def)
  have at: "rgn_at rgn i = Some (b, s)"
    using i assms(1) p by (simp add: rgn_at_entry)
  obtain l r where put: "rgn_put rgn i (b - sz, s + sz) = Some l" "rgn_put rgn i (b, s + sz) = Some r"
    using rgn_put_entry [OF assms(1) i] by metis
  have unfold: "lmb_scan_loop rgn base sz i =
    (if rgn_end (base, sz) = rgn_base (b, s) then Some (Scan_joined i l)
     else if rgn_end (b, s) = rgn_base (base, sz) then Some (Scan_joined i r)
     else lmb_scan_loop rgn base sz (Suc i))"
    using i diff
    by (auto simp: lmb_scan_loop.simps [of rgn base sz i] at put adjacent_word [OF new ok] Let_def)
  show ?case
    using Suc(1) [OF IH] i p put unfold by (auto split: if_splits)
qed

lemma insert_loop:
  assumes "n < length (rgn_region rgn)"
  shows "\<exists>xs ys. take n (rgn_region rgn) = xs @ ys \<and> (\<forall>p\<in>set ys. base < fst p) \<and>
    (xs \<noteq> [] \<longrightarrow> fst (last xs) \<le> base) \<and>
    lmb_insert_loop rgn base sz n =
      Some (rgn\<lparr>rgn_region := (if xs = [] then [rgn_region rgn ! 0] else xs @ [(base, sz)]) @
        ys @ drop (Suc n) (rgn_region rgn)\<rparr>)"
  using assms
proof (induction n arbitrary: rgn)
  case 0
  then have "rgn_region rgn ! 0 # drop (Suc 0) (rgn_region rgn) = rgn_region rgn"
    by (simp add: Cons_nth_drop_Suc)
  then show ?case by simp
next
  case (Suc i)
  let ?R = "rgn_region rgn"
  have at: "rgn_at rgn i = Some (?R ! i)"
    using Suc(2) by (simp add: rgn_at_def)
  have put: "rgn_put rgn (Suc i) p = Some (rgn\<lparr>rgn_region := ?R[Suc i := p]\<rparr>)" for p
    using Suc(2) by (simp add: rgn_put_def)
  have upd: "drop (Suc i) (?R[Suc i := p]) = p # drop (Suc (Suc i)) ?R" for p
    using Suc(2) by (simp add: drop_update_swap Cons_nth_drop_Suc [symmetric])
  have last: "take (Suc i) ?R = take i ?R @ [?R ! i]"
    using Suc(2) by (simp add: take_Suc_conv_app_nth)
  show ?case
  proof (cases "base < fst (?R ! i)")
    case True
    let ?rgn = "rgn\<lparr>rgn_region := ?R[Suc i := ?R ! i]\<rparr>"
    have "i < length (rgn_region ?rgn)"
      using Suc(2) by simp
    from Suc(1) [OF this] obtain xs ys where raw: "take i (rgn_region ?rgn) = xs @ ys"
      "\<forall>p\<in>set ys. base < fst p" "xs \<noteq> [] \<longrightarrow> fst (last xs) \<le> base"
      "lmb_insert_loop ?rgn base sz i =
        Some (?rgn\<lparr>rgn_region := (if xs = [] then [rgn_region ?rgn ! 0] else xs @ [(base, sz)]) @
          ys @ drop (Suc i) (rgn_region ?rgn)\<rparr>)"
      by blast
    then have xy: "take i ?R = xs @ ys" "\<forall>p\<in>set ys. base < fst p"
      "xs \<noteq> [] \<longrightarrow> fst (last xs) \<le> base"
      "lmb_insert_loop ?rgn base sz i =
        Some (rgn\<lparr>rgn_region := (if xs = [] then [?R ! 0] else xs @ [(base, sz)]) @
          ys @ (?R ! i) # drop (Suc (Suc i)) ?R\<rparr>)"
      using upd by simp_all
    show ?thesis
      using xy True
      by (intro exI [of _ xs] exI [of _ "ys @ [?R ! i]"]) (auto simp: last at put split: prod.splits)
  next
    case False
    have "take (Suc i) ?R @ (base, sz) # drop (Suc (Suc i)) ?R = ?R[Suc i := (base, sz)]"
      using Suc(2) by (simp add: upd_conv_take_nth_drop)
    then show ?thesis
      using False
      by (intro exI [of _ "take (Suc i) ?R"] exI [of _ "[]"])
        (auto simp: last at put not_less split: prod.splits)
  qed
qed


lemma below_last:
  assumes "ranges_ok xs" and "xs \<noteq> [] \<longrightarrow> fst (last xs) \<le> base" and "p \<in> set xs"
  shows "rgn_base p \<le> rgn_base (base, sz)"
proof -
  from assms(3) obtain us vs where xs: "xs = us @ p # vs"
    by (meson split_list)
  show ?thesis
  proof (cases "vs = []")
    case True
    with xs assms(2) show ?thesis by (simp add: rgn_base_def word_le_nat_alt)
  next
    case False
    then have "rgn_end p \<le> rgn_base (last vs)" "rgn_base (last vs) \<le> rgn_base (base, sz)"
      using assms(1,2) xs by (simp_all add: rgn_base_def word_le_nat_alt)
    then show ?thesis by (simp add: rgn_end_def rgn_base_def)
  qed
qed

lemma insert_entry:
  assumes ok: "rgn_ok rgn" and room: "unat (rgn_cnt rgn) < MAX_LMB_REGIONS"
    and new: "range_ok (base, sz)" and away: "\<forall>p\<in>set (rgn_entries rgn). ranges_apart (base, sz) p"
  obtains rgn' where "lmb_insert rgn base sz = Some rgn'" and "rgn_ok rgn'"
    and "rgn_addrs rgn' = rgn_addrs rgn \<union> range_addrs (base, sz)"
proof -
  let ?R = "rgn_region rgn" and ?n = "unat (rgn_cnt rgn)"
  have len: "length ?R = 9" "0 < ?n" "?n < 8"
    using ok room by (auto simp: rgn_ok_def rgn_room_def MAX_LMB_REGIONS_def word_less_nat_alt)
  obtain xs ys where xy: "rgn_entries rgn = xs @ ys" "\<forall>p\<in>set ys. base < fst p"
    "xs \<noteq> [] \<longrightarrow> fst (last xs) \<le> base"
    "lmb_insert_loop rgn base sz ?n =
      Some (rgn\<lparr>rgn_region := (if xs = [] then [?R ! 0] else xs @ [(base, sz)]) @ ys @ drop (Suc ?n) ?R\<rparr>)"
    using insert_loop [of ?n rgn base sz] len unfolding rgn_entries_def by auto
  have ranges: "ranges_ok (xs @ ys)"
    using ok xy(1) by (simp add: rgn_ok_def)
  have below: "rgn_base p \<le> rgn_base (base, sz)" if "p \<in> set xs" for p
    using ranges xy(3) that by (intro below_last [of xs base p]) auto
  define rgn' where "rgn' = rgn\<lparr>rgn_region := xs @ (base, sz) # ys @ drop (Suc ?n) ?R, rgn_cnt := rgn_cnt rgn + 1\<rparr>"
  have "lmb_insert rgn base sz = Some rgn'"
  proof (cases "xs = []")
    case True
    then have "ys = take ?n ?R"
      using xy(1) by (simp add: rgn_entries_def)
    then have "?R ! 0 \<in> set ys"
      using len by (simp add: in_set_conv_nth) (rule exI [of _ 0], simp)
    then have "base < fst (?R ! 0)"
      using xy(2) by blast
    then show ?thesis
      using True by (auto simp: lmb_insert_def xy(4) rgn_at_def rgn_put_def rgn'_def split: prod.splits)
  next
    case False
    then have "\<not> base < fst (xs ! 0)"
      using below [of "xs ! 0"] by (simp add: rgn_base_def word_le_nat_alt not_less)
    then show ?thesis
      using False by (auto simp: lmb_insert_def xy(4) rgn_at_def nth_append rgn'_def split: prod.splits)
  qed
  moreover have cnt: "unat (rgn_cnt rgn + 1) = Suc ?n"
    using len by (simp add: unat_word_ariths)
  moreover have lxy: "length xs + length ys = ?n"
    using arg_cong [OF xy(1), of length] len by (simp add: rgn_entries_def)
  moreover have es: "rgn_entries rgn' = xs @ (base, sz) # ys"
    by (simp add: rgn_entries_def rgn'_def cnt) (simp add: lxy [symmetric] Suc_diff_le)
  moreover have "rgn_room rgn'"
    using len lxy cnt by (simp add: rgn_room_def rgn'_def MAX_LMB_REGIONS_def word_less_nat_alt)
  moreover have "rgn_end p \<le> rgn_base (base, sz)" if "p \<in> set xs" for p
  proof -
    have "ranges_apart (base, sz) p"
      using away that by (simp add: xy(1))
    then show ?thesis
      using below [OF that] range_ok_less [OF new] by (auto simp: ranges_apart_def)
  qed
  moreover have "rgn_end (base, sz) \<le> rgn_base p" if "p \<in> set ys" for p
  proof -
    have "range_ok p" and "rgn_base (base, sz) < rgn_base p" and "ranges_apart (base, sz) p"
      using ranges that xy(2) away by (auto simp: ranges_ok_def rgn_base_def word_less_nat_alt xy(1))
    then show ?thesis using range_ok_less [of p] by (auto simp: ranges_apart_def)
  qed
  ultimately have "rgn_ok rgn'" "rgn_addrs rgn' = rgn_addrs rgn \<union> range_addrs (base, sz)"
    using ranges new by (auto simp: rgn_ok_def rgn_addrs_def xy(1))
  then show thesis
    using that \<open>lmb_insert rgn base sz = Some rgn'\<close> by blast
qed

lemma joined_range:
  assumes new: "range_ok (base, sz)" and old: "range_ok (b, s)"
    and joined: "rgn_end (base, sz) = rgn_base (b, s) \<and> rgn_put rgn i (b - sz, s + sz) = Some rgn' \<or>
      rgn_end (b, s) = rgn_base (base, sz) \<and> rgn_put rgn i (b, s + sz) = Some rgn'"
  shows "\<exists>q. rgn_put rgn i q = Some rgn' \<and> range_ok q \<and>
    range_addrs q = range_addrs (b, s) \<union> range_addrs (base, sz) \<and>
    rgn_base q = min (rgn_base (b, s)) (rgn_base (base, sz)) \<and>
    rgn_end q = max (rgn_end (b, s)) (rgn_end (base, sz))"
  using joined
proof
  assume left: "rgn_end (base, sz) = rgn_base (b, s) \<and> rgn_put rgn i (b - sz, s + sz) = Some rgn'"
  then have "base + sz = b"
    using range_end_word [OF new] by (simp add: rgn_base_def word_unat_eq_iff)
  then have "b - sz = base"
    by (simp add: diff_eq_eq)
  then have "rgn_put rgn i (base, sz + s) = Some rgn'"
    using left by (simp add: add.commute)
  moreover have "rgn_base (base, sz + s) = rgn_base (base, sz)"
    by (simp add: rgn_base_def)
  ultimately show ?thesis
    using join_two [OF new old] left range_ok_less [OF new] range_ok_less [OF old]
    by (intro exI [of _ "(base, sz + s)"]) (simp add: Un_commute)
next
  assume right: "rgn_end (b, s) = rgn_base (base, sz) \<and> rgn_put rgn i (b, s + sz) = Some rgn'"
  moreover have "rgn_base (b, s + sz) = rgn_base (b, s)"
    by (simp add: rgn_base_def)
  ultimately show ?thesis
    using join_two [OF old new] range_ok_less [OF new] range_ok_less [OF old]
    by (intro exI [of _ "(b, s + sz)"]) simp
qed

lemma join_entry:
  assumes ok: "rgn_ok rgn" and new: "range_ok (base, sz)"
    and away: "\<forall>p\<in>set (rgn_entries rgn). ranges_apart (base, sz) p"
    and i: "i < unat (rgn_cnt rgn)" and p: "rgn_entries rgn ! i = (b, s)"
    and joined: "rgn_end (base, sz) = rgn_base (b, s) \<and> rgn_put rgn i (b - sz, s + sz) = Some rgn' \<or>
      rgn_end (b, s) = rgn_base (base, sz) \<and> rgn_put rgn i (b, s + sz) = Some rgn'"
  shows "rgn_ok rgn'" and "rgn_addrs rgn' = rgn_addrs rgn \<union> range_addrs (base, sz)"
proof -
  have room: "rgn_room rgn" and ranges: "ranges_ok (rgn_entries rgn)"
    using ok by (simp_all add: rgn_ok_def)
  define xs ys where "xs = take i (rgn_entries rgn)" and "ys = drop (Suc i) (rgn_entries rgn)"
  have es: "rgn_entries rgn = xs @ (b, s) # ys" and len: "length xs = i"
    using i room split_entry [of i "rgn_entries rgn"] by (simp_all add: xs_def ys_def p)
  have old: "range_ok (b, s)"
    using ranges by (simp add: es)
  note less = range_ok_less [OF new] range_ok_less [OF old]
  obtain q where q: "rgn_put rgn i q = Some rgn'" "range_ok q"
    "range_addrs q = range_addrs (b, s) \<union> range_addrs (base, sz)"
    "rgn_base q = min (rgn_base (b, s)) (rgn_base (base, sz))"
    "rgn_end q = max (rgn_end (b, s)) (rgn_end (base, sz))"
    using joined_range [OF new old joined] by blast
  have "rgn_entries rgn' = (rgn_entries rgn)[i := q]" "rgn_room rgn'"
    by (rule rgn_put_entry [OF room i, of q], simp add: q(1))+
  then have upd: "rgn_entries rgn' = xs @ q # ys" "rgn_room rgn'"
    using len by (simp_all add: es list_update_append)
  have one: "range_ok p \<and> ranges_apart (base, sz) p" if "p \<in> set xs \<union> set ys" for p
    using that ranges away by (auto simp: es dest: ranges_ok_member)
  have "rgn_end p \<le> rgn_base q" if "p \<in> set xs" for p
  proof -
    have "rgn_end p \<le> rgn_base (b, s)"
      using ranges that by (simp add: es)
    then show ?thesis
      using joined one [of p] that less range_ok_less [of p] q(4) by (auto simp: ranges_apart_def)
  qed
  moreover have "rgn_end q \<le> rgn_base p" if "p \<in> set ys" for p
  proof -
    have "rgn_end (b, s) \<le> rgn_base p"
      using ranges that by (simp add: es)
    then show ?thesis
      using joined one [of p] that less range_ok_less [of p] q(5) by (auto simp: ranges_apart_def)
  qed
  ultimately show "rgn_ok rgn'"
    using upd ranges q(2) by (simp add: rgn_ok_def es)
  show "rgn_addrs rgn' = rgn_addrs rgn \<union> range_addrs (base, sz)"
    using upd q(3) by (auto simp: rgn_addrs_def es)
qed


text \<open>
  Adding a range that overlaps no entry: the table stays well formed and covers the new
  addresses as well, or it is full and unchanged.
\<close>

lemma add_region:
  assumes ok: "rgn_ok rgn" and new: "range_ok (base, sz)"
    and away: "\<forall>p\<in>set (rgn_entries rgn). ranges_apart (base, sz) p"
  obtains ret rgn' where "lmb_add_region rgn base sz = Some (ret, rgn')"
    and "0 \<le> ret \<Longrightarrow> rgn_ok rgn' \<and> rgn_addrs rgn' = rgn_addrs rgn \<union> range_addrs (base, sz)"
    and "ret < 0 \<Longrightarrow> rgn' = rgn \<and> unat (rgn_cnt rgn) = MAX_LMB_REGIONS"
proof -
  have room: "rgn_room rgn" and ranges: "ranges_ok (rgn_entries rgn)" and pos: "0 < unat (rgn_cnt rgn)"
    using ok by (auto simp: rgn_ok_def rgn_room_def word_less_nat_alt)
  obtain b0 s0 where p0: "rgn_entries rgn ! 0 = (b0, s0)"
    by (cases "rgn_entries rgn ! 0")
  have "(b0, s0) \<in> set (rgn_entries rgn)"
    using room pos p0 nth_mem [of 0 "rgn_entries rgn"] by simp
  then have "range_ok (b0, s0)"
    by (rule ranges_ok_member [OF ranges])
  then have e0: "rgn_at rgn 0 = Some (b0, s0)" "s0 \<noteq> 0"
    using rgn_at_entry [OF room pos] p0 by (simp_all add: range_ok_def)
  note start = lmb_add_region_def [of rgn base sz, unfolded e0(1)]
  consider "lmb_scan_loop rgn base sz 0 = Some Scan_none"
    | j b s rgn1 where "j < unat (rgn_cnt rgn)" "rgn_entries rgn ! j = (b, s)"
      "lmb_scan_loop rgn base sz 0 = Some (Scan_joined j rgn1)"
      "rgn_end (base, sz) = rgn_base (b, s) \<and> rgn_put rgn j (b - sz, s + sz) = Some rgn1 \<or>
       rgn_end (b, s) = rgn_base (base, sz) \<and> rgn_put rgn j (b, s + sz) = Some rgn1"
    using scan_loop [OF room ranges new away, of 0] by blast
  then show thesis
  proof cases
    case 1
    obtain again rgn1 where "lmb_join_next rgn (unat (rgn_cnt rgn)) = Some (again, rgn1)"
      "unat (rgn_cnt rgn) \<le> unat (rgn_cnt rgn) \<Longrightarrow> \<not> again"
      by (rule join_next [OF ok, of "unat (rgn_cnt rgn)"]) (rule that)
    then have step: "lmb_add_region rgn base sz =
      (if MAX_LMB_REGIONS \<le> unat (rgn_cnt rgn) then Some (-1, rgn)
       else do { rgn2 \<leftarrow> lmb_insert rgn base sz; Some (0, rgn2) })"
      using e0(2) 1 by (simp add: start)
    show thesis
    proof (cases "unat (rgn_cnt rgn) < MAX_LMB_REGIONS")
      case True
      then obtain rgn2 where "lmb_insert rgn base sz = Some rgn2" "rgn_ok rgn2"
        "rgn_addrs rgn2 = rgn_addrs rgn \<union> range_addrs (base, sz)"
        by (rule insert_entry [OF ok _ new away]) (rule that)
      with that [of 0 rgn2] True show thesis by (simp add: step)
    next
      case False
      with that [of "-1" rgn] room show thesis by (simp add: step rgn_room_def)
    qed
  next
    case (2 j b s rgn1)
    note joined = join_entry [OF ok new away 2(1,2,4)]
    obtain again rgn2 where "lmb_join_next rgn1 j = Some (again, rgn2)" "rgn_ok rgn2"
      "rgn_addrs rgn2 = rgn_addrs rgn1"
      by (rule join_next [OF joined(1), of j]) (rule that)
    with that [of "if again then 2 else 1" rgn2] e0(2) 2(3) joined(2) show thesis
      by (simp add: start split: if_splits)
  qed
qed

lemma add_region_dummy:
  assumes "rgn_dummy rgn" and "range_ok (base, sz)"
  obtains rgn' where "lmb_add_region rgn base sz = Some (0, rgn')"
    and "rgn_ok rgn'" and "rgn_addrs rgn' = range_addrs (base, sz)"
proof -
  have room: "rgn_room rgn" and cnt: "rgn_cnt rgn = 1" and "snd (rgn_region rgn ! 0) = 0"
    using assms(1) by (simp_all add: rgn_dummy_def)
  then have e0: "rgn_at rgn 0 = Some (fst (rgn_region rgn ! 0), 0)"
    by (auto simp: rgn_at_def rgn_room_def prod_eq_iff)
  obtain rgn' where rgn': "rgn_put rgn 0 (base, sz) = Some rgn'" "rgn_room rgn'"
    "rgn_entries rgn' = (rgn_entries rgn)[0 := (base, sz)]"
    by (rule rgn_put_entry [OF room, of 0 "(base, sz)"]) (use cnt that in auto)
  have "length (rgn_entries rgn) = 1"
    using room cnt by simp
  then have "rgn_entries rgn' = [(base, sz)]"
    using rgn'(3) by (cases "rgn_entries rgn") auto
  then show thesis
    using that [of rgn'] rgn'(1,2) assms(2) cnt e0
    by (simp add: lmb_add_region_def rgn_ok_def rgn_addrs_def)
qed

section \<open>Freeing a range\<close>

lemma entry_disjoint:
  assumes "ranges_ok (xs @ p # ys)" and "q \<in> set xs \<union> set ys"
  shows "range_addrs q \<inter> range_addrs p = {}"
  using assms by (auto simp: range_addrs_def)

text \<open>An entry is replaced by the entries that cover it except for the addresses \<open>D\<close>.\<close>

lemma shrink_entry:
  assumes "rgn_entries rgn = xs @ p # ys" and "rgn_entries rgn' = xs @ qs @ ys"
    and "ranges_ok (xs @ p # ys)" and "rgn_room rgn'" and "ranges_ok qs"
    and "\<forall>q\<in>set qs. rgn_base p \<le> rgn_base q \<and> rgn_end q \<le> rgn_end p"
    and "\<Union> (range_addrs ` set qs) = range_addrs p - D" and "D \<subseteq> range_addrs p"
  shows "rgn_ok rgn'" and "rgn_addrs rgn' = rgn_addrs rgn - D"
proof -
  have "rgn_end x \<le> rgn_base q" if "x \<in> set xs" "q \<in> set qs" for x q
    using that assms(3,6) by (auto intro: order_trans)
  moreover have "rgn_end q \<le> rgn_base y" if "y \<in> set ys" "q \<in> set qs" for y q
    using that assms(3,6) by (auto intro: order_trans)
  ultimately show "rgn_ok rgn'"
    using assms(2-5) by (auto simp: rgn_ok_def)
  have "(\<Union> (range_addrs ` set xs) \<union> \<Union> (range_addrs ` set ys)) \<inter> D = {}"
    using entry_disjoint [OF assms(3)] assms(8) by blast
  then show "rgn_addrs rgn' = rgn_addrs rgn - D"
    using assms(7) by (auto simp: rgn_addrs_def assms(1,2))
qed

lemma find_loop:
  assumes "rgn_room rgn"
  shows "\<exists>i. lmb_find_loop rgn base stop k = Some i \<and>
    (i < unat (rgn_cnt rgn) \<and>
       fst (rgn_entries rgn ! i) \<le> base \<and> stop \<le> fst (rgn_entries rgn ! i) + snd (rgn_entries rgn ! i) \<or>
     max k (unat (rgn_cnt rgn)) = i \<and> (\<forall>p\<in>set (drop k (rgn_entries rgn)). \<not> (fst p \<le> base \<and> stop \<le> fst p + snd p)))"
proof (induction "unat (rgn_cnt rgn) - k" arbitrary: k)
  case 0
  then show ?case
    using assms by (simp add: lmb_find_loop.simps [of rgn base stop k] max_def)
next
  case (Suc n)
  then have k: "k < unat (rgn_cnt rgn)" and IH: "n = unat (rgn_cnt rgn) - Suc k"
    by simp_all
  obtain b s where p: "rgn_entries rgn ! k = (b, s)"
    by (cases "rgn_entries rgn ! k")
  have unfold: "lmb_find_loop rgn base stop k =
    (if b \<le> base \<and> stop \<le> b + s then Some k else lmb_find_loop rgn base stop (Suc k))"
    using k assms p by (simp add: lmb_find_loop.simps [of rgn base stop k] rgn_at_entry)
  have "drop k (rgn_entries rgn) = (b, s) # drop (Suc k) (rgn_entries rgn)"
    using k assms p by (simp add: Cons_nth_drop_Suc [symmetric])
  moreover have "max k (unat (rgn_cnt rgn)) = max (Suc k) (unat (rgn_cnt rgn))"
    using k by simp
  ultimately show ?case
    using Suc(1) [OF IH] k p unfold by (cases "b \<le> base \<and> stop \<le> b + s") auto
qed

text \<open>The differences the code takes do not wrap.\<close>

lemma range_cut:
  assumes new: "range_ok (base, sz)" and old: "range_ok (b, s)"
    and inside: "rgn_base (b, s) \<le> rgn_base (base, sz)" "rgn_end (base, sz) \<le> rgn_end (b, s)"
  shows "unat (base - b) = unat base - unat b"
    and "unat (b + s - (base + sz)) = rgn_end (b, s) - rgn_end (base, sz)"
    and "unat (s - sz) = unat s - unat sz"
    and "unat sz \<le> unat s"
proof -
  show le: "unat sz \<le> unat s"
    using inside by (simp add: rgn_base_def rgn_end_def)
  then show "unat (s - sz) = unat s - unat sz"
    by (simp add: unat_sub word_le_nat_alt)
  show "unat (base - b) = unat base - unat b"
    using inside by (simp add: unat_sub word_le_nat_alt rgn_base_def)
  show "unat (b + s - (base + sz)) = rgn_end (b, s) - rgn_end (base, sz)"
    using inside(2) range_end_word [OF new] range_end_word [OF old]
    by (subst unat_sub) (simp_all add: word_le_nat_alt)
qed


text \<open>
  The table after each of the four ways to take a range out of an entry: the entry goes
  away, its front or its end goes, or it is cut off at the hole and the rest is added again.
\<close>

lemma free_whole:
  assumes ok: "rgn_ok rgn" and i: "i < unat (rgn_cnt rgn)" and p: "rgn_entries rgn ! i = p"
    and more: "1 < rgn_cnt rgn"
  obtains rgn' where "lmb_remove_region rgn i = Some rgn'" and "rgn_ok rgn'"
    and "rgn_addrs rgn' = rgn_addrs rgn - range_addrs p"
proof -
  have room: "rgn_room rgn" and ranges: "ranges_ok (rgn_entries rgn)"
    using ok by (simp_all add: rgn_ok_def)
  have es: "rgn_entries rgn = take i (rgn_entries rgn) @ p # drop (Suc i) (rgn_entries rgn)"
    using split_entry [of i "rgn_entries rgn"] i room p by simp
  have split: "ranges_ok (take i (rgn_entries rgn) @ p # drop (Suc i) (rgn_entries rgn))"
    by (subst es [symmetric]) (rule ranges)
  obtain rgn' where rgn': "lmb_remove_region rgn i = Some rgn'" "rgn_room rgn'" "rgn_cnt rgn' = rgn_cnt rgn - 1"
    "rgn_entries rgn' = take i (rgn_entries rgn) @ drop (Suc i) (rgn_entries rgn)"
    by (rule remove_entry [OF room i more])
  have es': "rgn_entries rgn' = take i (rgn_entries rgn) @ [] @ drop (Suc i) (rgn_entries rgn)"
    using rgn'(4) by simp
  show thesis
    using that [OF rgn'(1)] shrink_entry [OF es es' split rgn'(2), of "range_addrs p"] by simp
qed

lemma free_part:
  assumes ok: "rgn_ok rgn" and i: "i < unat (rgn_cnt rgn)" and p: "rgn_entries rgn ! i = p"
    and q: "range_ok q" "rgn_base p \<le> rgn_base q" "rgn_end q \<le> rgn_end p"
  obtains rgn' where "rgn_put rgn i q = Some rgn'" and "rgn_ok rgn'" and "rgn_cnt rgn' = rgn_cnt rgn"
    and "rgn_addrs rgn' = rgn_addrs rgn - (range_addrs p - range_addrs q)"
    and "set (rgn_entries rgn') \<subseteq> insert q (set (take i (rgn_entries rgn)) \<union> set (drop (Suc i) (rgn_entries rgn)))"
proof -
  let ?xs = "take i (rgn_entries rgn)" and ?ys = "drop (Suc i) (rgn_entries rgn)"
  have room: "rgn_room rgn" and ranges: "ranges_ok (rgn_entries rgn)"
    using ok by (simp_all add: rgn_ok_def)
  have es: "rgn_entries rgn = ?xs @ p # ?ys"
    using split_entry [of i "rgn_entries rgn"] i room p by simp
  have split: "ranges_ok (?xs @ p # ?ys)"
    by (subst es [symmetric]) (rule ranges)
  obtain rgn' where rgn': "rgn_put rgn i q = Some rgn'" "rgn_room rgn'" "rgn_cnt rgn' = rgn_cnt rgn"
    "rgn_entries rgn' = (rgn_entries rgn)[i := q]"
    by (rule rgn_put_entry [OF room i])
  have es': "rgn_entries rgn' = ?xs @ [q] @ ?ys"
    using rgn'(4) i room by (simp add: upd_conv_take_nth_drop)
  have "range_addrs q \<subseteq> range_addrs p"
    using q by (auto simp: range_addrs_def)
  then have "rgn_ok rgn'" "rgn_addrs rgn' = rgn_addrs rgn - (range_addrs p - range_addrs q)"
    using shrink_entry [OF es es' split rgn'(2), of "range_addrs p - range_addrs q"] q by auto
  moreover have "set (rgn_entries rgn') \<subseteq> insert q (set ?xs \<union> set ?ys)"
    unfolding es' by auto
  ultimately show thesis
    using that [of rgn'] rgn'(1,3) by blast
qed


definition range_inside :: "lmb_property \<Rightarrow> lmb_property \<Rightarrow> bool" where
  "range_inside q p \<longleftrightarrow> rgn_base p \<le> rgn_base q \<and> rgn_end q \<le> rgn_end p"

lemma free_cut:
  assumes "rgn_ok rgn" and "i < unat (rgn_cnt rgn)" and "rgn_entries rgn ! i = p"
    and "range_ok q" and "range_inside q p"
  shows "\<exists>rgn'. rgn_put rgn i q = Some rgn' \<and> rgn_ok rgn' \<and>
    rgn_addrs rgn' = rgn_addrs rgn - (range_addrs p - range_addrs q)"
  by (rule free_part [OF assms(1-4)]) (use assms(5) in \<open>simp_all add: range_inside_def\<close>)

lemma free_split:
  assumes ok: "rgn_ok rgn" and new: "range_ok (base, sz)"
    and i: "i < unat (rgn_cnt rgn)" and p: "rgn_entries rgn ! i = (b, s)"
    and inside: "rgn_base (b, s) < rgn_base (base, sz)" "rgn_end (base, sz) < rgn_end (b, s)"
  obtains rgn1 ret rgn' where "rgn_put rgn i (b, base - b) = Some rgn1"
    and "lmb_add_region rgn1 (base + sz) (b + s - (base + sz)) = Some (ret, rgn')"
    and "0 \<le> ret \<Longrightarrow> rgn_ok rgn' \<and> rgn_addrs rgn' = rgn_addrs rgn - range_addrs (base, sz)"
    and "ret < 0 \<Longrightarrow> unat (rgn_cnt rgn) = MAX_LMB_REGIONS \<and> rgn_ok rgn' \<and>
      rgn_addrs rgn' = rgn_addrs rgn - {rgn_base (base, sz)..<rgn_end (b, s)}"
proof -
  let ?head = "(b, base - b)" and ?tail = "(base + sz, b + s - (base + sz))"
  have ranges: "ranges_ok (rgn_entries rgn)" and room: "rgn_room rgn"
    using ok by (simp_all add: rgn_ok_def)
  have mem: "(b, s) \<in> set (rgn_entries rgn)"
    using i room p nth_mem [of i "rgn_entries rgn"] by simp
  have old: "range_ok (b, s)"
    by (rule ranges_ok_member [OF ranges mem])
  note cut = range_cut [OF new old less_imp_le less_imp_le, OF inside]
  have head: "rgn_base ?head = rgn_base (b, s)" "rgn_end ?head = rgn_base (base, sz)"
    and tail: "rgn_base ?tail = rgn_end (base, sz)" "rgn_end ?tail = rgn_end (b, s)"
    using inside cut(1,2) range_end_word [OF new]
    by (simp_all add: rgn_base_def rgn_end_def [of "(_, base - b)"] rgn_end_def [of "(_, b + s - _)"])
  have hok: "range_ok ?head" and tok: "range_ok ?tail"
    using old head tail inside range_ok_less [OF new]
    by (auto simp: range_ok_def rgn_base_def rgn_end_def)
  obtain rgn1 where rgn1: "rgn_put rgn i ?head = Some rgn1" "rgn_ok rgn1" "rgn_cnt rgn1 = rgn_cnt rgn"
    "rgn_addrs rgn1 = rgn_addrs rgn - (range_addrs (b, s) - range_addrs ?head)"
    "set (rgn_entries rgn1) \<subseteq> insert ?head (set (take i (rgn_entries rgn)) \<union> set (drop (Suc i) (rgn_entries rgn)))"
    by (rule free_part [OF ok i p hok]) (use head inside range_ok_less [OF new] in auto)
  have addrs1: "rgn_addrs rgn1 = rgn_addrs rgn - {rgn_base (base, sz)..<rgn_end (b, s)}"
    unfolding rgn1(4) using head inside by (auto simp: range_addrs_def)
  have "ranges_ok (take i (rgn_entries rgn) @ (b, s) # drop (Suc i) (rgn_entries rgn))"
    using ranges split_entry [of i "rgn_entries rgn"] i room p by simp
  then have away: "\<forall>q\<in>set (rgn_entries rgn1). ranges_apart ?tail q"
    using rgn1(5) head tail inside range_ok_less [OF new] range_ok_less [OF old]
    by (fastforce simp: ranges_apart_def)
  have sub: "x \<in> rgn_addrs rgn" if "rgn_end (base, sz) \<le> x" "x < rgn_end (b, s)" for x
    using mem that inside range_ok_less [OF new]
    by (auto simp: rgn_addrs_def range_addrs_def intro!: bexI [of _ "(b, s)"])
  obtain ret rgn' where add: "lmb_add_region rgn1 (fst ?tail) (snd ?tail) = Some (ret, rgn')"
    "0 \<le> ret \<Longrightarrow> rgn_ok rgn' \<and> rgn_addrs rgn' = rgn_addrs rgn1 \<union> range_addrs ?tail"
    "ret < 0 \<Longrightarrow> rgn' = rgn1 \<and> unat (rgn_cnt rgn1) = MAX_LMB_REGIONS"
    by (rule add_region [OF rgn1(2) tok away]) (use that in simp)
  have "rgn_addrs rgn1 \<union> range_addrs ?tail = rgn_addrs rgn - range_addrs (base, sz)"
    using sub head tail inside by (auto simp: addrs1 range_addrs_def)
  then show thesis
    using that [of rgn1 ret rgn'] rgn1 add addrs1 by simp
qed


lemma inside_word:
  assumes "range_ok (base, sz)" and "range_ok p"
  shows "fst p \<le> base \<and> base + sz \<le> fst p + snd p \<longleftrightarrow> range_inside (base, sz) p"
  using range_end_word [OF assms(1)] range_end_word [of "fst p" "snd p"] assms(2)
  by (simp add: range_inside_def word_le_nat_alt rgn_base_def)

lemma free_region:
  assumes ok: "rgn_ok rgn" and new: "range_ok (base, sz)"
    and inside: "p \<in> set (rgn_entries rgn)" "range_inside (base, sz) p"
    and more: "1 < rgn_cnt rgn \<or> (base, sz) \<notin> set (rgn_entries rgn)"
  obtains ret rgn' where "lmb_free_region rgn base sz = Some (ret, rgn')" and "rgn_ok rgn'"
    and "0 \<le> ret \<Longrightarrow> rgn_addrs rgn' = rgn_addrs rgn - range_addrs (base, sz)"
    and "ret < 0 \<Longrightarrow> unat (rgn_cnt rgn) = MAX_LMB_REGIONS"
proof -
  have ranges: "ranges_ok (rgn_entries rgn)" and room: "rgn_room rgn"
    using ok by (simp_all add: rgn_ok_def)
  have "fst p \<le> base \<and> base + sz \<le> fst p + snd p"
    using inside inside_word [OF new ranges_ok_member [OF ranges inside(1)]] by blast
  then obtain i where find: "lmb_find_loop rgn base (base + sz) 0 = Some i" and i: "i < unat (rgn_cnt rgn)"
    and le: "fst (rgn_entries rgn ! i) \<le> base \<and> base + sz \<le> fst (rgn_entries rgn ! i) + snd (rgn_entries rgn ! i)"
    using find_loop [OF room, of base "base + sz" 0] inside(1) by auto
  obtain b s where bs: "rgn_entries rgn ! i = (b, s)"
    by (cases "rgn_entries rgn ! i")
  have mem: "(b, s) \<in> set (rgn_entries rgn)"
    using i room bs nth_mem [of i "rgn_entries rgn"] by simp
  have old: "range_ok (b, s)"
    by (rule ranges_ok_member [OF ranges mem])
  have ins: "rgn_base (b, s) \<le> rgn_base (base, sz)" "rgn_end (base, sz) \<le> rgn_end (b, s)"
    using le inside_word [OF new old] by (simp_all add: bs range_inside_def)
  note cut = range_cut [OF new old ins] and less = range_ok_less [OF new] range_ok_less [OF old]
  have at: "rgn_at rgn i = Some (b, s)"
    using i room bs by (simp add: rgn_at_entry)
  have start: "b = base \<longleftrightarrow> rgn_base (b, s) = rgn_base (base, sz)"
    and stop: "b + s = base + sz \<longleftrightarrow> rgn_end (b, s) = rgn_end (base, sz)"
    using range_end_word [OF new] range_end_word [OF old] by (auto simp: rgn_base_def word_unat_eq_iff)
  note unfold = lmb_free_region_def [of rgn base sz, unfolded Let_def find]
  consider (whole) "b = base" "b + s = base + sz" | (front) "b = base" "b + s \<noteq> base + sz"
    | (rear) "b \<noteq> base" "b + s = base + sz" | (split) "b \<noteq> base" "b + s \<noteq> base + sz"
    by blast
  then show thesis
  proof cases
    case whole
    then have eq: "(b, s) = (base, sz)" by simp
    then have "1 < rgn_cnt rgn"
      using more mem by blast
    then obtain rgn' where "lmb_remove_region rgn i = Some rgn'" "rgn_ok rgn'"
      "rgn_addrs rgn' = rgn_addrs rgn - range_addrs (b, s)"
      by (rule free_whole [OF ok i bs])
    with that [of 0 rgn'] whole eq i at show thesis by (simp add: unfold)
  next
    case front
    let ?q = "(base + sz, s - sz)"
    have q: "rgn_base ?q = rgn_end (base, sz)" "rgn_end ?q = rgn_end (b, s)"
      using front cut(3,4) range_end_word [OF new] by (simp_all add: rgn_base_def rgn_end_def)
    moreover have "range_ok ?q"
      using q old ins stop front by (auto simp: range_ok_def rgn_base_def rgn_end_def)
    moreover have "range_inside ?q (b, s)"
      using q ins less by (simp add: range_inside_def)
    moreover have "range_addrs (b, s) - range_addrs ?q = range_addrs (base, sz)"
      using q ins start front less by (auto simp: range_addrs_def)
    ultimately obtain rgn' where "rgn_put rgn i ?q = Some rgn'" "rgn_ok rgn'"
      "rgn_addrs rgn' = rgn_addrs rgn - range_addrs (base, sz)"
      using free_cut [OF ok i bs, of ?q] by auto
    with that [of 0 rgn'] front i at show thesis by (simp add: unfold)
  next
    case rear
    let ?q = "(b, s - sz)"
    have q: "rgn_base ?q = rgn_base (b, s)" "rgn_end ?q = rgn_base (base, sz)"
      using rear cut(3,4) stop by (auto simp: rgn_base_def rgn_end_def)
    moreover have "range_ok ?q"
      using q old ins start rear less by (auto simp: range_ok_def rgn_base_def rgn_end_def)
    moreover have "range_inside ?q (b, s)"
      using q ins less by (simp add: range_inside_def)
    moreover have "range_addrs (b, s) - range_addrs ?q = range_addrs (base, sz)"
      using q ins stop rear less by (auto simp: range_addrs_def)
    ultimately obtain rgn' where "rgn_put rgn i ?q = Some rgn'" "rgn_ok rgn'"
      "rgn_addrs rgn' = rgn_addrs rgn - range_addrs (base, sz)"
      using free_cut [OF ok i bs, of ?q] by auto
    with that [of 0 rgn'] rear i at show thesis by (simp add: unfold)
  next
    case split
    then have "rgn_base (b, s) < rgn_base (base, sz)" "rgn_end (base, sz) < rgn_end (b, s)"
      using ins start stop by auto
    then obtain rgn1 ret rgn' where "rgn_put rgn i (b, base - b) = Some rgn1"
      "lmb_add_region rgn1 (base + sz) (b + s - (base + sz)) = Some (ret, rgn')"
      "0 \<le> ret \<Longrightarrow> rgn_ok rgn' \<and> rgn_addrs rgn' = rgn_addrs rgn - range_addrs (base, sz)"
      "ret < 0 \<Longrightarrow> unat (rgn_cnt rgn) = MAX_LMB_REGIONS \<and> rgn_ok rgn' \<and>
        rgn_addrs rgn' = rgn_addrs rgn - {rgn_base (base, sz)..<rgn_end (b, s)}"
      by (rule free_split [OF ok new i bs]) (rule that)
    with that [of ret rgn'] split i at show thesis
      by (cases "0 \<le> ret") (simp_all add: unfold)
  qed
qed

section \<open>Alignment\<close>

lemma align_down_nat: "unat (lmb_align_down addr (2 ^ k)) = unat addr div 2 ^ k * 2 ^ k"
proof -
  have "lmb_align_down addr (2 ^ k) = push_bit k (drop_bit k addr)"
    unfolding lmb_align_down_def mask_eq_exp_minus_1 [symmetric]
    by (rule bit_word_eqI) (auto simp: bit_simps)
  also have "unat \<dots> = take_bit 32 (push_bit k (drop_bit k (unat addr)))"
    by (simp add: unsigned_push_bit_eq unsigned_drop_bit_eq take_bit_nat_eq_self unat_u32_less [simplified])
  also have "\<dots> = take_bit 32 (unat addr div 2 ^ k * 2 ^ k)"
    by (simp add: push_bit_eq_mult drop_bit_eq_div)
  also have "\<dots> = unat addr div 2 ^ k * 2 ^ k"
    by (rule take_bit_nat_eq_self) (rule order_le_less_trans [OF div_times_less_eq_dividend unat_u32_less])
  finally show ?thesis .
qed

lemma align_up_nat:
  assumes "k < 32" and "2 ^ k dvd unat sz"
  shows "lmb_align_up sz (2 ^ k) = sz"
proof -
  have "(2::nat) ^ k < 2 ^ 32"
    using assms(1) by (rule power_strict_increasing) simp
  then have "unat (of_nat (2 ^ k) :: u32) = 2 ^ k"
    using assms(1) by (simp only: unsigned_of_nat) (simp add: take_bit_nat_eq_self)
  then have two: "unat (2 ^ k :: u32) = 2 ^ k"
    by simp
  have "(2::nat) ^ k dvd 2 ^ 32"
    using assms(1) by (intro le_imp_power_dvd) simp
  then have "2 ^ k dvd 2 ^ 32 - unat sz"
    using assms(2) by (rule dvd_diff_nat)
  then have "2 ^ k \<le> 2 ^ 32 - unat sz"
    using unat_u32_less [of sz] by (intro dvd_imp_le) auto
  moreover have "(0::nat) < 2 ^ k"
    by simp
  ultimately have le: "unat sz + (2 ^ k - 1) < 2 ^ 32"
    by linarith
  have "unat (2 ^ k - 1 :: u32) = 2 ^ k - 1"
    by (subst unat_sub) (simp_all add: two word_le_nat_alt)
  then have "unat (sz + (2 ^ k - 1)) = unat sz + (2 ^ k - 1)"
    using le by (simp add: unat_word_ariths)
  moreover have "lmb_align_up sz (2 ^ k) = lmb_align_down (sz + (2 ^ k - 1)) (2 ^ k)"
    by (simp add: lmb_align_up_def lmb_align_down_def)
  ultimately have "unat (lmb_align_up sz (2 ^ k)) = (unat sz + (2 ^ k - 1)) div 2 ^ k * 2 ^ k"
    by (simp add: align_down_nat)
  also have "\<dots> = unat sz"
  proof -
    obtain m where m: "unat sz = 2 ^ k * m"
      using assms(2) by (elim dvdE)
    have "(2 ^ k * m + (2 ^ k - 1)) div 2 ^ k = m + (2 ^ k - 1) div (2 ^ k :: nat)"
      by (rule div_mult_self4) simp
    then show ?thesis
      by (simp add: m)
  qed
  finally show ?thesis
    by (simp add: word_unat_eq_iff)
qed

lemma align_down_greatest: "2 ^ k dvd a \<Longrightarrow> a \<le> unat addr \<Longrightarrow> a \<le> unat (lmb_align_down addr (2 ^ k))"
  unfolding align_down_nat by (auto elim!: dvdE simp: less_eq_div_iff_mult_less_eq mult.commute)

section \<open>The accesses stay inside the array\<close>

lemma rgn_put_room:
  "rgn_room rgn \<Longrightarrow> i < unat (rgn_cnt rgn) \<Longrightarrow>
   \<exists>rgn'. rgn_put rgn i p = Some rgn' \<and> rgn_room rgn' \<and> rgn_cnt rgn' = rgn_cnt rgn"
  by (rule rgn_put_entry [of rgn i p]) auto

lemma scan_loop_room:
  assumes "rgn_room rgn"
  shows "\<exists>r. lmb_scan_loop rgn base sz i = Some r \<and>
    (\<forall>j rgn'. r = Scan_joined j rgn' \<longrightarrow> j < unat (rgn_cnt rgn) \<and> rgn_room rgn' \<and> rgn_cnt rgn' = rgn_cnt rgn)"
proof (induction "unat (rgn_cnt rgn) - i" arbitrary: i)
  case 0
  then show ?case by (simp add: lmb_scan_loop.simps [of rgn base sz i])
next
  case (Suc n)
  then have i: "i < unat (rgn_cnt rgn)" and IH: "n = unat (rgn_cnt rgn) - Suc i"
    by simp_all
  obtain b s where at: "rgn_at rgn i = Some (b, s)"
    using rgn_at_entry [OF assms i] by (cases "rgn_entries rgn ! i") simp
  obtain l r where "rgn_put rgn i (b - sz, s + sz) = Some l" "rgn_room l" "rgn_cnt l = rgn_cnt rgn"
    "rgn_put rgn i (b, s + sz) = Some r" "rgn_room r" "rgn_cnt r = rgn_cnt rgn"
    using rgn_put_room [OF assms i] by blast
  then show ?case
    using Suc(1) [OF IH] i at by (auto simp: lmb_scan_loop.simps [of rgn base sz i] Let_def)
qed

lemma join_next_room:
  assumes room: "rgn_room rgn"
  shows "\<exists>again rgn'. lmb_join_next rgn i = Some (again, rgn') \<and> rgn_room rgn' \<and>
    (again \<longrightarrow> i < unat (rgn_cnt rgn))"
proof (cases "i < unat (rgn_cnt rgn - 1)")
  case False
  then show ?thesis
    using room by (auto simp: lmb_join_next_def)
next
  case True
  have "unat (rgn_cnt rgn - 1) = unat (rgn_cnt rgn) - 1"
    using room by (subst unat_sub) (auto simp: rgn_room_def word_le_nat_alt word_less_nat_alt)
  then have i: "Suc i < unat (rgn_cnt rgn)" "i < unat (rgn_cnt rgn)"
    using True by simp_all
  obtain b1 s1 b2 s2 where at: "rgn_at rgn i = Some (b1, s1)" "rgn_at rgn (Suc i) = Some (b2, s2)"
    using rgn_at_entry [OF room i(1)] rgn_at_entry [OF room i(2)]
    by (cases "rgn_entries rgn ! i", cases "rgn_entries rgn ! Suc i") simp
  obtain rgn1 where rgn1: "rgn_put rgn i (b1, s1 + s2) = Some rgn1" "rgn_room rgn1" "rgn_cnt rgn1 = rgn_cnt rgn"
    using rgn_put_room [OF room i(2)] by blast
  have "1 < rgn_cnt rgn1"
    using i(1) rgn1(3) by (simp add: word_less_nat_alt)
  then obtain rgn2 where "lmb_remove_region rgn1 (Suc i) = Some rgn2" "rgn_room rgn2"
    using i(1) rgn1(2,3) by (elim remove_entry [of rgn1 "Suc i"]) auto
  then show ?thesis
    using True at rgn1(1) i room
    by (auto simp: lmb_join_next_def lmb_regions_adjacent_def lmb_coalesce_regions_def)
qed

lemma insert_room:
  assumes room: "rgn_room rgn" and "unat (rgn_cnt rgn) < MAX_LMB_REGIONS"
  shows "\<exists>rgn'. lmb_insert rgn base sz = Some rgn' \<and> rgn_room rgn'"
proof -
  let ?R = "rgn_region rgn" and ?n = "unat (rgn_cnt rgn)"
  have len: "length ?R = 9" "0 < ?n" "?n < 8"
    using assms by (auto simp: rgn_room_def MAX_LMB_REGIONS_def word_less_nat_alt)
  obtain xs ys where xy: "take ?n ?R = xs @ ys" "lmb_insert_loop rgn base sz ?n =
    Some (rgn\<lparr>rgn_region := (if xs = [] then [?R ! 0] else xs @ [(base, sz)]) @ ys @ drop (Suc ?n) ?R\<rparr>)"
    using insert_loop [of ?n rgn base sz] len by auto
  define R' where "R' = (if xs = [] then [?R ! 0] else xs @ [(base, sz)]) @ ys @ drop (Suc ?n) ?R"
  have "length (take ?n ?R) = length (xs @ ys)"
    by (simp only: xy(1))
  then have R': "length R' = 9"
    using len by (simp add: R'_def)
  then have ne: "R' \<noteq> []"
    by auto
  have cnt: "unat (rgn_cnt rgn + 1) = Suc ?n"
    using len by (simp add: unat_word_ariths)
  obtain b0 s0 where "R' ! 0 = (b0, s0)"
    by (cases "R' ! 0")
  then have "lmb_insert rgn base sz =
    Some (rgn\<lparr>rgn_region := if base < b0 then R'[0 := (base, sz)] else R', rgn_cnt := rgn_cnt rgn + 1\<rparr>)"
    using ne by (simp add: lmb_insert_def xy(2) R'_def [symmetric] rgn_at_def rgn_put_def)
  then show ?thesis
    using R' len cnt by (auto simp: rgn_room_def MAX_LMB_REGIONS_def word_less_nat_alt)
qed

lemma add_region_room:
  assumes room: "rgn_room rgn"
  shows "\<exists>ret rgn'. lmb_add_region rgn base sz = Some (ret, rgn') \<and> rgn_room rgn' \<and>
    (ret < 0 \<longrightarrow> rgn' = rgn \<and> unat (rgn_cnt rgn) = MAX_LMB_REGIONS)"
proof -
  have pos: "0 < unat (rgn_cnt rgn)" and max: "unat (rgn_cnt rgn) \<le> MAX_LMB_REGIONS"
    using room by (auto simp: rgn_room_def word_less_nat_alt)
  obtain b0 s0 where at: "rgn_at rgn 0 = Some (b0, s0)"
    using rgn_at_entry [OF room pos] by (cases "rgn_entries rgn ! 0") simp
  obtain rgn0 where rgn0: "rgn_put rgn 0 (base, sz) = Some rgn0" "rgn_room rgn0"
    using rgn_put_room [OF room pos] by blast
  obtain r where r: "lmb_scan_loop rgn base sz 0 = Some r"
    "\<forall>j rgn'. r = Scan_joined j rgn' \<longrightarrow> j < unat (rgn_cnt rgn) \<and> rgn_room rgn' \<and> rgn_cnt rgn' = rgn_cnt rgn"
    using scan_loop_room [OF room] by blast
  note start = lmb_add_region_def [of rgn base sz, unfolded at]
  show ?thesis
  proof (cases "rgn_cnt rgn = 1 \<and> s0 = 0")
    case True
    then show ?thesis
      using rgn0 by (simp add: start)
  next
    case False
    show ?thesis
    proof (cases r)
      case Scan_same
      with False r room show ?thesis by (auto simp: start)
    next
      case (Scan_joined j rgn1)
      with r(2) obtain again rgn2 where "lmb_join_next rgn1 j = Some (again, rgn2)" "rgn_room rgn2"
        using join_next_room [of rgn1 j] by blast
      with False Scan_joined r(1) show ?thesis by (auto simp: start)
    next
      case Scan_none
      obtain rgn1 where "lmb_join_next rgn (unat (rgn_cnt rgn)) = Some (False, rgn1)"
        using join_next_room [OF room, of "unat (rgn_cnt rgn)"] by auto
      moreover obtain rgn2 where "unat (rgn_cnt rgn) < MAX_LMB_REGIONS \<longrightarrow>
        lmb_insert rgn base sz = Some rgn2 \<and> rgn_room rgn2"
        using insert_room [OF room] by blast
      ultimately show ?thesis
        using False Scan_none r(1) room max by (auto simp: start not_le)
    qed
  qed
qed

text \<open>Removing the last entry leaves the array as it is.\<close>

lemma remove_only: "rgn_cnt rgn = 1 \<Longrightarrow> lmb_remove_region rgn 0 = Some (rgn\<lparr>rgn_cnt := 0\<rparr>)"
  by (simp add: lmb_remove_region_def lmb_shift_down.simps)

lemma remove_room:
  assumes "rgn_room rgn" and "i < unat (rgn_cnt rgn)"
  shows "\<exists>rgn'. lmb_remove_region rgn i = Some rgn' \<and> (rgn_cnt rgn' \<noteq> 0 \<longrightarrow> rgn_room rgn')"
proof (cases "1 < rgn_cnt rgn")
  case True
  then show ?thesis
    by (rule remove_entry [OF assms]) auto
next
  case False
  then have "unat (rgn_cnt rgn) = 1" "i = 0"
    using assms(2) by (simp_all add: word_less_nat_alt)
  then show ?thesis
    using remove_only [of rgn] by (simp add: word_unat_eq_iff)
qed

lemma free_region_room:
  assumes room: "rgn_room rgn"
  shows "\<exists>ret rgn'. lmb_free_region rgn base sz = Some (ret, rgn') \<and> (rgn_cnt rgn' \<noteq> 0 \<longrightarrow> rgn_room rgn')"
proof -
  obtain i where find: "lmb_find_loop rgn base (base + sz) 0 = Some i"
    and cases: "i < unat (rgn_cnt rgn) \<or> i = unat (rgn_cnt rgn)"
    using find_loop [OF room, of base "base + sz" 0] by auto
  note unfold = lmb_free_region_def [of rgn base sz, unfolded Let_def find]
  from cases show ?thesis
  proof
    assume "i = unat (rgn_cnt rgn)"
    then show ?thesis
      using room by (simp add: unfold)
  next
    assume i: "i < unat (rgn_cnt rgn)"
    obtain b s where at: "rgn_at rgn i = Some (b, s)"
      using rgn_at_entry [OF room i] by (cases "rgn_entries rgn ! i") simp
    obtain rgn1 rgn2 rgn3 rgn4 where
      "lmb_remove_region rgn i = Some rgn1" "rgn_cnt rgn1 \<noteq> 0 \<longrightarrow> rgn_room rgn1"
      "rgn_put rgn i (base + sz, s - sz) = Some rgn2" "rgn_room rgn2"
      "rgn_put rgn i (b, s - sz) = Some rgn3" "rgn_room rgn3"
      "rgn_put rgn i (b, base - b) = Some rgn4" "rgn_room rgn4"
      using remove_room [OF room i] rgn_put_room [OF room i] by metis
    moreover obtain ret rgn5 where "lmb_add_region rgn4 (base + sz) (b + s - (base + sz)) = Some (ret, rgn5)" "rgn_room rgn5"
      using add_region_room [OF \<open>rgn_room rgn4\<close>] by blast
    ultimately show ?thesis
      using i at by (simp add: unfold)
  qed
qed

section \<open>Searching for a free block\<close>

text \<open>The table of reserved ranges right after \<^verbatim>\<open>lmb_init\<close>, and the states of the allocator.\<close>

definition rgn_fresh :: "lmb_region \<Rightarrow> bool" where
  "rgn_fresh rgn \<longleftrightarrow> rgn_room rgn \<and> rgn_entries rgn = [(0, 0)]"

definition lmb_ok :: "lmb \<Rightarrow> bool" where
  "lmb_ok l \<longleftrightarrow> rgn_ok (lmb_memory l) \<and> (rgn_ok (lmb_reserved l) \<or> rgn_fresh (lmb_reserved l))"

lemma fresh_dummy: "rgn_fresh rgn \<Longrightarrow> rgn_dummy rgn"
proof -
  assume fresh: "rgn_fresh rgn"
  then have room: "rgn_room rgn" and es: "rgn_entries rgn = [(0, 0)]"
    by (simp_all add: rgn_fresh_def)
  then have "unat (rgn_cnt rgn) = 1"
    using rgn_room_length [OF room] by simp
  then have one: "rgn_cnt rgn = 1"
    by (simp add: word_unat_eq_iff)
  then have "rgn_region rgn ! 0 = (0, 0)"
    using es by (cases "rgn_region rgn") (simp_all add: rgn_entries_def)
  with room one show ?thesis
    by (simp add: rgn_dummy_def)
qed

lemma reserved_room: "rgn_ok rgn \<or> rgn_fresh rgn \<Longrightarrow> rgn_room rgn"
  by (auto simp: rgn_ok_def rgn_fresh_def)

lemma disjoint_away:
  assumes "rgn_ok rgn" and "range_ok q"
  shows "range_addrs q \<inter> rgn_addrs rgn = {} \<longleftrightarrow> (\<forall>p\<in>set (rgn_entries rgn). ranges_apart q p)"
  using assms range_apart [of q] by (auto simp: rgn_addrs_def rgn_ok_def ranges_ok_def)

lemma add_reserved:
  assumes ok: "rgn_ok rgn \<or> rgn_fresh rgn" and new: "range_ok (base, sz)"
    and free: "range_addrs (base, sz) \<inter> rgn_addrs rgn = {}"
  obtains ret rgn' where "lmb_add_region rgn base sz = Some (ret, rgn')"
    and "0 \<le> ret \<Longrightarrow> rgn_ok rgn' \<and> rgn_addrs rgn' = rgn_addrs rgn \<union> range_addrs (base, sz)"
    and "ret < 0 \<Longrightarrow> rgn' = rgn \<and> unat (rgn_cnt rgn) = MAX_LMB_REGIONS"
proof (cases "rgn_ok rgn")
  case True
  then show thesis
    using free disjoint_away [OF True new] by (elim add_region [OF _ new]) (auto intro: that)
next
  case False
  with ok have fresh: "rgn_fresh rgn" by simp
  then have "rgn_addrs rgn = {}"
    by (simp add: rgn_fresh_def rgn_addrs_def range_addrs_def rgn_base_def rgn_end_def)
  then show thesis
    using add_region_dummy [OF fresh_dummy [OF fresh] new] that by (metis order_less_irrefl sup_bot_left)
qed

lemma overlap_apart:
  assumes "range_ok (b1, s1)" and "range_ok (b2, s2)"
  shows "lmb_addrs_overlap b1 s1 b2 s2 \<longleftrightarrow> \<not> ranges_apart (b1, s1) (b2, s2)"
  using range_end_word [OF assms(1)] range_end_word [OF assms(2)]
  by (auto simp: lmb_addrs_overlap_def ranges_apart_def rgn_base_def word_less_nat_alt)

lemma overlaps_loop_room:
  assumes "rgn_room rgn"
  shows "lmb_overlaps_loop rgn base sz k = Some (-1) \<and>
      (\<forall>p\<in>set (drop k (rgn_entries rgn)). \<not> lmb_addrs_overlap base sz (fst p) (snd p)) \<or>
    (\<exists>j b s. lmb_overlaps_loop rgn base sz k = Some (int j) \<and> rgn_at rgn j = Some (b, s) \<and>
      (b, s) \<in> set (rgn_entries rgn) \<and> lmb_addrs_overlap base sz b s)"
proof (induction "unat (rgn_cnt rgn) - k" arbitrary: k)
  case 0
  then show ?case
    using assms by (simp add: lmb_overlaps_loop.simps [of rgn base sz k])
next
  case (Suc n)
  then have k: "k < unat (rgn_cnt rgn)" and IH: "n = unat (rgn_cnt rgn) - Suc k"
    by simp_all
  obtain b s where p: "rgn_entries rgn ! k = (b, s)"
    by (cases "rgn_entries rgn ! k")
  have at: "rgn_at rgn k = Some (b, s)"
    using k assms p by (simp add: rgn_at_entry)
  have mem: "(b, s) \<in> set (rgn_entries rgn)"
    using k assms p nth_mem [of k "rgn_entries rgn"] by simp
  have "drop k (rgn_entries rgn) = (b, s) # drop (Suc k) (rgn_entries rgn)"
    using k assms p by (simp add: Cons_nth_drop_Suc [symmetric])
  moreover have "lmb_overlaps_loop rgn base sz k =
    (if lmb_addrs_overlap base sz b s then Some (int k) else lmb_overlaps_loop rgn base sz (Suc k))"
    using k at by (simp add: lmb_overlaps_loop.simps [of rgn base sz k])
  ultimately show ?case
    using Suc(1) [OF IH] at mem by (cases "lmb_addrs_overlap base sz b s") auto
qed

lemma overlaps_region:
  assumes ok: "rgn_ok rgn \<or> rgn_fresh rgn" and new: "range_ok (base, sz)"
  shows "lmb_overlaps_region rgn base sz = Some (-1) \<and> range_addrs (base, sz) \<inter> rgn_addrs rgn = {} \<or>
    (\<exists>j b s. lmb_overlaps_region rgn base sz = Some (int j) \<and> rgn_at rgn j = Some (b, s) \<and>
      (b, s) \<in> set (rgn_entries rgn) \<and> range_ok (b, s) \<and> \<not> ranges_apart (base, sz) (b, s))"
proof -
  note loop = overlaps_loop_room [OF reserved_room [OF ok], of base sz 0]
  show ?thesis
  proof (cases "rgn_ok rgn")
    case True
    then have ranges: "range_ok p" if "p \<in> set (rgn_entries rgn)" for p
      using that by (auto simp: rgn_ok_def intro: ranges_ok_member)
    show ?thesis
      using loop ranges overlap_apart [OF new] disjoint_away [OF True new]
      unfolding lmb_overlaps_region_def by fastforce
  next
    case False
    then have "rgn_entries rgn = [(0, 0)]"
      using ok by (simp add: rgn_fresh_def)
    then show ?thesis
      using loop
      by (auto simp: lmb_overlaps_region_def lmb_addrs_overlap_def rgn_addrs_def range_addrs_def rgn_base_def rgn_end_def)
  qed
qed

text \<open>
  \<open>block_free\<close>: an aligned block at \<open>a\<close> inside the memory range \<open>m\<close>, below \<open>limit\<close>, of
  which nothing is reserved.
\<close>

definition block_free :: "lmb \<Rightarrow> lmb_property \<Rightarrow> nat \<Rightarrow> u32 \<Rightarrow> nat \<Rightarrow> u32 \<Rightarrow> bool" where
  "block_free l m limit sz k a \<longleftrightarrow> a \<noteq> 0 \<and> 2 ^ k dvd unat a \<and> rgn_base m \<le> unat a \<and>
    unat a + unat sz \<le> limit \<and> range_addrs (a, sz) \<inter> rgn_addrs (lmb_reserved l) = {}"

definition alloc_at :: "lmb \<Rightarrow> u32 \<Rightarrow> nat \<Rightarrow> u32 \<Rightarrow> u32 \<times> lmb \<Rightarrow> bool" where
  "alloc_at l sz k a r \<longleftrightarrow>
    (\<exists>ret rgn. lmb_add_region (lmb_reserved l) a (lmb_align_up sz (2 ^ k)) = Some (ret, rgn) \<and>
      r = (if ret < 0 then 0 else a, l\<lparr>lmb_reserved := rgn\<rparr>))"

lemma reserved_apart:
  assumes "(b, s) \<in> set (rgn_entries rgn)" and "range_ok (b, s)" and "range_ok (a, sz)"
    and "range_addrs (a, sz) \<inter> rgn_addrs rgn = {}"
  shows "ranges_apart (a, sz) (b, s)"
  using assms range_apart [OF assms(3,2)] by (auto simp: rgn_addrs_def)

lemma block_below:
  assumes entry: "(b, s) \<in> set (rgn_entries (lmb_reserved l))" "range_ok (b, s)"
    and taken: "\<not> ranges_apart (base, sz) (b, s)" and free: "block_free l m limit sz k a"
    and "sz \<noteq> 0" and "limit < 2 ^ 32" and "a \<le> base"
  shows "unat a + unat sz \<le> unat b"
proof -
  have "range_ok (a, sz)"
    using assms(4-6) by (simp add: range_ok_def rgn_end_def block_free_def)
  then have "ranges_apart (a, sz) (b, s)"
    using free entry by (auto simp: block_free_def intro: reserved_apart)
  then show ?thesis
    using taken assms(7) by (auto simp: ranges_apart_def rgn_base_def rgn_end_def word_le_nat_alt)
qed

lemma alloc_try:
  assumes ok: "rgn_ok (lmb_reserved l) \<or> rgn_fresh (lmb_reserved l)" and sz: "sz \<noteq> 0"
    and limit: "limit < 2 ^ 32" and base: "unat base + unat sz \<le> limit" "2 ^ k dvd unat base"
    and top: "\<forall>a. block_free l (lmbbase, lmbsize) limit sz k a \<longrightarrow> a \<le> base"
  shows "lmb_alloc_try l sz (2 ^ k) lmbbase base = Some Try_next \<and>
      (\<forall>a. \<not> block_free l (lmbbase, lmbsize) limit sz k a) \<or>
    (\<exists>a r l'. block_free l (lmbbase, lmbsize) limit sz k a \<and> alloc_at l sz k a (r, l') \<and>
      lmb_alloc_try l sz (2 ^ k) lmbbase base = Some (Try_return r l'))"
  using base top
proof (induction "unat base" arbitrary: base rule: less_induct)
  case less
  note unfold = lmb_alloc_try.simps [of l sz "2 ^ k" lmbbase base]
  let ?free = "block_free l (lmbbase, lmbsize) limit sz k"
  show ?case
  proof (cases "base \<noteq> 0 \<and> lmbbase \<le> base")
    case False
    have "\<not> ?free a" for a
    proof
      assume a: "?free a"
      then have "a \<le> base" "a \<noteq> 0" "lmbbase \<le> a"
        using less(4) by (auto simp: block_free_def rgn_base_def word_le_nat_alt)
      with False show False by auto
    qed
    moreover have "lmb_alloc_try l sz (2 ^ k) lmbbase base = Some Try_next"
      unfolding unfold using False by (rule if_not_P)
    ultimately show ?thesis by simp
  next
    case True
    have new: "range_ok (base, sz)"
      using sz limit less(2) by (simp add: range_ok_def rgn_end_def)
    consider (free) "lmb_overlaps_region (lmb_reserved l) base sz = Some (-1)"
        "range_addrs (base, sz) \<inter> rgn_addrs (lmb_reserved l) = {}"
      | (taken) j b s where "lmb_overlaps_region (lmb_reserved l) base sz = Some (int j)"
        "rgn_at (lmb_reserved l) j = Some (b, s)" "(b, s) \<in> set (rgn_entries (lmb_reserved l))"
        "range_ok (b, s)" "\<not> ranges_apart (base, sz) (b, s)"
      using overlaps_region [OF ok new] by blast
    then show ?thesis
    proof cases
      case free
      have "?free base"
        using True less(2,3) free(2) by (simp add: block_free_def rgn_base_def word_le_nat_alt)
      moreover obtain ret rgn where "lmb_add_region (lmb_reserved l) base (lmb_align_up sz (2 ^ k)) = Some (ret, rgn)"
        using add_region_room [OF reserved_room [OF ok]] by blast
      ultimately show ?thesis
        using True free(1) by (auto simp: unfold alloc_at_def)
    next
      case taken
      have below: "unat a + unat sz \<le> unat b" if "?free a" for a
        using block_below [OF taken(3,4,5) that sz limit] less(4) that by blast
      show ?thesis
      proof (cases "b < sz")
        case small: True
        then have "\<not> ?free a" for a
          using below [of a] by (auto simp: word_less_nat_alt)
        with small True taken(1,2) show ?thesis by (simp add: unfold)
      next
        case False
        let ?next = "lmb_align_down (b - sz) (2 ^ k)"
        have sub: "unat (b - sz) = unat b - unat sz"
          using False by (intro unat_sub) (simp add: not_less)
        have le: "unat ?next \<le> unat b - unat sz"
          using align_down_le [of "b - sz" "2 ^ k"] sub by (simp add: word_le_nat_alt)
        have b: "unat sz \<le> unat b" "unat b < unat base + unat sz"
          using False taken(5) by (auto simp: not_less word_le_nat_alt ranges_apart_def rgn_base_def rgn_end_def)
        have "a \<le> ?next" if "?free a" for a
          using align_down_greatest [of k "unat a" "b - sz"] below [OF that] that sub
          by (simp add: block_free_def word_le_nat_alt)
        moreover have "unat ?next < unat base" "unat ?next + unat sz \<le> limit" "2 ^ k dvd unat ?next"
          using le b less(2) by (simp_all add: align_down_nat)
        ultimately show ?thesis
          using less(1) [of ?next] False True taken(1,2) by (simp add: unfold)
      qed
    qed
  qed
qed


section \<open>Allocation\<close>

definition alloc_limit :: "u32 \<Rightarrow> lmb_property \<Rightarrow> nat" where
  "alloc_limit max_addr m =
    (if max_addr = LMB_ALLOC_ANYWHERE then rgn_end m else min (rgn_end m) (unat max_addr))"

lemma alloc_start:
  assumes m: "range_ok (lmbbase, lmbsize)" and sz: "sz \<noteq> 0"
    and max: "max_addr = LMB_ALLOC_ANYWHERE \<or> sz \<le> max_addr"
  shows "lmb_alloc_start lmbbase lmbsize sz (2 ^ k) max_addr = None \<and>
      (\<forall>a. \<not> block_free l (lmbbase, lmbsize) (alloc_limit max_addr (lmbbase, lmbsize)) sz k a) \<or>
    (\<exists>base. lmb_alloc_start lmbbase lmbsize sz (2 ^ k) max_addr = Some base \<and>
      unat base + unat sz \<le> alloc_limit max_addr (lmbbase, lmbsize) \<and> 2 ^ k dvd unat base \<and>
      (\<forall>a. block_free l (lmbbase, lmbsize) (alloc_limit max_addr (lmbbase, lmbsize)) sz k a \<longrightarrow> a \<le> base))"
proof -
  let ?m = "(lmbbase, lmbsize)" and ?limit = "alloc_limit max_addr (lmbbase, lmbsize)"
  have pos: "0 < unat sz"
    using sz by (simp add: unat_gt_0)
  have top: "unat (lmbbase + lmbsize) = rgn_end ?m"
    by (rule range_end_word [OF m])
  consider (small) "lmbsize < sz" | (above) "max_addr \<noteq> LMB_ALLOC_ANYWHERE" "max_addr \<le> lmbbase"
    | (search) "sz \<le> lmbsize" "max_addr = LMB_ALLOC_ANYWHERE \<or> lmbbase < max_addr"
    by force
  then show ?thesis
  proof cases
    case small
    then have "\<not> block_free l ?m ?limit sz k a" for a
      by (auto simp: block_free_def alloc_limit_def rgn_base_def rgn_end_def word_less_nat_alt)
    with small show ?thesis by (simp add: lmb_alloc_start_def)
  next
    case above
    then have "\<not> block_free l ?m ?limit sz k a" for a
      using pos by (auto simp: block_free_def alloc_limit_def rgn_base_def word_le_nat_alt)
    with above show ?thesis by (auto simp: lmb_alloc_start_def)
  next
    case search
    define e where "e = (if max_addr = LMB_ALLOC_ANYWHERE then lmbbase + lmbsize else min (lmbbase + lmbsize) max_addr)"
    have e: "unat e = ?limit"
      using top by (auto simp: e_def alloc_limit_def min_def word_le_nat_alt)
    have "sz \<le> lmbbase + lmbsize"
      using search(1) top by (simp add: word_le_nat_alt rgn_end_def)
    then have "sz \<le> e"
      using max by (auto simp: e_def min_def)
    then have sub: "unat (e - sz) = ?limit - unat sz" and le: "unat sz \<le> ?limit"
      using e by (simp_all add: unat_sub word_le_nat_alt)
    have "lmb_alloc_start lmbbase lmbsize sz (2 ^ k) max_addr = Some (lmb_align_down (e - sz) (2 ^ k))"
      using search by (auto simp: lmb_alloc_start_def e_def not_less)
    moreover have "unat (lmb_align_down (e - sz) (2 ^ k)) + unat sz \<le> ?limit"
      using align_down_le [of "e - sz" "2 ^ k"] sub le by (simp add: word_le_nat_alt)
    moreover have "a \<le> lmb_align_down (e - sz) (2 ^ k)" if "block_free l ?m ?limit sz k a" for a
      using align_down_greatest [of k "unat a" "e - sz"] that sub
      by (auto simp: block_free_def word_le_nat_alt)
    ultimately show ?thesis
      by (simp add: align_down_nat)
  qed
qed

lemma alloc_loop:
  assumes ok: "lmb_ok l" and sz: "sz \<noteq> 0" and max: "max_addr = LMB_ALLOC_ANYWHERE \<or> sz \<le> max_addr"
    and n: "n \<le> unat (rgn_cnt (lmb_memory l))"
  shows "lmb_alloc_loop l sz (2 ^ k) max_addr n = Some (0, l) \<and>
      (\<forall>m\<in>set (take n (rgn_entries (lmb_memory l))). \<forall>a. \<not> block_free l m (alloc_limit max_addr m) sz k a) \<or>
    (\<exists>m\<in>set (rgn_entries (lmb_memory l)). \<exists>a r. block_free l m (alloc_limit max_addr m) sz k a \<and>
      alloc_at l sz k a r \<and> lmb_alloc_loop l sz (2 ^ k) max_addr n = Some r)"
  using n
proof (induction n)
  case 0
  then show ?case by simp
next
  case (Suc i)
  have mem: "rgn_room (lmb_memory l)" "ranges_ok (rgn_entries (lmb_memory l))"
    and res: "rgn_ok (lmb_reserved l) \<or> rgn_fresh (lmb_reserved l)"
    using ok by (simp_all add: lmb_ok_def rgn_ok_def)
  obtain b s where p: "rgn_entries (lmb_memory l) ! i = (b, s)"
    by (cases "rgn_entries (lmb_memory l) ! i")
  have at: "rgn_at (lmb_memory l) i = Some (b, s)"
    using Suc(2) mem(1) p by (simp add: rgn_at_entry)
  have bs: "(b, s) \<in> set (rgn_entries (lmb_memory l))"
    using Suc(2) mem(1) p nth_mem [of i "rgn_entries (lmb_memory l)"] by simp
  have range: "range_ok (b, s)"
    by (rule ranges_ok_member [OF mem(2) bs])
  have take: "take (Suc i) (rgn_entries (lmb_memory l)) = take i (rgn_entries (lmb_memory l)) @ [(b, s)]"
    using Suc(2) mem(1) p by (simp add: take_Suc_conv_app_nth)
  let ?limit = "alloc_limit max_addr (b, s)"
  have limit: "?limit < 2 ^ 32"
    using range by (auto simp: alloc_limit_def range_ok_def min_def)
  note IH = Suc(1) [OF Suc_leD [OF Suc(2)]]
  from alloc_start [OF range sz max, of k l] show ?case
  proof (elim disjE conjE exE)
    assume "lmb_alloc_start b s sz (2 ^ k) max_addr = None" "\<forall>a. \<not> block_free l (b, s) ?limit sz k a"
    then show ?thesis using IH at by (auto simp: take)
  next
    fix base
    assume start: "lmb_alloc_start b s sz (2 ^ k) max_addr = Some base"
      and base: "unat base + unat sz \<le> ?limit" "2 ^ k dvd unat base"
        "\<forall>a. block_free l (b, s) ?limit sz k a \<longrightarrow> a \<le> base"
    show ?thesis
      using alloc_try [OF res sz limit base] IH at start bs by (auto simp: take)
  qed
qed

text \<open>
  \<open>lmb_fits\<close> says that a block of \<open>sz\<close> bytes at \<open>a\<close> answers a request with alignment
  \<open>2 ^ k\<close> and bound \<open>max_addr\<close> (0 for none): it is aligned, inside one memory range, below
  the bound, and none of its addresses is reserved.
\<close>

definition lmb_fits :: "lmb \<Rightarrow> u32 \<Rightarrow> nat \<Rightarrow> u32 \<Rightarrow> u32 \<Rightarrow> bool" where
  "lmb_fits l sz k max_addr a \<longleftrightarrow> a \<noteq> 0 \<and> 2 ^ k dvd unat a \<and>
    (\<exists>m\<in>set (rgn_entries (lmb_memory l)). range_inside (a, sz) m) \<and>
    (max_addr = LMB_ALLOC_ANYWHERE \<or> unat a + unat sz \<le> unat max_addr) \<and>
    range_addrs (a, sz) \<inter> rgn_addrs (lmb_reserved l) = {}"

lemma fits_block:
  "lmb_fits l sz k max_addr a \<longleftrightarrow>
    (\<exists>m\<in>set (rgn_entries (lmb_memory l)). block_free l m (alloc_limit max_addr m) sz k a)"
  by (auto simp: lmb_fits_def block_free_def alloc_limit_def range_inside_def rgn_base_def rgn_end_def)

lemma fits_range: "lmb_ok l \<Longrightarrow> sz \<noteq> 0 \<Longrightarrow> lmb_fits l sz k max_addr a \<Longrightarrow> range_ok (a, sz)"
  by (auto simp: lmb_ok_def rgn_ok_def lmb_fits_def range_inside_def range_ok_def rgn_end_def
      dest!: ranges_ok_member)

text \<open>The state after a block was given out.\<close>

definition lmb_taken :: "lmb \<Rightarrow> u32 \<Rightarrow> u32 \<Rightarrow> lmb \<Rightarrow> bool" where
  "lmb_taken l a sz l' \<longleftrightarrow> lmb_ok l' \<and>
    rgn_addrs (lmb_reserved l') = rgn_addrs (lmb_reserved l) \<union> range_addrs (a, sz)"

lemma alloc_base:
  assumes ok: "lmb_ok l" and sz: "sz \<noteq> 0" and k: "k < 32"
    and max: "max_addr = LMB_ALLOC_ANYWHERE \<or> sz \<le> max_addr"
  obtains (fails) "lmb_alloc_base l sz (2 ^ k) max_addr = Some (0, l)"
      and "(\<forall>a. \<not> lmb_fits l sz k max_addr a) \<or> unat (rgn_cnt (lmb_reserved l)) = MAX_LMB_REGIONS"
    | (succeeds) a l' where "lmb_alloc_base l sz (2 ^ k) max_addr = Some (a, l')"
      and "lmb_fits l sz k max_addr a" and "lmb_memory l' = lmb_memory l"
      and "range_ok (a, lmb_align_up sz (2 ^ k)) \<Longrightarrow>
        range_addrs (a, lmb_align_up sz (2 ^ k)) \<inter> rgn_addrs (lmb_reserved l) = {} \<Longrightarrow>
        lmb_taken l a (lmb_align_up sz (2 ^ k)) l'"
proof -
  let ?n = "unat (rgn_cnt (lmb_memory l))"
  have room: "rgn_room (lmb_memory l)" and res: "rgn_ok (lmb_reserved l) \<or> rgn_fresh (lmb_reserved l)"
    using ok by (simp_all add: lmb_ok_def rgn_ok_def)
  have "0 < ?n" "?n \<le> 8"
    using room by (auto simp: rgn_room_def MAX_LMB_REGIONS_def word_less_nat_alt)
  moreover from this have "unat (rgn_cnt (lmb_memory l) - 1) = ?n - 1"
    by (subst unat_sub) (auto simp: word_le_nat_alt)
  ultimately have n: "nat (sint (rgn_cnt (lmb_memory l) - 1) + 1) = ?n"
    by (simp add: sint_eq_unat)
  have run: "lmb_alloc_base l sz (2 ^ k) max_addr = lmb_alloc_loop l sz (2 ^ k) max_addr ?n"
    by (simp add: lmb_alloc_base_def lmb_alloc_base_impl_def n)
  consider (none) "lmb_alloc_loop l sz (2 ^ k) max_addr ?n = Some (0, l)" "\<forall>a. \<not> lmb_fits l sz k max_addr a"
    | (found) a r where "lmb_fits l sz k max_addr a" "alloc_at l sz k a r"
      "lmb_alloc_loop l sz (2 ^ k) max_addr ?n = Some r"
    using alloc_loop [OF ok sz max order_refl, of k] room unfolding fits_block by auto
  then show thesis
  proof cases
    case none
    with fails run show thesis by simp
  next
    case found
    then obtain ret rgn where add: "lmb_add_region (lmb_reserved l) a (lmb_align_up sz (2 ^ k)) = Some (ret, rgn)"
      and r: "r = (if ret < 0 then 0 else a, l\<lparr>lmb_reserved := rgn\<rparr>)"
      by (auto simp: alloc_at_def)
    show thesis
    proof (cases "ret < 0")
      case True
      then have "rgn = lmb_reserved l" "unat (rgn_cnt (lmb_reserved l)) = MAX_LMB_REGIONS"
        using add_region_room [OF reserved_room [OF res], of a "lmb_align_up sz (2 ^ k)"] add by auto
      with True fails found(3) r run show thesis by simp
    next
      case False
      have "lmb_taken l a (lmb_align_up sz (2 ^ k)) (l\<lparr>lmb_reserved := rgn\<rparr>)"
        if "range_ok (a, lmb_align_up sz (2 ^ k))"
          "range_addrs (a, lmb_align_up sz (2 ^ k)) \<inter> rgn_addrs (lmb_reserved l) = {}"
        by (rule add_reserved [OF res that])
          (use add False ok in \<open>auto simp: lmb_taken_def lmb_ok_def\<close>)
      with False succeeds [of a "l\<lparr>lmb_reserved := rgn\<rparr>"] found(1,3) r run show thesis by simp
    qed
  qed
qed


text \<open>The accesses of an allocation stay inside the tables, whatever its arguments.\<close>

lemma alloc_try_room:
  assumes "rgn_room (lmb_reserved l)"
  shows "\<exists>r. lmb_alloc_try l sz align lmbbase base = Some r \<and>
    (\<forall>a l'. r = Try_return a l' \<longrightarrow> rgn_room (lmb_reserved l') \<and> lmb_memory l' = lmb_memory l)"
  using assms
proof (induction l sz align lmbbase base rule: lmb_alloc_try.induct)
  case (1 l sz align lmbbase base)
  note unfold = lmb_alloc_try.simps [of l sz align lmbbase base] and room = 1(2)
  consider (stop) "\<not> (base \<noteq> 0 \<and> lmbbase \<le> base)"
    | (none) "base \<noteq> 0 \<and> lmbbase \<le> base" "lmb_overlaps_region (lmb_reserved l) base sz = Some (- 1)"
    | (hit) j b s where "base \<noteq> 0 \<and> lmbbase \<le> base" "lmb_overlaps_region (lmb_reserved l) base sz = Some (int j)"
      "rgn_at (lmb_reserved l) j = Some (b, s)"
    using overlaps_loop_room [OF room, of base sz 0] unfolding lmb_overlaps_region_def by blast
  then show ?case
  proof cases
    case stop
    then have "lmb_alloc_try l sz align lmbbase base = Some Try_next"
      unfolding unfold by (rule if_not_P)
    then show ?thesis by simp
  next
    case none
    obtain ret rgn where "lmb_add_region (lmb_reserved l) base (lmb_align_up sz align) = Some (ret, rgn)" "rgn_room rgn"
      using add_region_room [OF room] by blast
    then show ?thesis
      using none by (simp add: unfold)
  next
    case hit
    show ?thesis
    proof (cases "b < sz")
      case True
      then show ?thesis
        using hit by (simp add: unfold)
    next
      case False
      have "\<exists>r. lmb_alloc_try l sz align lmbbase (lmb_align_down (b - sz) align) = Some r \<and>
        (\<forall>a l'. r = Try_return a l' \<longrightarrow> rgn_room (lmb_reserved l') \<and> lmb_memory l' = lmb_memory l)"
        using 1(1) [of "int j" "(b, s)" b s] hit False room by simp
      moreover have "lmb_alloc_try l sz align lmbbase base =
          lmb_alloc_try l sz align lmbbase (lmb_align_down (b - sz) align)"
        using hit False by (simp add: unfold)
      ultimately show ?thesis by simp
    qed
  qed
qed

lemma alloc_loop_room:
  assumes "rgn_room (lmb_memory l)" and "rgn_room (lmb_reserved l)"
  shows "n \<le> unat (rgn_cnt (lmb_memory l)) \<Longrightarrow> \<exists>a l'. lmb_alloc_loop l sz align max_addr n = Some (a, l') \<and>
    rgn_room (lmb_reserved l') \<and> lmb_memory l' = lmb_memory l"
proof (induction n)
  case 0
  then show ?case using assms by simp
next
  case (Suc i)
  obtain b s where at: "rgn_at (lmb_memory l) i = Some (b, s)"
    using rgn_at_entry [OF assms(1), of i] Suc(2) by (cases "rgn_entries (lmb_memory l) ! i") simp
  show ?case
  proof (cases "lmb_alloc_start b s sz align max_addr")
    case None
    then show ?thesis using Suc at by simp
  next
    case (Some base)
    obtain r where "lmb_alloc_try l sz align b base = Some r"
      "\<forall>a l'. r = Try_return a l' \<longrightarrow> rgn_room (lmb_reserved l') \<and> lmb_memory l' = lmb_memory l"
      using alloc_try_room [OF assms(2)] by blast
    then show ?thesis
      using Suc at Some by (cases r) simp_all
  qed
qed

lemma alloc_base_room:
  assumes "rgn_room (lmb_memory l)" and "rgn_room (lmb_reserved l)"
  shows "\<exists>a l'. lmb_alloc_base l sz align max_addr = Some (a, l') \<and>
    rgn_room (lmb_reserved l') \<and> lmb_memory l' = lmb_memory l"
proof -
  have "unat (rgn_cnt (lmb_memory l) - 1) = unat (rgn_cnt (lmb_memory l)) - 1" "0 < unat (rgn_cnt (lmb_memory l))"
    "unat (rgn_cnt (lmb_memory l)) \<le> 8"
    using assms(1) by (auto simp: unat_sub rgn_room_def MAX_LMB_REGIONS_def word_le_nat_alt word_less_nat_alt)
  then have "nat (sint (rgn_cnt (lmb_memory l) - 1) + 1) \<le> unat (rgn_cnt (lmb_memory l))"
    by (simp add: sint_eq_unat)
  then show ?thesis
    unfolding lmb_alloc_base_def lmb_alloc_base_impl_def by (rule alloc_loop_room [OF assms])
qed

section \<open>The states the loader can reach\<close>

text \<open>
  The tables of a loader that starts with \<^verbatim>\<open>lmb_init\<close> and \<^verbatim>\<open>lmb_add\<close> of a memory range (as
  \<^verbatim>\<open>bootm_start_lmb\<close> does) and goes on with any calls of the interface with any arguments. Left out is only
  what follows a free that leaves no reserved range;
  \<open>lmb_free_last\<close> below says what happens then. The first argument says whether all the calls were
  orderly: a range that is added or reserved is not empty, does not wrap and does not overlap what it is added to, a range
  that is freed is not empty and does not wrap, and an allocation is as \<open>orderly_alloc\<close> says.
\<close>

definition bss_region :: lmb_region where
  "bss_region = \<lparr>rgn_cnt = 0, rgn_size = 0, rgn_region = replicate (MAX_LMB_REGIONS + 1) (0, 0)\<rparr>"

definition orderly_add :: "lmb_region \<Rightarrow> u32 \<Rightarrow> u32 \<Rightarrow> bool" where
  "orderly_add rgn base sz \<longleftrightarrow> range_ok (base, sz) \<and> range_addrs (base, sz) \<inter> rgn_addrs rgn = {}"

text \<open>The search looks for room for the size, but what is reserved is the size rounded up to the alignment;
  an orderly allocation is one whose rounded block is free too.\<close>

definition orderly_alloc :: "lmb \<Rightarrow> u32 \<Rightarrow> u32 \<Rightarrow> u32 \<Rightarrow> u32 \<Rightarrow> bool" where
  "orderly_alloc l sz align max_addr a \<longleftrightarrow> sz \<noteq> 0 \<and> (\<exists>k<32. align = 2 ^ k) \<and>
     (max_addr = LMB_ALLOC_ANYWHERE \<or> sz \<le> max_addr) \<and>
     (a = 0 \<or> orderly_add (lmb_reserved l) a (lmb_align_up sz align))"

inductive lmb_reach :: "bool \<Rightarrow> lmb \<Rightarrow> bool" where
  start: "lmb_init \<lparr>lmb_memory = bss_region, lmb_reserved = bss_region\<rparr> = Some l0 \<Longrightarrow>
    lmb_add l0 base sz = Some (ret, l) \<Longrightarrow> lmb_reach (range_ok (base, sz)) l"
| add: "lmb_reach ord l \<Longrightarrow> lmb_add l base sz = Some (ret, l') \<Longrightarrow>
    lmb_reach (ord \<and> orderly_add (lmb_memory l) base sz) l'"
| reserve: "lmb_reach ord l \<Longrightarrow> lmb_reserve l base sz = Some (ret, l') \<Longrightarrow>
    lmb_reach (ord \<and> orderly_add (lmb_reserved l) base sz) l'"
| free: "lmb_reach ord l \<Longrightarrow> lmb_free l base sz = Some (ret, l') \<Longrightarrow> rgn_cnt (lmb_reserved l') \<noteq> 0 \<Longrightarrow>
    lmb_reach (ord \<and> range_ok (base, sz)) l'"
| alloc: "lmb_reach ord l \<Longrightarrow> lmb_alloc_base l sz align max_addr = Some (a, l') \<Longrightarrow>
    lmb_reach (ord \<and> orderly_alloc l sz align max_addr a) l'"

lemma init_fresh:
  assumes "lmb_init \<lparr>lmb_memory = bss_region, lmb_reserved = bss_region\<rparr> = Some l"
  shows "rgn_fresh (lmb_memory l)" and "rgn_fresh (lmb_reserved l)"
  using assms
  by (auto simp: lmb_init_def rgn_put_def bss_region_def rgn_fresh_def rgn_room_def rgn_entries_def
      MAX_LMB_REGIONS_def replicate_Suc [symmetric] numeral_eq_Suc)

lemma add_keeps_ok:
  assumes ok: "rgn_ok rgn \<or> rgn_fresh rgn" and new: "range_ok (base, sz)"
    and free: "range_addrs (base, sz) \<inter> rgn_addrs rgn = {}"
    and run: "lmb_add_region rgn base sz = Some (ret, rgn')"
  shows "rgn_ok rgn'"
proof (rule add_reserved [OF ok new free])
  fix ret1 rgn1
  assume "lmb_add_region rgn base sz = Some (ret1, rgn1)"
    and "0 \<le> ret1 \<Longrightarrow> rgn_ok rgn1 \<and> rgn_addrs rgn1 = rgn_addrs rgn \<union> range_addrs (base, sz)"
    and "ret1 < 0 \<Longrightarrow> rgn1 = rgn \<and> unat (rgn_cnt rgn) = MAX_LMB_REGIONS"
  moreover have "rgn_fresh rgn \<Longrightarrow> unat (rgn_cnt rgn) \<noteq> MAX_LMB_REGIONS"
    using fresh_dummy [of rgn] by (auto simp: rgn_dummy_def MAX_LMB_REGIONS_def)
  ultimately show ?thesis
    using ok run by (cases "0 \<le> ret1") auto
qed

lemma free_only:
  assumes "rgn_room rgn" and "rgn_cnt rgn = 1" and "(b, s) \<in> set (rgn_entries rgn)"
  shows "lmb_free_region rgn b s = Some (0, rgn\<lparr>rgn_cnt := 0\<rparr>)"
proof -
  have "rgn_entries rgn = [(b, s)]"
    using rgn_room_length [OF assms(1)] assms(2,3) by (auto simp: length_Suc_conv)
  then have at: "rgn_at rgn 0 = Some (b, s)"
    using rgn_at_entry [OF assms(1), of 0] assms(2) by simp
  then have "lmb_find_loop rgn b (b + s) 0 = Some 0"
    using assms(2) by (simp add: lmb_find_loop.simps)
  then show ?thesis
    using at assms(2) remove_only [OF assms(2)] by (simp add: lmb_free_region_def)
qed

lemma free_keeps_ok:
  assumes ok: "rgn_ok rgn \<or> rgn_fresh rgn" and new: "range_ok (base, sz)"
    and run: "lmb_free_region rgn base sz = Some (ret, rgn')" and cnt: "rgn_cnt rgn' \<noteq> 0"
  shows "rgn_ok rgn' \<or> rgn_fresh rgn'"
proof (cases "\<exists>p\<in>set (rgn_entries rgn). fst p \<le> base \<and> base + sz \<le> fst p + snd p")
  case True
  then obtain p where p: "p \<in> set (rgn_entries rgn)" "fst p \<le> base" "base + sz \<le> fst p + snd p"
    by blast
  have "base + sz \<noteq> 0"
    using range_end_word [OF new] range_ok_less [OF new] by auto
  then have "\<not> rgn_fresh rgn"
    using p by (auto simp: rgn_fresh_def)
  then have rgn: "rgn_ok rgn"
    using ok by simp
  then have "range_ok p" and room: "rgn_room rgn"
    using p(1) by (auto simp: rgn_ok_def intro: ranges_ok_member)
  then have inside: "range_inside (base, sz) p"
    using p(2,3) inside_word [OF new] by blast
  have "1 < rgn_cnt rgn \<or> (base, sz) \<notin> set (rgn_entries rgn)"
  proof (rule ccontr)
    assume "\<not> ?thesis"
    moreover have "0 < rgn_cnt rgn"
      using room by (simp add: rgn_room_def)
    ultimately have "rgn_cnt rgn = 1" "(base, sz) \<in> set (rgn_entries rgn)"
      by (auto simp: word_less_nat_alt word_unat_eq_iff)
    then show False
      using free_only [OF room] run cnt by auto
  qed
  then show ?thesis
    using run by (auto intro: free_region [OF rgn new p(1) inside])
next
  case False
  then have "lmb_find_loop rgn base (base + sz) 0 = Some (unat (rgn_cnt rgn))"
    using find_loop [OF reserved_room [OF ok], of base "base + sz" 0] reserved_room [OF ok]
    by (force simp: in_set_conv_nth)
  then show ?thesis
    using run ok by (simp add: lmb_free_region_def)
qed

section \<open>Sample tables\<close>

text \<open>A board with memory at 0x100000 to 0x2000000 of which two parts are taken.\<close>

definition board_lmb :: lmb where
  "board_lmb = \<lparr>
    lmb_memory = \<lparr>rgn_cnt = 1, rgn_size = 0, rgn_region = (0x100000, 0x1F00000) # replicate 8 (0, 0)\<rparr>,
    lmb_reserved = \<lparr>rgn_cnt = 2, rgn_size = 0,
      rgn_region = [(0x100000, 0x8000), (0x1000000, 0x200000)] @ replicate 7 (0, 0)\<rparr>\<rparr>"

lemma board_ok: "lmb_ok board_lmb"
  by (simp add: board_lmb_def lmb_ok_def rgn_ok_def rgn_room_def rgn_entries_def range_defs MAX_LMB_REGIONS_def)

lemma board_fits: "lmb_fits board_lmb 0x4000 12 0 0x1800000"
proof -
  have "(2::nat) ^ 12 dvd 0x1800000"
    by (simp add: dvd_eq_mod_eq_0)
  then show ?thesis
    by (auto simp: board_lmb_def lmb_fits_def rgn_entries_def range_inside_def rgn_addrs_def range_addrs_def
        rgn_base_def rgn_end_def LMB_ALLOC_ANYWHERE_def)
qed

section \<open>Properties\<close>

lemma is_reserved_loop_room:
  assumes "rgn_room rgn"
  shows "lmb_is_reserved_loop rgn addr k =
    Some (\<exists>p\<in>set (drop k (rgn_entries rgn)). fst p \<le> addr \<and> addr \<le> fst p + snd p - 1)"
proof (induction "unat (rgn_cnt rgn) - k" arbitrary: k)
  case 0
  then show ?case
    using assms by (simp add: lmb_is_reserved_loop.simps [of rgn addr k])
next
  case (Suc n)
  then have k: "k < unat (rgn_cnt rgn)" and IH: "n = unat (rgn_cnt rgn) - Suc k"
    by simp_all
  have "drop k (rgn_entries rgn) = rgn_entries rgn ! k # drop (Suc k) (rgn_entries rgn)"
    using k assms by (simp add: Cons_nth_drop_Suc)
  then show ?case
    using Suc(1) [OF IH] k assms
    by (cases "rgn_entries rgn ! k") (auto simp: lmb_is_reserved_loop.simps [of rgn addr k] rgn_at_entry)
qed

text \<open>The invariant of every call: the tables have their shape, and as long as the calls are
  orderly, they are well formed.\<close>

definition reach_inv :: "bool \<Rightarrow> lmb \<Rightarrow> bool" where
  "reach_inv ord l \<longleftrightarrow> rgn_room (lmb_memory l) \<and> rgn_room (lmb_reserved l) \<and> (ord \<longrightarrow> lmb_ok l)"

lemma add_table:
  assumes "rgn_room rgn" and "lmb_add_region rgn base sz = Some (ret, rgn')"
  shows "rgn_room rgn'" and "orderly_add rgn base sz \<Longrightarrow> rgn_ok rgn \<or> rgn_fresh rgn \<Longrightarrow> rgn_ok rgn'"
proof -
  show "rgn_room rgn'"
    using add_region_room [OF assms(1), of base sz] assms(2) by auto
  show "rgn_ok rgn'" if "orderly_add rgn base sz" "rgn_ok rgn \<or> rgn_fresh rgn"
    using that assms(2) by (auto simp: orderly_add_def intro: add_keeps_ok)
qed

lemma alloc_keeps_ok:
  assumes "lmb_ok l" and "orderly_alloc l sz align max_addr a" and "lmb_alloc_base l sz align max_addr = Some (a, l')"
  shows "lmb_ok l'"
proof -
  obtain k where k: "sz \<noteq> 0" "k < 32" "max_addr = LMB_ALLOC_ANYWHERE \<or> sz \<le> max_addr" "align = 2 ^ k"
    "a = 0 \<or> orderly_add (lmb_reserved l) a (lmb_align_up sz align)"
    using assms(2) by (auto simp: orderly_alloc_def)
  show ?thesis
    by (rule alloc_base [OF assms(1) k(1-3)])
      (use assms(1,3) k(4,5) in \<open>auto simp: lmb_taken_def lmb_fits_def orderly_add_def\<close>)
qed

lemma reach_inv_holds: "lmb_reach ord l \<Longrightarrow> reach_inv ord l"
proof (induction rule: lmb_reach.induct)
  case (start l0 base sz ret l)
  note fresh = init_fresh [OF start(1)]
  have "rgn_addrs (lmb_memory l0) = {}"
    using fresh(1) by (simp add: rgn_fresh_def rgn_addrs_def range_addrs_def rgn_base_def rgn_end_def)
  then show ?case
    using fresh start(2) add_table [of "lmb_memory l0" base sz ret] reserved_room
    by (auto simp: lmb_add_def reach_inv_def lmb_ok_def orderly_add_def bind_eq_Some_conv)
next
  case (add ord l base sz ret l')
  then show ?case
    using add_table [of "lmb_memory l" base sz ret]
    by (auto simp: lmb_add_def reach_inv_def lmb_ok_def bind_eq_Some_conv)
next
  case (reserve ord l base sz ret l')
  then show ?case
    using add_table [of "lmb_reserved l" base sz ret]
    by (auto simp: lmb_reserve_def reach_inv_def lmb_ok_def bind_eq_Some_conv)
next
  case (free ord l base sz ret l')
  then show ?case
    using free_region_room [of "lmb_reserved l" base sz] free_keeps_ok [of "lmb_reserved l" base sz ret]
    by (auto simp: lmb_free_def reach_inv_def lmb_ok_def bind_eq_Some_conv)
next
  case (alloc ord l sz align max_addr a l')
  then show ?case
    using alloc_base_room [of l sz align max_addr] alloc_keeps_ok [of l sz align max_addr a l']
    by (auto simp: reach_inv_def)
qed

text \<open>C13. Whatever calls with whatever arguments the loader makes after \<^verbatim>\<open>lmb_init\<close> and a first \<^verbatim>\<open>lmb_add\<close>, as long as
  no free leaves the table of reserved ranges empty, both tables have between one and eight entries and every next call
  returns: no loop runs for ever and no access is outside the arrays. If all the ranges added and
  reserved were disjoint from those there, not empty and not wrapping, the ranges freed not empty and not wrapping, and
  the blocks allocated free also after rounding up their size, the tables are sorted, without overlaps, wraps or
  empty ranges.\<close>

theorem lmb_reach_ok:
  assumes "lmb_reach ord l"
  shows "(\<forall>rgn \<in> {lmb_memory l, lmb_reserved l}. 1 \<le> unat (rgn_cnt rgn) \<and> unat (rgn_cnt rgn) \<le> 8 \<and> length (rgn_region rgn) = 9)
    \<and> (ord \<longrightarrow> lmb_ok l)
    \<and> (\<forall>base sz align max_addr. lmb_add l base sz \<noteq> None \<and> lmb_reserve l base sz \<noteq> None \<and> lmb_free l base sz \<noteq> None
         \<and> lmb_alloc_base l sz align max_addr \<noteq> None \<and> lmb_is_reserved l base \<noteq> None)"
proof -
  have room: "rgn_room (lmb_memory l)" "rgn_room (lmb_reserved l)" and ok: "ord \<longrightarrow> lmb_ok l"
    using reach_inv_holds [OF assms] by (simp_all add: reach_inv_def)
  have "lmb_add l base sz \<noteq> None" "lmb_reserve l base sz \<noteq> None" "lmb_free l base sz \<noteq> None"
    "lmb_alloc_base l sz align max_addr \<noteq> None" "lmb_is_reserved l base \<noteq> None" for base sz align max_addr
    using add_region_room [OF room(1), of base sz] add_region_room [OF room(2), of base sz]
      free_region_room [OF room(2), of base sz] alloc_base_room [OF room, of sz align max_addr]
      is_reserved_loop_room [OF room(2), of base 0]
    by (auto simp: lmb_add_def lmb_reserve_def lmb_free_def lmb_is_reserved_def)
  moreover have "1 \<le> unat (rgn_cnt rgn) \<and> unat (rgn_cnt rgn) \<le> 8 \<and> length (rgn_region rgn) = 9" if "rgn_room rgn" for rgn
    using that by (auto simp: rgn_room_def MAX_LMB_REGIONS_def word_less_nat_alt)
  ultimately show ?thesis
    using room ok by blast
qed

theorem lmb_reach_ok_witness:
  "\<exists>l l'. lmb_reach True l \<and> rgn_entries (lmb_memory l) = [(0x100000, 0x1F00000)] \<and> lmb_ok l \<and>
     lmb_reach False l' \<and> lmb_alloc_base l' 0 0 0 \<noteq> None"
proof -
  let ?bss = "\<lparr>lmb_memory = bss_region, lmb_reserved = bss_region\<rparr>"
  let ?r = "\<lambda>p. \<lparr>rgn_cnt = 1, rgn_size = 0, rgn_region = p # replicate 8 (0, 0)\<rparr>"
  let ?l = "\<lambda>p q. \<lparr>lmb_memory = ?r p, lmb_reserved = ?r q\<rparr>"
  let ?m = "(0x100000, 0x1F00000)"
  have "lmb_init ?bss = Some (?l (0, 0) (0, 0))"
    by (simp add: lmb_init_def rgn_put_def bss_region_def MAX_LMB_REGIONS_def numeral_eq_Suc)
  moreover have ok: "range_ok (0x100000, 0x1F00000)" "\<not> range_ok (0xFFFFF000, 0x2000)"
    by (simp_all add: range_defs)
  moreover have "lmb_add (?l (0, 0) (0, 0)) 0x100000 0x1F00000 = Some (0, ?l ?m (0, 0))"
    by (simp add: lmb_add_def lmb_add_region_def rgn_at_def rgn_put_def)
  ultimately have 1: "lmb_reach True (?l ?m (0, 0))"
    using lmb_reach.start [of "?l (0, 0) (0, 0)" "0x100000" "0x1F00000" 0 "?l ?m (0, 0)"] by simp
  have "lmb_reserve (?l ?m (0, 0)) 0xFFFFF000 0x2000 = Some (0, ?l ?m (0xFFFFF000, 0x2000))"
    by (simp add: lmb_reserve_def lmb_add_region_def rgn_at_def rgn_put_def)
  from lmb_reach.reserve [OF 1 this] have 2: "lmb_reach False (?l ?m (0xFFFFF000, 0x2000))"
    using ok(2) by (simp add: orderly_add_def)
  show ?thesis
    using lmb_reach_ok [OF 1] lmb_reach_ok [OF 2] 1 2
    by (intro exI [of _ "?l ?m (0, 0)"] exI [of _ "?l ?m (0xFFFFF000, 0x2000)"]) (simp add: rgn_entries_def)
qed

text \<open>C8. An allocation with an alignment that is a power of two and a size that does not exceed the bound
  returns. The address it gives is aligned, the block of the size asked for lies in one memory range and
  below the bound, and none of it was reserved before. Without such an address the result is 0 and nothing changes. What is
  added to the reserved ranges is the block with its size rounded up to the alignment: if this block does not wrap and
  is free too, as it is when the size is a multiple of the alignment, the new table
  is well formed and has exactly this block added; the memory table is never changed.\<close>

theorem lmb_alloc_safe:
  assumes "lmb_ok l" and "sz \<noteq> 0" and "k < 32"
    and "max_addr = LMB_ALLOC_ANYWHERE \<or> sz \<le> max_addr"
  shows "\<exists>a l'. lmb_alloc_base l sz (2 ^ k) max_addr = Some (a, l') \<and> lmb_memory l' = lmb_memory l \<and>
    (if a = 0 then l' = l
     else lmb_fits l sz k max_addr a \<and>
       (orderly_add (lmb_reserved l) a (lmb_align_up sz (2 ^ k)) \<longrightarrow> lmb_taken l a (lmb_align_up sz (2 ^ k)) l') \<and>
       (2 ^ k dvd unat sz \<longrightarrow> lmb_taken l a sz l'))"
proof (rule alloc_base [OF assms])
  fix a l'
  assume run: "lmb_alloc_base l sz (2 ^ k) max_addr = Some (a, l')" and fits: "lmb_fits l sz k max_addr a"
    and mem: "lmb_memory l' = lmb_memory l"
    and taken: "range_ok (a, lmb_align_up sz (2 ^ k)) \<Longrightarrow>
      range_addrs (a, lmb_align_up sz (2 ^ k)) \<inter> rgn_addrs (lmb_reserved l) = {} \<Longrightarrow>
      lmb_taken l a (lmb_align_up sz (2 ^ k)) l'"
  have "lmb_taken l a sz l'" if "2 ^ k dvd unat sz"
    using taken fits_range [OF assms(1,2) fits] fits align_up_nat [OF assms(3) that] by (simp add: lmb_fits_def)
  then show ?thesis
    using run fits mem taken by (auto simp: orderly_add_def lmb_fits_def)
qed simp_all

theorem lmb_alloc_safe_witness:
  "\<exists>a l'. lmb_alloc_base board_lmb 0x3F00 (2 ^ 12) 0 = Some (a, l') \<and> lmb_memory l' = lmb_memory board_lmb \<and>
    (if a = 0 then l' = board_lmb
     else lmb_fits board_lmb 0x3F00 12 0 a \<and>
       (orderly_add (lmb_reserved board_lmb) a (lmb_align_up 0x3F00 (2 ^ 12)) \<longrightarrow>
         lmb_taken board_lmb a (lmb_align_up 0x3F00 (2 ^ 12)) l') \<and>
       (2 ^ 12 dvd unat (0x3F00 :: u32) \<longrightarrow> lmb_taken board_lmb a 0x3F00 l'))"
  by (rule lmb_alloc_safe [OF board_ok]) (simp_all add: LMB_ALLOC_ANYWHERE_def)

text \<open>
  The rounded block need not be free: the search only looks at the size asked for. Here a block of 0x300
  bytes aligned to 0x1000 is given out below a reserved range in the same page, and the whole page is added to the
  reserved ranges, which then overlap.
\<close>

lemma alloc_rounds_over:
  "map_option (\<lambda>(a, l'). (a, rgn_entries (lmb_reserved l')))
     (lmb_alloc_base \<lparr>
        lmb_memory = \<lparr>rgn_cnt = 1, rgn_size = 0, rgn_region = (0x100000, 0x2000) # replicate 8 (0, 0)\<rparr>,
        lmb_reserved = \<lparr>rgn_cnt = 1, rgn_size = 0, rgn_region = (0x101500, 0x100) # replicate 8 (0, 0)\<rparr>\<rparr> 0x300 0x1000 0) =
   Some (0x101000, [(0x101000, 0x1000), (0x101500, 0x100)])"
  by code_simp

text \<open>C9. A request that can be satisfied is satisfied: if any block fits and the table of
  reserved ranges is not full, the allocation gives a block that fits, whatever the size.\<close>

theorem lmb_alloc_complete:
  assumes "lmb_ok l" and "sz \<noteq> 0" and "k < 32"
    and "max_addr = LMB_ALLOC_ANYWHERE \<or> sz \<le> max_addr"
    and "unat (rgn_cnt (lmb_reserved l)) < MAX_LMB_REGIONS" and "lmb_fits l sz k max_addr b"
  shows "\<exists>a l'. lmb_alloc_base l sz (2 ^ k) max_addr = Some (a, l') \<and> lmb_fits l sz k max_addr a"
  by (rule alloc_base [OF assms(1-4)]) (use assms(5,6) in auto)

theorem lmb_alloc_complete_witness:
  "\<exists>a l'. lmb_alloc_base board_lmb 0x4000 (2 ^ 12) 0 = Some (a, l') \<and> lmb_fits board_lmb 0x4000 12 0 a"
  by (rule lmb_alloc_complete [OF board_ok _ _ _ _ board_fits])
    (simp_all add: LMB_ALLOC_ANYWHERE_def board_lmb_def MAX_LMB_REGIONS_def)

text \<open>C39. Freeing the only reserved range and then reserving another one above it does not reserve the
  new range: the table is again the one before the free, with the freed range in it. The
  counter is 0 in between, and the code that adds a range takes the stale first entry as the lowest one.\<close>

theorem lmb_free_last:
  assumes "rgn_room (lmb_reserved l)" and "rgn_cnt (lmb_reserved l) = 1"
    and "rgn_region (lmb_reserved l) ! 0 = (b, s)" and "rgn_region (lmb_reserved l) ! 1 = (b', s')"
    and "lmb_addrs_adjacent b s b' s' = 0" and "b \<le> base"
  shows "do { (ret, l1) \<leftarrow> lmb_free l b s; lmb_reserve l1 base sz } = Some (0, l)"
proof -
  let ?rgn = "lmb_reserved l" and ?none = "lmb_reserved l\<lparr>rgn_cnt := 0\<rparr>"
  have len: "length (rgn_region ?rgn) = 9"
    using assms(1) by (simp add: rgn_room_def MAX_LMB_REGIONS_def)
  then have at: "rgn_at ?rgn 0 = Some (b, s)" "rgn_at ?none 0 = Some (b, s)" "rgn_at ?none (Suc 0) = Some (b', s')"
    using assms(3,4) by (auto simp: rgn_at_def)
  have "lmb_find_loop ?rgn b (b + s) 0 = Some 0"
    using assms(2) at(1) by (simp add: lmb_find_loop.simps)
  moreover have "lmb_remove_region ?rgn 0 = Some ?none"
    using assms(2) by (simp add: lmb_remove_region_def lmb_shift_down.simps)
  ultimately have free: "lmb_free_region ?rgn b s = Some (0, ?none)"
    using assms(2) at(1) by (simp add: lmb_free_region_def)
  have "lmb_scan_loop ?none base sz 0 = Some Scan_none"
    by (simp add: lmb_scan_loop.simps)
  moreover have "lmb_join_next ?none 0 = Some (False, ?none)"
    using at(2,3) assms(5) by (simp add: lmb_join_next_def lmb_regions_adjacent_def)
  moreover have "lmb_insert ?none base sz = Some ?rgn"
    using assms(2,6) at(2) by (cases l, cases ?rgn) (auto simp: lmb_insert_def)
  ultimately have "lmb_add_region ?none base sz = Some (0, ?rgn)"
    using at(2) by (simp add: lmb_add_region_def MAX_LMB_REGIONS_def)
  with free show ?thesis
    by (simp add: lmb_free_def lmb_reserve_def)
qed

theorem lmb_free_last_witness:
  "do { (ret, l1) \<leftarrow> lmb_free \<lparr>lmb_memory = bss_region,
          lmb_reserved = \<lparr>rgn_cnt = 1, rgn_size = 0, rgn_region = (0x1000, 0x100) # replicate 8 (0, 0)\<rparr>\<rparr> 0x1000 0x100;
        lmb_reserve l1 0x8000 0x100 } =
   Some (0, \<lparr>lmb_memory = bss_region,
          lmb_reserved = \<lparr>rgn_cnt = 1, rgn_size = 0, rgn_region = (0x1000, 0x100) # replicate 8 (0, 0)\<rparr>\<rparr>)"
  by (rule lmb_free_last [of _ _ _ 0 0])
    (simp_all add: rgn_room_def MAX_LMB_REGIONS_def lmb_addrs_adjacent_def)

section \<open>Asking for one address\<close>

lemma is_reserved:
  assumes "rgn_ok (lmb_reserved l)"
  shows "lmb_is_reserved l addr = Some (unat addr \<in> rgn_addrs (lmb_reserved l))"
proof -
  have "fst p \<le> addr \<and> addr \<le> fst p + snd p - 1 \<longleftrightarrow> unat addr \<in> range_addrs p"
    if "p \<in> set (rgn_entries (lmb_reserved l))" for p
  proof -
    have p: "range_ok p"
      using assms that by (auto simp: rgn_ok_def intro: ranges_ok_member)
    then have "unat (fst p + snd p) = rgn_end p" "0 < rgn_end p"
      using range_end_word [of "fst p" "snd p"] range_ok_less [OF p] by simp_all
    moreover from this have "unat (fst p + snd p - 1) = rgn_end p - 1"
      by (subst unat_sub) (simp_all add: word_le_nat_alt)
    ultimately show ?thesis
      by (auto simp: word_le_nat_alt range_addrs_def rgn_base_def)
  qed
  then show ?thesis
    using is_reserved_loop_room [of "lmb_reserved l" addr 0] assms
    by (auto simp: lmb_is_reserved_def rgn_ok_def rgn_addrs_def)
qed

text \<open>
  With the dummy entry of \<^verbatim>\<open>lmb_init\<close> the upper bound \<^verbatim>\<open>base + size - 1\<close> wraps to the top of
  the address space, and every address counts as reserved although none is.
\<close>

lemma is_reserved_fresh:
  assumes "rgn_fresh (lmb_reserved l)"
  shows "lmb_is_reserved l addr = Some True" and "rgn_addrs (lmb_reserved l) = {}"
  using assms is_reserved_loop_room [of "lmb_reserved l" addr 0]
  by (auto simp: lmb_is_reserved_def rgn_fresh_def rgn_addrs_def range_addrs_def rgn_base_def rgn_end_def)

text \<open>
  The bound on \<open>sz\<close> in the allocation theorems is needed: a request for more bytes than the bound
  \<^verbatim>\<open>max_addr\<close> wraps below zero and gives a block at the top of the address space, outside the memory.
\<close>

lemma alloc_bound_wraps: "\<exists>l'. lmb_alloc_base board_lmb 0x300000 0x1000 0x200000 = Some (0xFFF00000, l')"
proof -
  let ?rgn = "lmb_reserved board_lmb"
  have "rgn_room ?rgn" and cnt: "unat (rgn_cnt ?rgn) \<noteq> MAX_LMB_REGIONS"
    by (simp_all add: board_lmb_def rgn_room_def MAX_LMB_REGIONS_def)
  then obtain ret rgn where add: "lmb_add_region ?rgn 0xFFF00000 0x300000 = Some (ret, rgn)" "\<not> ret < 0"
    using add_region_room [of ?rgn "0xFFF00000" "0x300000"] by auto
  have "lmb_overlaps_region ?rgn 0xFFF00000 0x300000 = Some (-1)"
    by (simp add: lmb_overlaps_region_def lmb_overlaps_loop.simps board_lmb_def rgn_at_def lmb_addrs_overlap_def)
  moreover have "lmb_align_up 0x300000 0x1000 = 0x300000"
    by (simp add: lmb_align_up_def)
  ultimately have "lmb_alloc_try board_lmb 0x300000 0x1000 0x100000 0xFFF00000 =
      Some (Try_return 0xFFF00000 (board_lmb\<lparr>lmb_reserved := rgn\<rparr>))"
    using add by (simp add: lmb_alloc_try.simps)
  moreover have "lmb_alloc_start 0x100000 0x1F00000 0x300000 0x1000 0x200000 = Some 0xFFF00000"
    by (simp add: lmb_alloc_start_def LMB_ALLOC_ANYWHERE_def lmb_align_down_def min_def)
  moreover have "rgn_at (lmb_memory board_lmb) 0 = Some (0x100000, 0x1F00000)" "rgn_cnt (lmb_memory board_lmb) = 1"
    by (simp_all add: board_lmb_def rgn_at_def)
  ultimately show ?thesis
    by (simp add: lmb_alloc_base_def lmb_alloc_base_impl_def)
qed

end
