(* ===== verification/Tftp.thy ===== *)
theory Tftp
  imports Environment
begin

text \<open>
  The TFTP client of \<^verbatim>\<open>net/tftp.c\<close>, with the parts of \<^verbatim>\<open>net/net.c\<close> and \<^verbatim>\<open>lib/net_utils.c\<close>
  it uses, in the configuration of the boards: \<^verbatim>\<open>CONFIG_CMD_TFTPPUT\<close> and a requested block size
  of 400, no multicast, no \<^verbatim>\<open>tsize\<close> option, no server, no download to flash. The file-level
  variables of the C files are the fields of one record; a datagram that is sent is put at the end of
  \<open>net_sent\<close>. The memory at \<^verbatim>\<open>load_addr\<close> and \<^verbatim>\<open>save_addr\<close> is a function of the 32-bit address.
  Progress marks on the console are left out.
\<close>

section \<open>Network loop state\<close>

datatype net_loop_state = NETLOOP_CONTINUE | NETLOOP_RESTART | NETLOOP_SUCCESS | NETLOOP_FAIL

datatype thand = Tftp_timeout_f | Start_again_f

datatype proto_t = TFTPGET | TFTPPUT

text \<open>A datagram given to \<^verbatim>\<open>NetSendUDPPacket\<close>: address, port, own port and payload.\<close>

type_synonym udp_packet = "u32 \<times> u32 \<times> u32 \<times> byte list"

record net =
  net_state :: net_loop_state
  NetTryCount :: u32
  NetDevExists :: bool
  NetBootFileXferSize :: u32
  NetServerIP :: u32
  NetOurIP :: u32
  timeHandler :: "(u32 \<times> thand) option"
  udp_handler :: bool
  icmp_handler_set :: bool
  save_addr :: u32
  save_size :: u32
  net_ram :: "u32 \<Rightarrow> byte"
  net_sent :: "udp_packet list"

text \<open>The variables of \<^verbatim>\<open>net/tftp.c\<close>.\<close>

datatype tftp_state = STATE_SEND_RRQ | STATE_DATA | STATE_TOO_LARGE | STATE_BAD_MAGIC | STATE_OACK
  | STATE_RECV_WRQ | STATE_SEND_WRQ

record tftp = net +
  TftpTimeoutMSecs :: u32
  TftpTimeoutCountMax :: int
  TftpRRQTimeoutCountMax :: int
  TftpRemoteIP :: u32
  TftpRemotePort :: u32
  TftpOurPort :: u32
  TftpTimeoutCount :: int
  TftpBlock :: u32
  TftpLastBlock :: u32
  TftpBlockWrap :: u32
  TftpBlockWrapOffset :: u32
  TftpState :: tftp_state
  TftpWriting :: bool
  TftpFinalBlock :: bool
  tftp_filename :: "byte list"
  TftpBlkSize :: "16 word"
  TftpBlkSizeOption :: "16 word"

text \<open>
  What the handlers read besides: the environment, and whether \<^verbatim>\<open>eth_try_another\<close> has
  tried all network devices (it then sets \<^verbatim>\<open>NetRestartWrap\<close>).
\<close>

record net_ctx =
  ctx_denv :: "byte list"
  ctx_env :: uboot_env
  ctx_wrap :: bool

definition ctx_getenv :: "net_ctx \<Rightarrow> string \<Rightarrow> byte list option option" where
  "ctx_getenv c name = getenv (ctx_denv c) (bytes_of name) (ctx_env c)"

definition WELL_KNOWN_PORT :: u32 where "WELL_KNOWN_PORT = 69"
definition TIMEOUT_COUNT :: int where "TIMEOUT_COUNT = 10"
definition TFTP_BLOCK_SIZE :: "16 word" where "TFTP_BLOCK_SIZE = 512"
definition TFTP_SEQUENCE_SIZE :: u32 where "TFTP_SEQUENCE_SIZE = 65536"
definition MAX_LEN :: nat where "MAX_LEN = 128"

definition TFTP_RRQ :: u32 where "TFTP_RRQ = 1"
definition TFTP_WRQ :: u32 where "TFTP_WRQ = 2"
definition TFTP_DATA :: u32 where "TFTP_DATA = 3"
definition TFTP_ACK :: u32 where "TFTP_ACK = 4"
definition TFTP_ERROR :: u32 where "TFTP_ERROR = 5"
definition TFTP_OACK :: u32 where "TFTP_OACK = 6"

section \<open>Bytes and addresses\<close>

text \<open>\<^verbatim>\<open>ntohs\<close> of the 16-bit value at \<open>p\<close>, and the two bytes \<^verbatim>\<open>htons\<close> makes of a value.\<close>

definition ntohs_at :: "byte list \<Rightarrow> nat \<Rightarrow> u32" where
  "ntohs_at p i = ucast (rd p i) * 256 + ucast (rd p (i + 1))"

definition htons :: "u32 \<Rightarrow> byte list" where
  "htons v = [ucast (drop_bit 8 v), ucast v]"

definition htonl :: "u32 \<Rightarrow> u32" where
  "htonl v = push_bit 24 (v AND 0xFF) OR push_bit 8 (v AND 0xFF00) OR
     (drop_bit 8 v AND 0xFF00) OR (drop_bit 24 v AND 0xFF)"

primrec string_to_ip_loop :: "nat \<Rightarrow> u32 \<Rightarrow> byte list \<Rightarrow> u32" where
  "string_to_ip_loop 0 addr s = addr"
| "string_to_ip_loop (Suc n) addr s =
     (let (val, e) = simple_strtoul_end s 10
      in string_to_ip_loop n (push_bit 8 addr OR (val AND 0xFF)) (if rd e 0 \<noteq> 0 then drop 1 e else e))"

definition string_to_ip :: "byte list option \<Rightarrow> u32" where
  "string_to_ip s = (case s of None \<Rightarrow> 0 | Some s \<Rightarrow> htonl (string_to_ip_loop 4 0 s))"

definition ram_write :: "u32 \<Rightarrow> byte list \<Rightarrow> (u32 \<Rightarrow> byte) \<Rightarrow> u32 \<Rightarrow> byte" where
  "ram_write addr bs m = (\<lambda>a. if unat (a - addr) < length bs then bs ! unat (a - addr) else m a)"

definition ram_read :: "u32 \<Rightarrow> nat \<Rightarrow> (u32 \<Rightarrow> byte) \<Rightarrow> byte list" where
  "ram_read addr n m = map (\<lambda>i. m (addr + of_nat i)) [0..<n]"

definition sprintf_lu :: "u32 \<Rightarrow> byte list" where
  "sprintf_lu v = number (ucast v) 10 (- 1) (- 1) no_flags"

section \<open>The network loop\<close>

definition net_set_state :: "net_loop_state \<Rightarrow> tftp \<Rightarrow> tftp" where
  "net_set_state s t = t\<lparr>net_state := s\<rparr>"

definition NetSetTimeout :: "u32 \<Rightarrow> thand \<Rightarrow> tftp \<Rightarrow> tftp" where
  "NetSetTimeout iv f t = t\<lparr>timeHandler := if iv = 0 then None else Some (iv, f)\<rparr>"

text \<open>
  \<^verbatim>\<open>NetSendUDPPacket\<close>: an address of 0 is the broadcast address. The headers, the ARP request that may
  come first and the driver are not modelled; the datagram goes to \<open>net_sent\<close>.
\<close>

definition udp_dest :: "u32 \<Rightarrow> u32" where
  "udp_dest dest = (if dest = 0 then 0xFFFFFFFF else dest)"

definition NetSendUDPPacket :: "u32 \<Rightarrow> u32 \<Rightarrow> u32 \<Rightarrow> byte list \<Rightarrow> tftp \<Rightarrow> tftp" where
  "NetSendUDPPacket dest dport sport payload t = t\<lparr>net_sent := net_sent t @ [(udp_dest dest, dport, sport, payload)]\<rparr>"

text \<open>\<^verbatim>\<open>NetStartAgain\<close>: the count of tries from \<^verbatim>\<open>netretry\<close>, \<open>None\<close> for ever.\<close>

definition net_retries :: "net_ctx \<Rightarrow> u32 option option" where
  "net_retries c =
     do { nretry \<leftarrow> ctx_getenv c ''netretry'';
          Some (case nretry of
            None \<Rightarrow> None
          | Some s \<Rightarrow>
              if strcmp s (bytes_of ''yes'') = 0 then None
              else if strcmp s (bytes_of ''no'') = 0 then Some 0
              else if strcmp s (bytes_of ''once'') = 0 then Some 1
              else Some (simple_strtoul s 0)) }"

definition NetStartAgain :: "net_ctx \<Rightarrow> tftp \<Rightarrow> tftp option" where
  "NetStartAgain c t =
     do { retrycnt \<leftarrow> net_retries c;
          Some (if (case retrycnt of None \<Rightarrow> False | Some n \<Rightarrow> n \<le> NetTryCount t)
            then net_set_state NETLOOP_FAIL t
            else let t = t\<lparr>NetTryCount := NetTryCount t + 1\<rparr>
              in if ctx_wrap c
                 then if NetDevExists t
                      then (NetSetTimeout 10000 Start_again_f t)\<lparr>udp_handler := False\<rparr>
                      else net_set_state NETLOOP_FAIL t
                 else net_set_state NETLOOP_RESTART t) }"

section \<open>Blocks\<close>

text \<open>\<^verbatim>\<open>store_block\<close>; the \<^verbatim>\<open>int\<close> argument is its 32-bit pattern.\<close>

definition store_block :: "net_ctx \<Rightarrow> u32 \<Rightarrow> byte list \<Rightarrow> tftp \<Rightarrow> tftp" where
  "store_block c block src t =
     (let offset = block * ucast (TftpBlkSize t) + TftpBlockWrapOffset t;
          newsize = offset + of_nat (length src);
          t = t\<lparr>net_ram := ram_write (load_addr (ctx_env c) + offset) src (net_ram t)\<rparr>
      in if NetBootFileXferSize t < newsize then t\<lparr>NetBootFileXferSize := newsize\<rparr> else t)"

definition new_transfer :: "tftp \<Rightarrow> tftp" where
  "new_transfer t = t\<lparr>TftpLastBlock := 0, TftpBlockWrap := 0, TftpBlockWrapOffset := 0, TftpFinalBlock := False\<rparr>"

text \<open>\<^verbatim>\<open>load_block\<close>: the bytes put into the packet.\<close>

definition load_block :: "tftp \<Rightarrow> u32 \<Rightarrow> u32 \<Rightarrow> byte list" where
  "load_block t block len =
     (let offset = (block - 1) * len + TftpBlockWrapOffset t;
          tosend = min (NetBootFileXferSize t - offset) len
      in ram_read (save_addr t + offset) (unat tosend) (net_ram t))"

definition update_block_number :: "tftp \<Rightarrow> tftp" where
  "update_block_number t =
     (if TftpBlock t = 0
      then t\<lparr>TftpBlockWrap := TftpBlockWrap t + 1,
             TftpBlockWrapOffset := TftpBlockWrapOffset t + ucast (TftpBlkSize t) * TFTP_SEQUENCE_SIZE,
             TftpTimeoutCount := 0\<rparr>
      else t)"

definition tftp_complete :: "tftp \<Rightarrow> tftp" where
  "tftp_complete t = net_set_state NETLOOP_SUCCESS t"

definition tftp_restart :: "net_ctx \<Rightarrow> tftp \<Rightarrow> tftp option" where
  "tftp_restart c t = NetStartAgain c t"

section \<open>Sending\<close>

definition tftp_request :: "tftp \<Rightarrow> byte list" where
  "tftp_request t =
     htons (if TftpState t = STATE_SEND_RRQ then TFTP_RRQ else TFTP_WRQ)
     @ tftp_filename t @ [0] @ bytes_of ''octet'' @ [0] @ bytes_of ''timeout'' @ [0]
     @ sprintf_lu (TftpTimeoutMSecs t div 1000) @ [0]
     @ bytes_of ''blksize'' @ [0] @ sprintf_d (ucast (TftpBlkSizeOption t)) @ [0]"

definition tftp_error_packet :: "u32 \<Rightarrow> string \<Rightarrow> byte list" where
  "tftp_error_packet code msg = htons TFTP_ERROR @ htons code @ bytes_of msg @ [0]"

definition TftpSend :: "tftp \<Rightarrow> tftp" where
  "TftpSend t =
     (let send = (\<lambda>payload t. NetSendUDPPacket (TftpRemoteIP t) (TftpRemotePort t) (TftpOurPort t) payload t)
      in case TftpState t of
           STATE_SEND_RRQ \<Rightarrow> send (tftp_request t) t
         | STATE_SEND_WRQ \<Rightarrow> send (tftp_request t) t
         | STATE_TOO_LARGE \<Rightarrow> send (tftp_error_packet 3 ''File too large'') t
         | STATE_BAD_MAGIC \<Rightarrow> send (tftp_error_packet 2 ''File has bad magic'') t
         | _ \<Rightarrow>
             if TftpWriting t
             then let toload = ucast (TftpBlkSize t); loaded = load_block t (TftpBlock t) toload
               in send (htons TFTP_DATA @ htons (TftpBlock t) @ loaded)
                    (t\<lparr>TftpFinalBlock := length loaded < unat toload\<rparr>)
             else send (htons TFTP_ACK @ htons (TftpBlock t)) t)"

section \<open>Receiving\<close>

definition ICMP_NOT_REACH :: nat where "ICMP_NOT_REACH = 3"
definition ICMP_NOT_REACH_PORT :: nat where "ICMP_NOT_REACH_PORT = 3"

definition tftp_icmp_handler :: "net_ctx \<Rightarrow> nat \<Rightarrow> nat \<Rightarrow> tftp \<Rightarrow> tftp option" where
  "tftp_icmp_handler c type code t =
     (if type = ICMP_NOT_REACH \<and> code = ICMP_NOT_REACH_PORT then tftp_restart c t else Some t)"

text \<open>The loop over an OACK packet: the last \<^verbatim>\<open>blksize\<close> option found.\<close>

definition oack_blksize :: "byte list \<Rightarrow> nat \<Rightarrow> 16 word \<Rightarrow> 16 word" where
  "oack_blksize pkt len size0 =
     foldl (\<lambda>bs i. if strcmp (drop i pkt) (bytes_of ''blksize'') = 0
                   then ucast (simple_strtoul (drop (i + 8) pkt) 10) else bs) size0 [0..<len - 8]"

definition tftp_ack :: "byte list \<Rightarrow> tftp \<Rightarrow> tftp" where
  "tftp_ack pkt t =
     (if TftpWriting t then
        if TftpFinalBlock t then tftp_complete t
        else let block = ntohs_at pkt 0;
                 ack_ok = (TftpBlock t = block);
                 t = update_block_number (t\<lparr>TftpBlock := ucast (ucast (block + 1) :: 16 word)\<rparr>)
          in if ack_ok then TftpSend t else t
      else t)"

definition tftp_oack :: "byte list \<Rightarrow> nat \<Rightarrow> u32 \<Rightarrow> tftp \<Rightarrow> tftp" where
  "tftp_oack pkt len src t =
     (let t = t\<lparr>TftpState := STATE_OACK, TftpRemotePort := src,
                TftpBlkSize := oack_blksize pkt len (TftpBlkSize t)\<rparr>
      in TftpSend (if TftpWriting t then t\<lparr>TftpState := STATE_DATA, TftpBlock := TftpBlock t + 1\<rparr> else t))"

text \<open>A data packet; the part that stores and acknowledges a new block is \<open>tftp_accept\<close>.\<close>

definition tftp_accept :: "net_ctx \<Rightarrow> byte list \<Rightarrow> tftp \<Rightarrow> tftp" where
  "tftp_accept c block t =
     (let t = t\<lparr>TftpLastBlock := TftpBlock t, TftpTimeoutCountMax := TIMEOUT_COUNT\<rparr>;
          t = NetSetTimeout (TftpTimeoutMSecs t) Tftp_timeout_f t;
          t = store_block c (TftpBlock t - 1) block t;
          t = TftpSend t
      in if length block < unat (TftpBlkSize t) then tftp_complete t else t)"

definition tftp_data :: "net_ctx \<Rightarrow> byte list \<Rightarrow> nat \<Rightarrow> u32 \<Rightarrow> tftp \<Rightarrow> tftp option" where
  "tftp_data c pkt len src t =
     (if len < 2 then Some t
      else let len = len - 2;
               t = update_block_number (t\<lparr>TftpBlock := ntohs_at pkt 0\<rparr>);
               first = (TftpState t \<in> {STATE_SEND_RRQ, STATE_OACK, STATE_RECV_WRQ});
               t = (if first then new_transfer (t\<lparr>TftpState := STATE_DATA, TftpRemotePort := src\<rparr>) else t)
        in if first \<and> TftpBlock t \<noteq> 1 then NetStartAgain c t
           else if TftpBlock t = TftpLastBlock t then Some t
           else Some (tftp_accept c (map (\<lambda>i. rd pkt (2 + i)) [0..<len]) t))"

text \<open>An error packet; stopping the network device is not modelled.\<close>

definition tftp_error :: "net_ctx \<Rightarrow> byte list \<Rightarrow> tftp \<Rightarrow> tftp option" where
  "tftp_error c pkt t =
     (if ntohs_at pkt 0 = 1 \<or> ntohs_at pkt 0 = 2 then Some (net_set_state NETLOOP_FAIL t)
      else NetStartAgain c t)"

text \<open>\<open>buf\<close> is the receive buffer from the payload on, of which the packet has \<open>len\<close> bytes.\<close>

definition TftpHandler :: "net_ctx \<Rightarrow> byte list \<Rightarrow> u32 \<Rightarrow> u32 \<Rightarrow> nat \<Rightarrow> tftp \<Rightarrow> tftp option" where
  "TftpHandler c buf dest src len t =
     (if dest \<noteq> TftpOurPort t then Some t
      else if TftpState t \<noteq> STATE_SEND_RRQ \<and> src \<noteq> TftpRemotePort t \<and>
        TftpState t \<noteq> STATE_RECV_WRQ \<and> TftpState t \<noteq> STATE_SEND_WRQ then Some t
      else if len < 2 then Some t
      else let len = len - 2; proto = ntohs_at buf 0; pkt = drop 2 buf
        in if proto = TFTP_ACK then Some (tftp_ack pkt t)
           else if proto = TFTP_OACK then Some (tftp_oack pkt len src t)
           else if proto = TFTP_DATA then tftp_data c pkt len src t
           else if proto = TFTP_ERROR then tftp_error c pkt t
           else Some t)"

definition TftpTimeout :: "net_ctx \<Rightarrow> tftp \<Rightarrow> tftp option" where
  "TftpTimeout c t =
     (let t = t\<lparr>TftpTimeoutCount := TftpTimeoutCount t + 1\<rparr>
      in if TftpTimeoutCountMax t < TftpTimeoutCount t then tftp_restart c t
         else let t = NetSetTimeout (TftpTimeoutMSecs t) Tftp_timeout_f t
           in Some (if TftpState t \<noteq> STATE_RECV_WRQ then TftpSend t else t))"

section \<open>Starting a transfer\<close>

text \<open>The file name and server: \<^verbatim>\<open>BootFile\<close>, with \<^verbatim>\<open>server:name\<close> split, or a name made
  of the own address.\<close>

definition sprintf_02X :: "u32 \<Rightarrow> byte list" where
  "sprintf_02X v = number (ucast v) 16 2 (- 1) (no_flags\<lparr>pf_ZEROPAD := True\<rparr>)"

definition tftp_default_name :: "u32 \<Rightarrow> byte list" where
  "tftp_default_name ip =
     sprintf_02X (ip AND 0xFF) @ sprintf_02X (drop_bit 8 ip AND 0xFF)
     @ sprintf_02X (drop_bit 16 ip AND 0xFF) @ sprintf_02X (drop_bit 24 ip AND 0xFF) @ bytes_of ''.img''"

definition tftp_target :: "net_ctx \<Rightarrow> tftp \<Rightarrow> u32 \<times> byte list" where
  "tftp_target c t =
     (let name = cstr (BootFile (ctx_env c)); rest = dropWhile (\<lambda>b. b \<noteq> 58) name
      in if name = [] then (NetServerIP t, take (MAX_LEN - 1) (tftp_default_name (NetOurIP t)))
         else if rest = [] then (NetServerIP t, take (MAX_LEN - 1) name)
         else (string_to_ip (Some name), take (MAX_LEN - 1) (tl rest)))"

definition TftpStart :: "net_ctx \<Rightarrow> u32 \<Rightarrow> proto_t \<Rightarrow> tftp \<Rightarrow> tftp option" where
  "TftpStart c timer protocol t =
     do { bs \<leftarrow> ctx_getenv c ''tftpblocksize'';
          let t = (case bs of None \<Rightarrow> t | Some s \<Rightarrow> t\<lparr>TftpBlkSizeOption := ucast (simple_strtol s 10)\<rparr>);
          to \<leftarrow> ctx_getenv c ''tftptimeout'';
          let t = (case to of None \<Rightarrow> t | Some s \<Rightarrow> t\<lparr>TftpTimeoutMSecs := simple_strtol s 10\<rparr>);
          let t = (if TftpTimeoutMSecs t < 1000 then t\<lparr>TftpTimeoutMSecs := 1000\<rparr> else t);
          let (ip, name) = tftp_target c t;
          let t = t\<lparr>TftpRemoteIP := ip, tftp_filename := name, TftpWriting := (protocol = TFTPPUT)\<rparr>;
          let t = (if TftpWriting t
            then new_transfer (t\<lparr>NetBootFileXferSize := save_size t, TftpState := STATE_SEND_WRQ\<rparr>)
            else t\<lparr>TftpState := STATE_SEND_RRQ\<rparr>);
          let t = NetSetTimeout (TftpTimeoutMSecs t) Tftp_timeout_f
            (t\<lparr>TftpTimeoutCountMax := TftpRRQTimeoutCountMax t\<rparr>);
          Some (TftpSend (t\<lparr>udp_handler := True, icmp_handler_set := True,
            TftpRemotePort := WELL_KNOWN_PORT, TftpTimeoutCount := 0,
            TftpOurPort := 1024 + timer mod 3072, TftpBlock := 0, TftpBlkSize := TFTP_BLOCK_SIZE\<rparr>)) }"

section \<open>The loop\<close>

text \<open>
  What a turn of the loop of \<^verbatim>\<open>NetLoop\<close> can meet: the datagrams and ICMP messages that \<^verbatim>\<open>eth_rx\<close> hands
  out, and after them a timer that has run out. A turn is the list of these events, with the value
  of \<^verbatim>\<open>get_timer(0)\<close> for a restart; only after the turn \<^verbatim>\<open>net_state\<close> is looked at. The network is
  configured (\<^verbatim>\<open>net_check_prereq\<close> gives 0), the driver starts (\<^verbatim>\<open>eth_init\<close>) and no key is pressed.
\<close>

datatype net_event =
    Rx_udp "byte list" u32 u32 nat
  | Rx_icmp nat nat
  | Timer_expired

definition net_event_step :: "net_ctx \<Rightarrow> net_event \<Rightarrow> tftp \<Rightarrow> tftp option" where
  "net_event_step c e t =
     (case e of
        Rx_udp buf dest src len \<Rightarrow> if udp_handler t then TftpHandler c buf dest src len t else Some t
      | Rx_icmp type code \<Rightarrow> if icmp_handler_set t then tftp_icmp_handler c type code t else Some t
      | Timer_expired \<Rightarrow>
          (case timeHandler t of
             None \<Rightarrow> Some t
           | Some (_, Tftp_timeout_f) \<Rightarrow> TftpTimeout c (t\<lparr>timeHandler := None\<rparr>)
           | Some (_, Start_again_f) \<Rightarrow> Some (net_set_state NETLOOP_RESTART (t\<lparr>timeHandler := None\<rparr>))))"

fun net_turn :: "net_ctx \<Rightarrow> net_event list \<Rightarrow> tftp \<Rightarrow> tftp option" where
  "net_turn c [] t = Some t"
| "net_turn c (e # es) t = do { t \<leftarrow> net_event_step c e t; net_turn c es t }"

definition net_begin :: "net_ctx \<Rightarrow> u32 \<Rightarrow> proto_t \<Rightarrow> tftp \<Rightarrow> tftp option" where
  "net_begin c timer protocol t =
     TftpStart c timer protocol
       (t\<lparr>net_state := NETLOOP_CONTINUE, NetDevExists := True, NetBootFileXferSize := 0\<rparr>)"

text \<open>The end of the loop: \<^verbatim>\<open>net_cleanup_loop\<close> and the label \<^verbatim>\<open>done\<close>.\<close>

definition net_done :: "tftp \<Rightarrow> tftp" where
  "net_done t = t\<lparr>udp_handler := False, timeHandler := None, icmp_handler_set := False\<rparr>"

text \<open>The result is the return value, or \<open>None\<close> while the loop is still running.\<close>

fun net_loop :: "net_ctx \<Rightarrow> proto_t \<Rightarrow> (net_event list \<times> u32) list \<Rightarrow> tftp \<Rightarrow> (int option \<times> tftp) option" where
  "net_loop c protocol [] t = Some (None, t)"
| "net_loop c protocol ((es, now) # turns) t =
     do { t \<leftarrow> net_turn c es t;
          case net_state t of
            NETLOOP_CONTINUE \<Rightarrow> net_loop c protocol turns t
          | NETLOOP_RESTART \<Rightarrow> do { t \<leftarrow> net_begin c now protocol t; net_loop c protocol turns t }
          | NETLOOP_SUCCESS \<Rightarrow> Some (Some (sint (NetBootFileXferSize t)), net_done t)
          | NETLOOP_FAIL \<Rightarrow> Some (Some (- 1), net_done t) }"

text \<open>The variables \<^verbatim>\<open>filesize\<close> and \<^verbatim>\<open>fileaddr\<close> that a successful loop leaves in the environment.\<close>

definition sprintf_lX :: "u32 \<Rightarrow> byte list" where
  "sprintf_lX v = number (ucast v) 16 (- 1) (- 1) no_flags"

definition net_set_filesize ::
  "(nat \<Rightarrow> bool) \<Rightarrow> (nat \<Rightarrow> byte list \<Rightarrow> int) \<Rightarrow> tftp \<Rightarrow> uboot_env \<Rightarrow> uboot_env option" where
  "net_set_filesize mem assign t st =
     (if NetBootFileXferSize t > 0 then do {
        (_, st) \<leftarrow> setenv mem assign (bytes_of ''filesize'') (Some (sprintf_lX (NetBootFileXferSize t))) st;
        (_, st) \<leftarrow> setenv mem assign (bytes_of ''fileaddr'') (Some (sprintf_lX (load_addr st))) st;
        Some st }
      else Some st)"

definition NetLoop ::
  "(nat \<Rightarrow> bool) \<Rightarrow> (nat \<Rightarrow> byte list \<Rightarrow> int) \<Rightarrow> net_ctx \<Rightarrow> u32 \<Rightarrow> proto_t \<Rightarrow> (net_event list \<times> u32) list \<Rightarrow> tftp
   \<Rightarrow> (int option \<times> tftp \<times> uboot_env) option" where
  "NetLoop mem assign c timer protocol turns t =
     do { t \<leftarrow> net_begin c timer protocol (t\<lparr>NetTryCount := 1, NetDevExists := False\<rparr>);
          (ret, t) \<leftarrow> net_loop c protocol turns t;
          st \<leftarrow> (if net_state t = NETLOOP_SUCCESS then net_set_filesize mem assign t (ctx_env c) else Some (ctx_env c));
          Some (ret, t, st) }"

section \<open>Bytes\<close>

lemma htons_back: "unat v < 65536 \<Longrightarrow> ucast (ucast (drop_bit 8 v) :: byte) * 256 + ucast (ucast v :: byte) = (v :: u32)"
proof -
  assume v: "unat v < 65536"
  have lo: "unat (ucast (ucast v :: byte) :: u32) = unat v mod 256"
    by (simp add: unsigned_ucast_eq take_bit_eq_mod unat_mod)
  have hi: "unat (ucast (ucast (drop_bit 8 v) :: byte) :: u32) = unat v div 256"
    using v by (simp add: unsigned_ucast_eq take_bit_eq_mod unsigned_drop_bit_eq drop_bit_eq_div unat_mod unat_div)
  have "unat (ucast (ucast (drop_bit 8 v) :: byte) * 256 + ucast (ucast v :: byte) :: u32) = unat v div 256 * 256 + unat v mod 256"
    using v lo hi by (simp add: unat_word_ariths)
  then show ?thesis
    by (simp add: word_unat_eq_iff)
qed

lemma ntohs_htons: "unat v < 65536 \<Longrightarrow> ntohs_at (htons v @ p) 0 = v"
  using htons_back [of v] by (simp add: ntohs_at_def htons_def rd_def)

lemma ram_write_at:
  assumes "off + length src \<le> 2 ^ 32" and "i < 2 ^ 32"
  shows "ram_write (L + of_nat off) src m (L + of_nat i) =
    (if off \<le> i \<and> i < off + length src then src ! (i - off) else m (L + of_nat i))"
proof -
  let ?d = "(L + of_nat i) - (L + of_nat off) :: u32"
  have d: "?d = of_nat i - of_nat off"
    by simp
  show ?thesis
  proof (cases "off \<le> i")
    case True
    then have "?d = of_nat (i - off)"
      by simp
    moreover have "i - off < 2 ^ 32"
      using assms(2) by simp
    ultimately have "unat ?d = i - off"
      by (simp add: unsigned_of_nat take_bit_nat_eq_self)
    with True show ?thesis
      by (auto simp: ram_write_def)
  next
    case False
    then have "?d = of_nat (2 ^ 32 - (off - i))"
      using assms(1) by (simp add: of_nat_diff)
    moreover have "2 ^ 32 - (off - i) < 2 ^ 32"
      using False by simp
    ultimately have "unat ?d = 2 ^ 32 - (off - i)"
      by (simp add: unsigned_of_nat take_bit_nat_eq_self)
    with False assms(1) show ?thesis
      by (auto simp: ram_write_def)
  qed
qed


section \<open>One data packet\<close>

text \<open>Block \<open>n\<close> (from 1) of a file, the number of blocks, and the datagram that carries one.\<close>

definition tftp_block :: "byte list \<Rightarrow> nat \<Rightarrow> nat \<Rightarrow> byte list" where
  "tftp_block f bs n = take bs (drop ((n - 1) * bs) f)"

definition tftp_blocks :: "byte list \<Rightarrow> nat \<Rightarrow> nat" where
  "tftp_blocks f bs = length f div bs + 1"

definition data_event :: "byte list \<Rightarrow> nat \<Rightarrow> u32 \<Rightarrow> u32 \<Rightarrow> nat \<Rightarrow> byte list \<Rightarrow> net_event" where
  "data_event f bs port src n rest =
     Rx_udp (htons TFTP_DATA @ htons (of_nat n) @ tftp_block f bs n @ rest) port src (4 + length (tftp_block f bs n))"

lemma length_htons [simp]: "length (htons v) = 2"
  by (simp add: htons_def)

lemma handler_data:
  assumes "udp_handler t" and "TftpOurPort t = port" and "TftpState t = STATE_SEND_RRQ \<or> TftpRemotePort t = src"
  shows "net_event_step c (data_event f bs port src n rest) t =
    tftp_data c (htons (of_nat n) @ tftp_block f bs n @ rest) (2 + length (tftp_block f bs n)) src t"
proof -
  have "ntohs_at (htons TFTP_DATA @ p) 0 = TFTP_DATA" for p
    by (rule ntohs_htons) (simp add: TFTP_DATA_def)
  then show ?thesis
    using assms
    by (auto simp: net_event_step_def data_event_def TftpHandler_def TFTP_DATA_def TFTP_ACK_def TFTP_OACK_def)
qed

lemma block_bytes: "map (\<lambda>i. rd (htons v @ b @ rest) (2 + i)) [0..<length b] = b"
  by (rule nth_equalityI) (auto simp: rd_def htons_def nth_append)

lemma of_nat_unat: "n < 65536 \<Longrightarrow> unat (of_nat n :: u32) = n"
  by (simp add: unsigned_of_nat take_bit_nat_eq_self)

lemma data_next:
  assumes "TftpState t = STATE_DATA" and "0 < n" and "n < 65536"
  shows "tftp_data c (htons (of_nat n) @ b @ rest) (2 + length b) src t =
    Some (if of_nat n = TftpLastBlock t then t\<lparr>TftpBlock := of_nat n\<rparr>
      else tftp_accept c b (t\<lparr>TftpBlock := of_nat n\<rparr>))"
proof -
  have "ntohs_at (htons (of_nat n) @ b @ rest) 0 = of_nat n" "(of_nat n :: u32) \<noteq> 0"
    using assms(2,3) of_nat_unat [OF assms(3)] by (auto intro!: ntohs_htons)
  then show ?thesis
    using assms(1) block_bytes [of "of_nat n" b rest] by (simp add: tftp_data_def update_block_number_def)
qed

lemma data_first:
  assumes "TftpState t = STATE_SEND_RRQ \<or> TftpState t = STATE_OACK"
  shows "tftp_data c (htons 1 @ b @ rest) (2 + length b) src t =
    Some (tftp_accept c b (new_transfer (t\<lparr>TftpBlock := 1, TftpState := STATE_DATA, TftpRemotePort := src\<rparr>)))"
proof -
  have "ntohs_at (htons 1 @ b @ rest) 0 = 1"
    by (rule ntohs_htons) simp
  then show ?thesis
    using assms block_bytes [of 1 b rest]
    by (auto simp: tftp_data_def update_block_number_def new_transfer_def)
qed

lemma send_ack:
  "TftpState t = STATE_DATA \<Longrightarrow> \<not> TftpWriting t \<Longrightarrow>
   TftpSend t = t\<lparr>net_sent := net_sent t @
     [(udp_dest (TftpRemoteIP t), TftpRemotePort t, TftpOurPort t, htons TFTP_ACK @ htons (TftpBlock t))]\<rparr>"
  by (simp add: TftpSend_def NetSendUDPPacket_def)

lemma store_block_eq:
  "store_block c n b t =
    (let off = n * ucast (TftpBlkSize t) + TftpBlockWrapOffset t; new = off + of_nat (length b)
     in t\<lparr>net_ram := ram_write (load_addr (ctx_env c) + off) b (net_ram t),
          NetBootFileXferSize := if NetBootFileXferSize t < new then new else NetBootFileXferSize t\<rparr>)"
  by (simp add: store_block_def Let_def)

lemma accept_fields:
  assumes "TftpState t = STATE_DATA" and "\<not> TftpWriting t"
    and "off = (TftpBlock t - 1) * ucast (TftpBlkSize t) + TftpBlockWrapOffset t"
  shows "net_ram (tftp_accept c b t) = ram_write (load_addr (ctx_env c) + off) b (net_ram t)"
    and "NetBootFileXferSize (tftp_accept c b t) =
      (if NetBootFileXferSize t < off + of_nat (length b) then off + of_nat (length b) else NetBootFileXferSize t)"
    and "net_state (tftp_accept c b t) = (if length b < unat (TftpBlkSize t) then NETLOOP_SUCCESS else net_state t)"
    and "net_sent (tftp_accept c b t) = net_sent t @
      [(udp_dest (TftpRemoteIP t), TftpRemotePort t, TftpOurPort t, htons TFTP_ACK @ htons (TftpBlock t))]"
    and "timeHandler (tftp_accept c b t) =
      (if TftpTimeoutMSecs t = 0 then None else Some (TftpTimeoutMSecs t, Tftp_timeout_f))"
    and "TftpLastBlock (tftp_accept c b t) = TftpBlock t"
    and "TftpTimeoutCountMax (tftp_accept c b t) = TIMEOUT_COUNT"
    and "TftpTimeoutCount (tftp_accept c b t) = TftpTimeoutCount t"
    and "TftpState (tftp_accept c b t) = STATE_DATA" and "\<not> TftpWriting (tftp_accept c b t)"
    and "TftpOurPort (tftp_accept c b t) = TftpOurPort t"
    and "TftpRemotePort (tftp_accept c b t) = TftpRemotePort t"
    and "TftpBlkSize (tftp_accept c b t) = TftpBlkSize t"
    and "TftpBlockWrapOffset (tftp_accept c b t) = TftpBlockWrapOffset t"
    and "udp_handler (tftp_accept c b t) = udp_handler t"
  using assms
  by (simp_all add: tftp_accept_def NetSetTimeout_def store_block_eq send_ack
      tftp_complete_def net_set_state_def Let_def)

section \<open>A transfer\<close>

text \<open>
  What reaches the client while a file of \<open>N\<close> blocks of \<open>bs\<close> bytes is sent by a server that waits for each
  block to be acknowledged: OACK packets, data packets and timeouts. OACK packets answer the request; the
  server repeats them until the first block is out, and \<open>w\<close> is the block size the client has read from
  them so far. The next data packet carries the block after
  the highest one so far or repeats any earlier one, since the network may lose, repeat
  and delay packets; \<open>k\<close> is the number of timeouts that may still happen. The last
  packet is the first one with block \<open>N\<close>. An OACK packet that is delayed past the first block is not covered:
  see \<open>late_oack_restarts\<close> below.
\<close>

datatype delivery = Deliver nat "byte list" | Timeout | Oack "byte list" nat

fun delivered :: "nat \<Rightarrow> nat \<Rightarrow> nat \<Rightarrow> nat \<Rightarrow> 16 word \<Rightarrow> delivery list \<Rightarrow> bool" where
  "delivered bs N m k w [] = False"
| "delivered bs N m k w (Timeout # es) = (0 < k \<and> delivered bs N m (k - 1) w es)"
| "delivered bs N m k w (Oack pkt len # es) = (m = 0 \<and> delivered bs N m k (oack_blksize pkt len w) es)"
| "delivered bs N m k w (Deliver n rest # es) =
     (unat w = bs \<and> 0 < n \<and> n \<le> m + 1 \<and> (if n = N then es = [] else delivered bs N (max m n) k w es))"

fun delivery_event :: "byte list \<Rightarrow> nat \<Rightarrow> u32 \<Rightarrow> u32 \<Rightarrow> delivery \<Rightarrow> net_event" where
  "delivery_event f bs port src (Deliver n rest) = data_event f bs port src n rest"
| "delivery_event f bs port src Timeout = Timer_expired"
| "delivery_event f bs port src (Oack pkt len) = Rx_udp (htons TFTP_OACK @ pkt) port src (2 + len)"

text \<open>The client after the first \<open>m\<close> blocks of \<open>f\<close>.\<close>

definition receiving ::
  "net_ctx \<Rightarrow> byte list \<Rightarrow> nat \<Rightarrow> u32 \<Rightarrow> u32 \<Rightarrow> (u32 \<Rightarrow> byte) \<Rightarrow> nat \<Rightarrow> nat \<Rightarrow> tftp \<Rightarrow> bool" where
  "receiving c f bs port src ram m k t \<longleftrightarrow>
     net_state t = NETLOOP_CONTINUE \<and> udp_handler t \<and> \<not> TftpWriting t \<and> TftpOurPort t = port \<and>
     unat (TftpBlkSize t) = bs \<and> TftpTimeoutCount t + int k \<le> min (TftpTimeoutCountMax t) TIMEOUT_COUNT \<and>
     (\<forall>iv h. timeHandler t = Some (iv, h) \<longrightarrow> h = Tftp_timeout_f) \<and>
     NetBootFileXferSize t = of_nat (m * bs) \<and>
     (if m = 0
      then TftpState t = STATE_SEND_RRQ \<or> TftpState t = STATE_OACK \<and> TftpRemotePort t = src
      else TftpState t = STATE_DATA \<and> TftpRemotePort t = src \<and> TftpBlockWrapOffset t = 0 \<and>
        0 < unat (TftpLastBlock t) \<and> unat (TftpLastBlock t) \<le> m) \<and>
     (\<forall>i<2 ^ 32. net_ram t (load_addr (ctx_env c) + of_nat i) =
        (if i < m * bs then f ! i else ram (load_addr (ctx_env c) + of_nat i)))"

lemma blocks_bound:
  assumes "0 < bs"
  shows "n < tftp_blocks f bs \<longleftrightarrow> n * bs \<le> length f"
  using assms by (simp add: tftp_blocks_def less_Suc_eq_le less_eq_div_iff_mult_less_eq)

lemma block_length:
  assumes "0 < bs" and "0 < n" and "n \<le> tftp_blocks f bs"
  shows "length (tftp_block f bs n) = (if n = tftp_blocks f bs then length f - (n - 1) * bs else bs)"
    and "length (tftp_block f bs n) < bs \<longleftrightarrow> n = tftp_blocks f bs"
    and "(n - 1) * bs + length (tftp_block f bs n) \<le> length f"
proof -
  have lo: "(n - 1) * bs \<le> length f"
    using blocks_bound [OF assms(1), of "n - 1" f] assms(2,3) by auto
  have full: "n * bs \<le> length f" if "n \<noteq> tftp_blocks f bs"
    using that blocks_bound [OF assms(1), of n f] assms(3) by auto
  have last: "length f < n * bs" if "n = tftp_blocks f bs"
    using that blocks_bound [OF assms(1), of n f] by auto
  have n: "n * bs = (n - 1) * bs + bs"
    using assms(2) by (cases n) simp_all
  show "length (tftp_block f bs n) = (if n = tftp_blocks f bs then length f - (n - 1) * bs else bs)"
    "length (tftp_block f bs n) < bs \<longleftrightarrow> n = tftp_blocks f bs"
    "(n - 1) * bs + length (tftp_block f bs n) \<le> length f"
    using lo full last n by (cases "n = tftp_blocks f bs"; auto simp: tftp_block_def min_def)+
qed

lemma block_nth: "i < length (tftp_block f bs n) \<Longrightarrow> tftp_block f bs n ! i = f ! ((n - 1) * bs + i)"
  by (cases "(n - 1) * bs \<le> length f") (simp_all add: tftp_block_def)

text \<open>The memory after block \<open>n\<close> was stored over the first \<open>m\<close> blocks.\<close>

lemma ram_block:
  assumes bs: "0 < bs" and n: "0 < n" "n \<le> m + 1" "n \<le> tftp_blocks f bs" and size: "length f < 2 ^ 32"
    and m: "m * bs \<le> length f"
    and ram: "\<forall>i<2 ^ 32. r (L + of_nat i) = (if i < m * bs then f ! i else ram (L + of_nat i))"
    and i: "i < 2 ^ 32"
  shows "ram_write (L + of_nat ((n - 1) * bs)) (tftp_block f bs n) r (L + of_nat i) =
    (if i < max (m * bs) ((n - 1) * bs + length (tftp_block f bs n)) then f ! i else ram (L + of_nat i))"
proof -
  define off where "off = (n - 1) * bs"
  let ?b = "tftp_block f bs n"
  have "off + length ?b \<le> 2 ^ 32"
    using block_length(3) [OF bs n(1,3)] size by (simp add: off_def)
  moreover have "off \<le> m * bs"
    unfolding off_def using n(2) by (intro mult_le_mono1) simp
  moreover have "?b ! (i - off) = f ! i" if "off \<le> i" "i < off + length ?b"
    using that block_nth [of "i - off" f bs n] by (simp add: off_def)
  moreover have "r (L + of_nat i) = (if i < m * bs then f ! i else ram (L + of_nat i))"
    using ram i by blast
  ultimately show ?thesis
    unfolding off_def [symmetric] by (simp only: ram_write_at [OF _ i]) auto
qed

lemma mult_sizes: "n < 65536 \<Longrightarrow> bs < 65536 \<Longrightarrow> (n::nat) * bs < 2 ^ 32"
  using mult_le_mono [of n 65535 bs 65535] by simp

lemma of_nat_less: "a < 2 ^ 32 \<Longrightarrow> b < 2 ^ 32 \<Longrightarrow> (of_nat a :: u32) < of_nat b \<longleftrightarrow> a < b"
  by (simp add: word_less_nat_alt unsigned_of_nat take_bit_nat_eq_self)

text \<open>The client after a packet with block \<open>n\<close> was accepted in a state \<open>t\<close> prepared for it.\<close>

lemma accept_block:
  assumes bs: "0 < bs" "unat (TftpBlkSize t) = bs" and n: "0 < n" "n \<le> m + 1" "n \<le> tftp_blocks f bs"
    and N: "tftp_blocks f bs < 65536" and m: "m < tftp_blocks f bs"
    and t: "TftpState t = STATE_DATA" "\<not> TftpWriting t" "TftpBlock t = of_nat n" "TftpBlockWrapOffset t = 0"
      "NetBootFileXferSize t = of_nat (m * bs)"
    and ram: "\<forall>i<2 ^ 32. net_ram t (load_addr (ctx_env c) + of_nat i) =
        (if i < m * bs then f ! i else ram (load_addr (ctx_env c) + of_nat i))"
  defines "hi \<equiv> max (m * bs) ((n - 1) * bs + length (tftp_block f bs n))"
  shows "NetBootFileXferSize (tftp_accept c (tftp_block f bs n) t) = of_nat hi"
    and "\<forall>i<2 ^ 32. net_ram (tftp_accept c (tftp_block f bs n) t) (load_addr (ctx_env c) + of_nat i) =
        (if i < hi then f ! i else ram (load_addr (ctx_env c) + of_nat i))"
proof -
  let ?b = "tftp_block f bs n" and ?off = "(n - 1) * bs"
  have "bs < 65536"
    using bs(2) unsigned_less [of "TftpBlkSize t", where ?'a = nat] by simp
  then have size: "length f < 2 ^ 32"
    using blocks_bound [OF bs(1), of "tftp_blocks f bs" f] mult_sizes [OF N, of bs] by simp
  have mb: "m * bs \<le> length f"
    using m blocks_bound [OF bs(1)] by blast
  have "ucast (TftpBlkSize t) = (of_nat bs :: u32)"
    using bs(2) by (simp add: word_unat_eq_iff unsigned_ucast_eq unsigned_of_nat)
  then have off: "(TftpBlock t - 1) * ucast (TftpBlkSize t) + TftpBlockWrapOffset t = of_nat ?off"
    using n(1) t(3,4) by (cases n) simp_all
  note acc = accept_fields [OF t(1,2) refl, unfolded off, of c ?b]
  have "?off + length ?b < 2 ^ 32"
    using block_length(3) [OF bs(1) n(1,3)] size by simp
  then show "NetBootFileXferSize (tftp_accept c ?b t) = of_nat hi"
    using acc(2) t(5) of_nat_less [of "m * bs" "?off + length ?b"] mb size
    by (auto simp: hi_def max_def not_less)
  show "\<forall>i<2 ^ 32. net_ram (tftp_accept c ?b t) (load_addr (ctx_env c) + of_nat i) =
        (if i < hi then f ! i else ram (load_addr (ctx_env c) + of_nat i))"
    using ram_block [OF bs(1) n size mb ram] unfolding acc(1) hi_def by blast
qed


text \<open>The whole file is in memory and nothing else has changed.\<close>

definition received :: "net_ctx \<Rightarrow> byte list \<Rightarrow> (u32 \<Rightarrow> byte) \<Rightarrow> tftp \<Rightarrow> bool" where
  "received c f ram t \<longleftrightarrow> net_state t = NETLOOP_SUCCESS \<and> NetBootFileXferSize t = of_nat (length f) \<and>
     (\<forall>i<2 ^ 32. net_ram t (load_addr (ctx_env c) + of_nat i) =
        (if i < length f then f ! i else ram (load_addr (ctx_env c) + of_nat i)))"

definition acked :: "u32 \<Rightarrow> u32 \<Rightarrow> nat \<Rightarrow> tftp \<Rightarrow> bool" where
  "acked port src n t \<longleftrightarrow>
     (\<exists>ip ps. net_sent t = ps @ [(ip, src, port, htons TFTP_ACK @ htons (of_nat n))])"

lemma accepted:
  assumes bs: "0 < bs" and n: "0 < n" "n \<le> m + 1" and N: "tftp_blocks f bs < 65536" and m: "m < tftp_blocks f bs"
    and t: "TftpState t = STATE_DATA" "TftpBlock t = of_nat n" "TftpBlockWrapOffset t = 0" "TftpRemotePort t = src"
    and base: "net_state t = NETLOOP_CONTINUE" "udp_handler t" "\<not> TftpWriting t" "TftpOurPort t = port"
      "unat (TftpBlkSize t) = bs" "TftpTimeoutCount t + int k \<le> min (TftpTimeoutCountMax t) TIMEOUT_COUNT"
      "NetBootFileXferSize t = of_nat (m * bs)"
    and ram: "\<forall>i<2 ^ 32. net_ram t (load_addr (ctx_env c) + of_nat i) =
        (if i < m * bs then f ! i else ram (load_addr (ctx_env c) + of_nat i))"
  defines "t' \<equiv> tftp_accept c (tftp_block f bs n) t"
  shows "if n = tftp_blocks f bs then received c f ram t' \<and> acked port src n t'
    else receiving c f bs port src ram (max m n) k t'"
proof -
  let ?b = "tftp_block f bs n"
  have nN: "n \<le> tftp_blocks f bs"
    using n(2) m by simp
  note acc = accept_fields [OF t(1) base(3) refl, of c ?b, folded t'_def]
  note blk = accept_block [OF bs base(5) n nN N m t(1) base(3) t(2,3) base(7) ram, folded t'_def]
  note len = block_length [OF bs n(1) nN]
  show ?thesis
  proof (cases "n = tftp_blocks f bs")
    case True
    then have "max (m * bs) ((n - 1) * bs + length ?b) = length f"
      using len(1,3) m blocks_bound [OF bs, of m f] blocks_bound [OF bs, of "n - 1" f] n(1) by (simp add: max_def)
    then show ?thesis
      using True blk len(2) acc(3,4) base(4,5) t(2,4) by (simp add: received_def acked_def)
  next
    case False
    then have "(n - 1) * bs + length ?b = n * bs"
      using len(1) n(1) by (cases n) simp_all
    then have hi: "max (m * bs) ((n - 1) * bs + length ?b) = max m n * bs"
      using bs by (simp add: max_def)
    have "n < 65536"
      using nN N by simp
    then have "unat (TftpLastBlock t') = n"
      using acc(6) t(2) of_nat_unat by simp
    then show ?thesis
      using False blk acc len(2) base t n(1) hi by (auto simp: receiving_def)
  qed
qed


lemma data_step:
  assumes bs: "0 < bs" and n: "0 < n" "n \<le> m + 1" and N: "tftp_blocks f bs < 65536" and m: "m < tftp_blocks f bs"
    and recv: "receiving c f bs port src ram m k t"
  shows "\<exists>t'. net_event_step c (data_event f bs port src n rest) t = Some t' \<and>
    (if n = tftp_blocks f bs then received c f ram t' \<and> acked port src n t'
     else receiving c f bs port src ram (max m n) k t')"
proof -
  have step: "net_event_step c (data_event f bs port src n rest) t =
    tftp_data c (htons (of_nat n) @ tftp_block f bs n @ rest) (2 + length (tftp_block f bs n)) src t"
    using recv by (intro handler_data) (auto simp: receiving_def split: if_splits)
  have n': "n < 65536"
    using n(2) m N by simp
  show ?thesis
  proof (cases "m = 0")
    case True
    then have one: "n = 1"
      using n by simp
    let ?t = "new_transfer (t\<lparr>TftpBlock := 1, TftpState := STATE_DATA, TftpRemotePort := src\<rparr>)"
    have "net_event_step c (data_event f bs port src n rest) t = Some (tftp_accept c (tftp_block f bs n) ?t)"
      unfolding step using data_first [of t c "tftp_block f bs n" rest src] recv True one
      by (auto simp: receiving_def)
    moreover have "if n = tftp_blocks f bs
      then received c f ram (tftp_accept c (tftp_block f bs n) ?t) \<and> acked port src n (tftp_accept c (tftp_block f bs n) ?t)
      else receiving c f bs port src ram (max m n) k (tftp_accept c (tftp_block f bs n) ?t)"
      using recv True one by (intro accepted [OF bs n N m]) (auto simp: receiving_def new_transfer_def)
    ultimately show ?thesis by blast
  next
    case False
    then have data: "TftpState t = STATE_DATA"
      using recv by (simp add: receiving_def)
    show ?thesis
    proof (cases "of_nat n = TftpLastBlock t")
      case True
      then have "n \<le> m"
        using recv False of_nat_unat [OF n'] by (simp add: receiving_def)
      then have "max m n = m" "n \<noteq> tftp_blocks f bs"
        using m by simp_all
      then show ?thesis
        unfolding step using recv True data_next [OF data n(1) n', of c "tftp_block f bs n" rest src]
        by (simp add: receiving_def)
    next
      case new: False
      let ?t = "t\<lparr>TftpBlock := of_nat n\<rparr>"
      have "net_event_step c (data_event f bs port src n rest) t = Some (tftp_accept c (tftp_block f bs n) ?t)"
        unfolding step using new data_next [OF data n(1) n', of c "tftp_block f bs n" rest src] by simp
      moreover have "if n = tftp_blocks f bs
        then received c f ram (tftp_accept c (tftp_block f bs n) ?t) \<and> acked port src n (tftp_accept c (tftp_block f bs n) ?t)
        else receiving c f bs port src ram (max m n) k (tftp_accept c (tftp_block f bs n) ?t)"
        using recv False by (intro accepted [OF bs n N m]) (auto simp: receiving_def)
      ultimately show ?thesis by blast
    qed
  qed
qed

text \<open>A timeout sends the last packet once more and changes nothing else of the transfer.\<close>

lemma timeout_step:
  assumes "receiving c f bs port src ram m k t" and "0 < k"
  shows "\<exists>t'. net_event_step c Timer_expired t = Some t' \<and> receiving c f bs port src ram m (k - 1) t'"
proof (cases "timeHandler t")
  case None
  then show ?thesis
    using assms by (auto simp: net_event_step_def receiving_def)
next
  case (Some a)
  then obtain iv where "timeHandler t = Some (iv, Tftp_timeout_f)"
    using assms(1) by (cases a) (auto simp: receiving_def)
  moreover have "\<not> TftpTimeoutCountMax t < TftpTimeoutCount t + 1"
    using assms by (simp add: receiving_def)
  ultimately show ?thesis
    using assms
    by (auto simp: net_event_step_def TftpTimeout_def NetSetTimeout_def TftpSend_def NetSendUDPPacket_def
        receiving_def Let_def split: if_splits)
qed

text \<open>An OACK packet before the first block sets the block size.\<close>

lemma oack_step:
  assumes "receiving c f (unat w) port src ram 0 k t"
  shows "\<exists>t'. net_event_step c (Rx_udp (htons TFTP_OACK @ pkt) port src (2 + len)) t = Some t' \<and>
    receiving c f (unat (oack_blksize pkt len w)) port src ram 0 k t'"
proof -
  have "ntohs_at (htons TFTP_OACK @ pkt) 0 = TFTP_OACK"
    by (rule ntohs_htons) (simp add: TFTP_OACK_def)
  then have "net_event_step c (Rx_udp (htons TFTP_OACK @ pkt) port src (2 + len)) t = Some (tftp_oack pkt len src t)"
    using assms by (auto simp: net_event_step_def TftpHandler_def receiving_def TFTP_OACK_def TFTP_ACK_def)
  moreover have "TftpBlkSize t = w"
    using assms by (simp add: receiving_def word_unat_eq_iff)
  then have "receiving c f (unat (oack_blksize pkt len w)) port src ram 0 k (tftp_oack pkt len src t)"
    using assms by (simp add: receiving_def tftp_oack_def TftpSend_def NetSendUDPPacket_def)
  ultimately show ?thesis by blast
qed

text \<open>A turn with some of the packets: the transfer goes on, or the turn completes it.\<close>

lemma turn_step:
  assumes bs: "0 < bs" and N: "tftp_blocks f bs < 65536"
  shows "receiving c f (unat w) port src ram m k t \<Longrightarrow> m < tftp_blocks f bs \<Longrightarrow>
    delivered bs (tftp_blocks f bs) m k w (ds @ rest) \<Longrightarrow>
    \<exists>t'. net_turn c (map (delivery_event f bs port src) ds) t = Some t' \<and>
      (received c f ram t' \<and> acked port src (tftp_blocks f bs) t' \<or>
       (\<exists>m' k' w'. receiving c f (unat w') port src ram m' k' t' \<and> m' < tftp_blocks f bs \<and>
         delivered bs (tftp_blocks f bs) m' k' w' rest))"
proof (induction ds arbitrary: t m k w)
  case Nil
  then show ?case by auto
next
  case (Cons d ds)
  show ?case
  proof (cases d)
    case Timeout
    then obtain t' where "net_event_step c Timer_expired t = Some t'"
      "receiving c f (unat w) port src ram m (k - 1) t'"
      using timeout_step [OF Cons(2)] Cons(4) by auto
    then show ?thesis
      using Cons(1) [of w m "k - 1" t'] Cons(3,4) Timeout by simp
  next
    case (Oack pkt len)
    then have "m = 0"
      using Cons(4) by simp
    then obtain t' where "net_event_step c (Rx_udp (htons TFTP_OACK @ pkt) port src (2 + len)) t = Some t'"
      "receiving c f (unat (oack_blksize pkt len w)) port src ram m k t'"
      using oack_step [of c f w port src ram k t pkt len] Cons(2) by auto
    moreover have "delivered bs (tftp_blocks f bs) m k (oack_blksize pkt len w) (ds @ rest)"
      using Cons(4) unfolding Oack by auto
    ultimately show ?thesis
      using Cons(1) [OF _ Cons(3)] Oack by simp
  next
    case (Deliver n junk)
    then have n: "0 < n" "n \<le> m + 1" and w: "unat w = bs"
      using Cons(4) by simp_all
    obtain t' where t': "net_event_step c (data_event f bs port src n junk) t = Some t'"
      "if n = tftp_blocks f bs then received c f ram t' \<and> acked port src n t'
       else receiving c f bs port src ram (max m n) k t'"
      using data_step [OF bs n N Cons(3) Cons(2) [unfolded w]] by blast
    show ?thesis
    proof (cases "n = tftp_blocks f bs")
      case True
      then show ?thesis
        using t' Cons(4) Deliver by simp
    next
      case False
      then have "max m n < tftp_blocks f bs"
        using n(2) Cons(3) by simp
      then show ?thesis
        using Cons(1) [of w "max m n" k t'] t' w False Cons(4) Deliver by simp
    qed
  qed
qed

lemma done_received [simp]:
  "received c f ram (net_done t) = received c f ram t" "acked port src n (net_done t) = acked port src n t"
  by (simp_all add: received_def acked_def net_done_def)

definition delivery_turns ::
  "byte list \<Rightarrow> nat \<Rightarrow> u32 \<Rightarrow> u32 \<Rightarrow> (delivery list \<times> u32) list \<Rightarrow> (net_event list \<times> u32) list" where
  "delivery_turns f bs port src turns = map (\<lambda>(ds, now). (map (delivery_event f bs port src) ds, now)) turns"

lemma transfer:
  assumes bs: "0 < bs" and N: "tftp_blocks f bs < 65536"
  shows "receiving c f (unat w) port src ram m k t \<Longrightarrow> m < tftp_blocks f bs \<Longrightarrow>
    delivered bs (tftp_blocks f bs) m k w (concat (map fst turns)) \<Longrightarrow>
    \<exists>t'. net_loop c TFTPGET (delivery_turns f bs port src turns) t = Some (Some (sint (NetBootFileXferSize t')), t') \<and>
      received c f ram t' \<and> acked port src (tftp_blocks f bs) t'"
proof (induction turns arbitrary: t m k w)
  case Nil
  then show ?case by simp
next
  case (Cons turn turns)
  obtain ds now where turn: "turn = (ds, now)"
    by (cases turn)
  have "delivered bs (tftp_blocks f bs) m k w (ds @ concat (map fst turns))"
    using Cons(4) turn by simp
  then obtain t' where t': "net_turn c (map (delivery_event f bs port src) ds) t = Some t'"
    "received c f ram t' \<and> acked port src (tftp_blocks f bs) t' \<or>
     (\<exists>m' k' w'. receiving c f (unat w') port src ram m' k' t' \<and> m' < tftp_blocks f bs \<and>
       delivered bs (tftp_blocks f bs) m' k' w' (concat (map fst turns)))"
    using turn_step [OF bs N Cons(2,3)] by blast
  from t'(2) show ?case
  proof (elim disjE exE conjE)
    assume fin: "received c f ram t'" "acked port src (tftp_blocks f bs) t'"
    then have "net_loop c TFTPGET (delivery_turns f bs port src (turn # turns)) t =
      Some (Some (sint (NetBootFileXferSize (net_done t'))), net_done t')"
      using t'(1) turn by (simp add: received_def delivery_turns_def net_done_def)
    with fin show ?thesis
      by (intro exI [of _ "net_done t'"]) simp
  next
    fix m' k' w'
    assume "receiving c f (unat w') port src ram m' k' t'" "m' < tftp_blocks f bs"
      "delivered bs (tftp_blocks f bs) m' k' w' (concat (map fst turns))"
    then show ?thesis
      using Cons(1) [of w' m' k' t'] t'(1) turn by (simp add: receiving_def delivery_turns_def)
  qed
qed

section \<open>From the request to the file\<close>

definition tftp_port :: "u32 \<Rightarrow> u32" where
  "tftp_port timer = 1024 + timer mod 3072"

lemma start_receiving:
  assumes env: "env_ready (ctx_env c)" "htab_ok (env_htab (ctx_env c))"
    and k: "int k \<le> min (TftpRRQTimeoutCountMax t) TIMEOUT_COUNT"
  shows "\<exists>t1. net_begin c timer TFTPGET t = Some t1 \<and> TftpState t1 = STATE_SEND_RRQ \<and>
    receiving c f (unat TFTP_BLOCK_SIZE) (tftp_port timer) src (net_ram t) 0 k t1"
proof -
  have "0 \<notin> set (bytes_of ''tftpblocksize'')" "0 \<notin> set (bytes_of ''tftptimeout'')"
    by (simp_all add: bytes_of_def)
  then obtain bs to where get: "ctx_getenv c ''tftpblocksize'' = Some bs" "ctx_getenv c ''tftptimeout'' = Some to"
    using getenv_ready [OF env] by (simp add: ctx_getenv_def)
  show ?thesis
    using k unfolding net_begin_def TftpStart_def get
    by (auto simp: Let_def receiving_def tftp_port_def TftpSend_def NetSendUDPPacket_def NetSetTimeout_def
        TFTP_BLOCK_SIZE_def split: option.split prod.split)
qed

section \<open>The variables a transfer sets\<close>

lemma sprintf_lX_eq: "sprintf_lX v = map (digit_char False) (rev (put_pow2 4 (unat v)))"
  by (cases "unat v = 0")
    (auto simp: sprintf_lX_def number_def no_flags_def Let_def put_pow2_0 rev_map)

lemma sprintf_lX_string: "0 \<notin> set (sprintf_lX v)" "sprintf_lX v \<noteq> []"
proof -
  have "digit_char False d \<noteq> 0" if "d \<in> set (put_pow2 4 (unat v))" for d
    using put_pow2_digits [OF that] digit_char_facts by fastforce
  then show "0 \<notin> set (sprintf_lX v)"
    by (force simp: sprintf_lX_eq)
  show "sprintf_lX v \<noteq> []"
    by (simp add: sprintf_lX_eq)
qed

lemma setenv_put:
  assumes "env_ready st" and "htab_ok (env_htab st)" and "0 < free_slots (env_htab st)" and "plain_name name"
    and "0 \<notin> set v" and "v \<noteq> []" and "name \<noteq> bytes_of ''loadaddr''"
  shows "\<exists>st'. setenv (\<lambda>_. True) assign name (Some v) st = Some (0, st') \<and> env_ready st' \<and>
    htab_ok (env_htab st') \<and> htab_map (env_htab st') = (htab_map (env_htab st))(name \<mapsto> v) \<and>
    free_slots (env_htab st) \<le> free_slots (env_htab st') + 1 \<and> load_addr st' = load_addr st"
proof -
  have "0 \<notin> set name"
    using assms(4) by (simp add: plain_name_def)
  then obtain h where h: "hput name v (env_htab st) = Some h" "htab_ok h"
    "htab_map h = (htab_map (env_htab st))(name \<mapsto> v)" "free_slots (env_htab st) \<le> free_slots h + 1"
    using hv.put_law [OF assms(2,3) _ assms(5)] by blast
  obtain r h' where r: "hsearch_r (\<lambda>_. True) name (Some v) ENTER (env_htab st) = Some (r, h')"
    "(case r of Herror _ \<Rightarrow> None | Hfound _ _ \<Rightarrow> Some h') = Some h"
    using h(1) by (auto simp: hput_def bind_eq_Some_conv)
  then obtain i s where enter: "hsearch_r (\<lambda>_. True) name (Some v) ENTER (env_htab st) = Some (Hfound i s, h)"
    by (cases r) auto
  let ?st = "env_follow name v (st\<lparr>env_id := env_id st + 1, env_htab := h\<rparr>)"
  have "setenv (\<lambda>_. True) assign name (Some v) st = Some (0, ?st)"
    using assms(6) enter set_core(2) [OF assms(2,4), of "\<lambda>_. True" v] by (simp add: setenv_def)
  moreover have "load_addr ?st = load_addr st"
    using assms(7) by (simp add: env_follow_def)
  ultimately show ?thesis
    using assms(1) h by (intro exI [of _ ?st]) simp
qed

text \<open>After a transfer of \<open>n\<close> bytes: \<^verbatim>\<open>filesize\<close> and \<^verbatim>\<open>fileaddr\<close> in hexadecimal, the rest as before.\<close>

definition file_vars :: "net_ctx \<Rightarrow> u32 \<Rightarrow> uboot_env \<Rightarrow> bool" where
  "file_vars c n st \<longleftrightarrow>
     (\<exists>size_str addr_str.
       getenv (ctx_denv c) (bytes_of ''filesize'') st = Some (Some size_str) \<and> simple_strtoul (size_str @ [0]) 16 = n \<and>
       getenv (ctx_denv c) (bytes_of ''fileaddr'') st = Some (Some addr_str) \<and>
       simple_strtoul (addr_str @ [0]) 16 = load_addr (ctx_env c)) \<and>
     (\<forall>name. 0 \<notin> set name \<and> name \<notin> {bytes_of ''filesize'', bytes_of ''fileaddr''} \<longrightarrow>
       getenv (ctx_denv c) name st = getenv (ctx_denv c) name (ctx_env c))"

lemma set_filesize:
  assumes env: "env_ready (ctx_env c)" "htab_ok (env_htab (ctx_env c))" "1 < free_slots (env_htab (ctx_env c))"
    and size: "0 < NetBootFileXferSize t"
  shows "\<exists>st. net_set_filesize (\<lambda>_. True) assign t (ctx_env c) = Some st \<and> file_vars c (NetBootFileXferSize t) st"
proof -
  let ?st = "ctx_env c" and ?fs = "bytes_of ''filesize''" and ?fa = "bytes_of ''fileaddr''"
  have names: "plain_name ?fs" "plain_name ?fa" "?fs \<noteq> ?fa" "?fs \<noteq> bytes_of ''loadaddr''" "?fa \<noteq> bytes_of ''loadaddr''"
    by (simp_all add: plain_name_def console_of_def bytes_of_def)
  have free: "0 < free_slots (env_htab ?st)"
    using env(3) by simp
  obtain st1 where st1: "setenv (\<lambda>_. True) assign ?fs (Some (sprintf_lX (NetBootFileXferSize t))) ?st = Some (0, st1)"
    "env_ready st1" "htab_ok (env_htab st1)"
    "htab_map (env_htab st1) = (htab_map (env_htab ?st))(?fs \<mapsto> sprintf_lX (NetBootFileXferSize t))"
    "free_slots (env_htab ?st) \<le> free_slots (env_htab st1) + 1" "load_addr st1 = load_addr ?st"
    using setenv_put [OF env(1,2) free names(1) sprintf_lX_string names(4)] by blast
  have free1: "0 < free_slots (env_htab st1)"
    using st1(5) env(3) by simp
  obtain st2 where st2: "setenv (\<lambda>_. True) assign ?fa (Some (sprintf_lX (load_addr st1))) st1 = Some (0, st2)"
    "env_ready st2" "htab_ok (env_htab st2)"
    "htab_map (env_htab st2) = (htab_map (env_htab st1))(?fa \<mapsto> sprintf_lX (load_addr st1))"
    using setenv_put [OF st1(2,3) free1 names(2) sprintf_lX_string names(5)] by blast
  have "net_set_filesize (\<lambda>_. True) assign t ?st = Some st2"
    using size st1(1) st2(1) by (simp add: net_set_filesize_def)
  moreover have get: "getenv denv n st2 = Some (((htab_map (env_htab ?st))
      (?fs \<mapsto> sprintf_lX (NetBootFileXferSize t), ?fa \<mapsto> sprintf_lX (load_addr ?st))) n)" if "0 \<notin> set n" for n denv
    using getenv_ready [OF st2(2,3) that] st2(4) st1(4,6) by simp
  moreover have "0 \<notin> set ?fs" "0 \<notin> set ?fa"
    using names(1,2) by (simp_all add: plain_name_def)
  ultimately show ?thesis
    using names(3) strtoul_hex [of False] getenv_ready [OF env(1,2)]
    by (auto simp: file_vars_def sprintf_lX_eq)
qed

text \<open>
  An upload ends with any acknowledgement that arrives after the last block was sent, also
  with a late one for an earlier block: the number is not looked at.
\<close>

lemma tftp_put_any_ack:
  assumes "TftpWriting t" and "TftpFinalBlock t" and "udp_handler t" and "TftpOurPort t = port"
    and "TftpRemotePort t = src" and "2 \<le> len"
  shows "net_event_step c (Rx_udp (htons TFTP_ACK @ p) port src len) t = Some (net_set_state NETLOOP_SUCCESS t)"
  using assms ntohs_htons [of TFTP_ACK p]
  by (simp add: net_event_step_def TftpHandler_def tftp_ack_def tftp_complete_def TFTP_ACK_def)

text \<open>
  An upload to a server that does not know options never starts. Its plain acknowledgement of the
  request leaves the client in the state of the request, so it sends the request again instead of
  the first block; the next acknowledgement of the request no longer matches and is ignored.
\<close>

lemma tftp_put_needs_oack:
  assumes "TftpWriting t" and "TftpState t = STATE_SEND_WRQ" and "\<not> TftpFinalBlock t" and "udp_handler t"
    and "TftpOurPort t = port" and "TftpBlock t = 0"
    and ack: "ack = Rx_udp (htons TFTP_ACK @ htons 0) port src 4"
  shows "\<exists>t1. net_event_step c ack t = Some t1 \<and> net_event_step c ack t1 = Some t1 \<and>
    net_sent t1 = net_sent t @ [(udp_dest (TftpRemoteIP t), TftpRemotePort t, port, tftp_request t)]"
proof -
  let ?t = "t\<lparr>TftpBlock := 1\<rparr>"
  have hdr: "ntohs_at (htons TFTP_ACK @ htons 0) 0 = TFTP_ACK" "ntohs_at (drop 2 (htons TFTP_ACK @ htons 0)) 0 = 0"
    using ntohs_htons [of TFTP_ACK "htons 0"] ntohs_htons [of 0 "[]"] by (simp_all add: TFTP_ACK_def)
  have req: "tftp_request ?t = tftp_request t"
    by (simp add: tftp_request_def)
  have step: "net_event_step c ack s = Some (tftp_ack (drop 2 (htons TFTP_ACK @ htons 0)) s)"
    if "udp_handler s" "TftpOurPort s = port" "TftpState s = STATE_SEND_WRQ" for s
    using that hdr(1) by (simp add: ack net_event_step_def TftpHandler_def)
  let ?t1 = "NetSendUDPPacket (TftpRemoteIP t) (TftpRemotePort t) port (tftp_request t) ?t"
  have "tftp_ack (drop 2 (htons TFTP_ACK @ htons 0)) t = ?t1"
    using assms(1-3,5,6) hdr(2) req unfolding tftp_ack_def by (simp add: update_block_number_def TftpSend_def)
  moreover have "tftp_ack (drop 2 (htons TFTP_ACK @ htons 0)) ?t1 = ?t1"
    using assms(1-3) hdr(2) unfolding tftp_ack_def by (simp add: update_block_number_def NetSendUDPPacket_def)
  ultimately show ?thesis
    using step [of t] step [of ?t1] assms(2,4,5) by (simp add: NetSendUDPPacket_def)
qed

text \<open>
  An OACK packet is taken in every state. One that the network delays past the first block puts a
  download back to \<^verbatim>\<open>STATE_OACK\<close>, where only block 1 is accepted: the next block ends the transfer, which is
  started again or fails. With \<^verbatim>\<open>ctx_wrap\<close> false, the next device is not tried.
\<close>

lemma late_oack_restarts:
  assumes env: "env_ready (ctx_env c)" "htab_ok (env_htab (ctx_env c))" and "\<not> ctx_wrap c"
    and t: "TftpState t = STATE_DATA" "\<not> TftpWriting t" "udp_handler t" "TftpOurPort t = port" "TftpRemotePort t = src"
    and n: "1 < n" "n < 65536"
  shows "\<exists>t1 t2. net_event_step c (delivery_event f bs port src (Oack pkt len)) t = Some t1 \<and>
    net_event_step c (delivery_event f bs port src (Deliver n rest)) t1 = Some t2 \<and>
    (net_state t2 = NETLOOP_RESTART \<or> net_state t2 = NETLOOP_FAIL) \<and> net_ram t2 = net_ram t"
proof -
  have "ntohs_at (htons TFTP_OACK @ pkt) 0 = TFTP_OACK"
    by (rule ntohs_htons) (simp add: TFTP_OACK_def)
  then have "net_event_step c (delivery_event f bs port src (Oack pkt len)) t = Some (tftp_oack pkt len src t)"
    using t by (simp add: net_event_step_def TftpHandler_def TFTP_OACK_def TFTP_ACK_def)
  moreover define t1 where "t1 = tftp_oack pkt len src t"
  ultimately have oack: "net_event_step c (delivery_event f bs port src (Oack pkt len)) t = Some t1"
    by simp
  have t1: "TftpState t1 = STATE_OACK" "udp_handler t1" "TftpOurPort t1 = port" "TftpRemotePort t1 = src"
    "net_ram t1 = net_ram t"
    using t by (simp_all add: t1_def tftp_oack_def TftpSend_def NetSendUDPPacket_def)
  have "ntohs_at (htons (of_nat n) @ tftp_block f bs n @ rest) 0 = of_nat n"
    using n(2) by (intro ntohs_htons) (simp add: word_less_nat_alt unsigned_of_nat take_bit_nat_eq_self)
  moreover have "(of_nat n :: u32) \<noteq> 1" "(of_nat n :: u32) \<noteq> 0"
    using n by (simp_all add: word_unat_eq_iff unsigned_of_nat take_bit_nat_eq_self)
  ultimately obtain t2 where "net_event_step c (delivery_event f bs port src (Deliver n rest)) t1 = NetStartAgain c t2"
    "net_ram t2 = net_ram t"
    using handler_data [of t1 port src c f bs n rest] t1
    by (auto simp: tftp_data_def update_block_number_def new_transfer_def)
  moreover have "0 \<notin> set (bytes_of ''netretry'')"
    by (simp add: bytes_of_def)
  then obtain v where "ctx_getenv c ''netretry'' = Some v"
    using getenv_ready [OF env] by (simp add: ctx_getenv_def)
  ultimately show ?thesis
    using oack assms(3) by (auto simp: NetStartAgain_def net_retries_def net_set_state_def Let_def split: option.split)
qed

section \<open>Sample states\<close>

definition nas_ctx :: net_ctx where
  "nas_ctx = \<lparr>ctx_denv = [0], ctx_env = nas_env slash_htab, ctx_wrap = False\<rparr>"

definition idle_tftp :: tftp where
  "idle_tftp = \<lparr>net_state = NETLOOP_CONTINUE, NetTryCount = 0, NetDevExists = False, NetBootFileXferSize = 0,
     NetServerIP = 0, NetOurIP = 0, timeHandler = None, udp_handler = False, icmp_handler_set = False,
     save_addr = 0, save_size = 0, net_ram = (\<lambda>_. 0), net_sent = [], TftpTimeoutMSecs = 5000,
     TftpTimeoutCountMax = 10, TftpRRQTimeoutCountMax = 10, TftpRemoteIP = 0, TftpRemotePort = 69,
     TftpOurPort = 0, TftpTimeoutCount = 0, TftpBlock = 0, TftpLastBlock = 0, TftpBlockWrap = 0,
     TftpBlockWrapOffset = 0, TftpState = STATE_SEND_RRQ, TftpWriting = False, TftpFinalBlock = False,
     tftp_filename = [], TftpBlkSize = 512, TftpBlkSizeOption = 400\<rparr>"

definition nas_oack :: delivery where
  "nas_oack = Oack (bytes_of ''blksize'' @ [0] @ bytes_of ''400'' @ [0]) 12"

definition lossy_run :: "(delivery list \<times> u32) list" where
  "lossy_run = [([], 1), ([Timeout], 2), ([nas_oack, nas_oack], 3), ([Deliver 1 [], Timeout], 5), ([], 6),
     ([Deliver 1 [], Deliver 2 [9]], 7)]"

lemma nas_oack_blksize: "oack_blksize (bytes_of ''blksize'' @ [0] @ bytes_of ''400'' @ [0]) 12 w = 400"
  by code_simp

section \<open>Properties\<close>

text \<open>C5. A download gives the file. Against a server that sends block by block, over a network
  that loses, repeats and delays packets, with at most as many timeouts as the two retry bounds allow (ten, as the
  code sets them) and however the packets are spread over the turns of the loop, \<^verbatim>\<open>NetLoop\<close> returns the length of the
  file; the file is at \<^verbatim>\<open>load_addr\<close>, no other byte of memory has changed, the last block was acknowledged, and
  \<^verbatim>\<open>filesize\<close> and \<^verbatim>\<open>fileaddr\<close> are set. The server uses the block size the client has read from its OACK
  packets, of which there is any number before the first block, or 512 when there is none. The file is not empty and
  has fewer than 65535 full blocks, so that the block number does not wrap; no OACK packet arrives after the
  first block; the environment is loaded and has room for the two variables.\<close>

theorem tftp_get_file:
  assumes "env_ready (ctx_env c)" and "htab_ok (env_htab (ctx_env c))" and "1 < free_slots (env_htab (ctx_env c))"
    and "int k \<le> min (TftpRRQTimeoutCountMax t) TIMEOUT_COUNT" and "0 < bs"
    and "tftp_blocks f bs < 65536" and "f \<noteq> []" and "length f < 2 ^ 31"
    and "delivered bs (tftp_blocks f bs) 0 k TFTP_BLOCK_SIZE (concat (map fst turns))"
  shows "\<exists>t' st. NetLoop (\<lambda>_. True) assign c timer TFTPGET
      (delivery_turns f bs (tftp_port timer) src turns) t = Some (Some (int (length f)), t', st) \<and>
    received c f (net_ram t) t' \<and> acked (tftp_port timer) src (tftp_blocks f bs) t' \<and>
    file_vars c (of_nat (length f)) st"
proof -
  let ?t = "t\<lparr>NetTryCount := 1, NetDevExists := False\<rparr>"
  have "int k \<le> min (TftpRRQTimeoutCountMax ?t) TIMEOUT_COUNT"
    using assms(4) by simp
  from start_receiving [OF assms(1,2) this, of timer f src]
  obtain t1 where init: "net_begin c timer TFTPGET ?t = Some t1"
    "receiving c f (unat TFTP_BLOCK_SIZE) (tftp_port timer) src (net_ram t) 0 k t1"
    by auto
  have "0 < tftp_blocks f bs"
    by (simp add: tftp_blocks_def)
  from transfer [OF assms(5,6) init(2) this assms(9)] obtain t' where
    loop: "net_loop c TFTPGET (delivery_turns f bs (tftp_port timer) src turns) t1 =
      Some (Some (sint (NetBootFileXferSize t')), t')"
    and fin: "received c f (net_ram t) t'" "acked (tftp_port timer) src (tftp_blocks f bs) t'"
    by blast
  have unat: "unat (of_nat (length f) :: u32) = length f"
    using assms(8) by (simp add: unsigned_of_nat take_bit_nat_eq_self)
  then have size: "sint (of_nat (length f) :: u32) = int (length f)" "0 < (of_nat (length f) :: u32)"
    using assms(7,8) by (simp_all add: sint_eq_unat word_less_nat_alt)
  have "NetBootFileXferSize t' = of_nat (length f)" "net_state t' = NETLOOP_SUCCESS"
    using fin(1) by (simp_all add: received_def)
  moreover from this obtain st where "net_set_filesize (\<lambda>_. True) assign t' (ctx_env c) = Some st"
    "file_vars c (of_nat (length f)) st"
    using set_filesize [OF assms(1-3), of t' assign] size(2) by auto
  ultimately show ?thesis
    using init(1) loop fin size(1) by (auto simp: NetLoop_def)
qed

theorem tftp_get_file_witness:
  "\<exists>t' st. NetLoop (\<lambda>_. True) (\<lambda>_ _. 0) nas_ctx 5 TFTPGET
      (delivery_turns (replicate 700 7) 400 (tftp_port 5) 4000 lossy_run) idle_tftp =
      Some (Some (int (length (replicate 700 (7::byte)))), t', st) \<and>
    received nas_ctx (replicate 700 7) (net_ram idle_tftp) t' \<and>
    acked (tftp_port 5) 4000 (tftp_blocks (replicate 700 7) 400) t' \<and>
    file_vars nas_ctx (of_nat (length (replicate 700 (7::byte)))) st"
proof (rule tftp_get_file [where k = 2])
  show "delivered 400 (tftp_blocks (replicate 700 7) 400) 0 2 TFTP_BLOCK_SIZE (concat (map fst lossy_run))"
    unfolding lossy_run_def nas_oack_def by (simp add: nas_oack_blksize [simplified] nas_oack_blksize tftp_blocks_def)
  show "1 < free_slots (env_htab (ctx_env nas_ctx))"
    by (simp add: nas_ctx_def nas_env_def free_slots_def slash_htab_def slash_tab_def fresh_slot_def)
qed (simp_all add: nas_ctx_def nas_env_def slash_ok idle_tftp_def TIMEOUT_COUNT_def tftp_blocks_def)

text \<open>A data packet with a given block number and contents.\<close>

definition raw_block :: "u32 \<Rightarrow> u32 \<Rightarrow> u32 \<Rightarrow> byte list \<Rightarrow> net_event" where
  "raw_block port src n b = Rx_udp (htons TFTP_DATA @ htons n @ b) port src (4 + length b)"

text \<open>C40. Files with 65536 blocks or more are not safe against a repeated packet. When the packet whose
  block number wrapped to 0 arrives once more, it is not stored or acknowledged again, but the offset of the following
  blocks is moved by another 65536 blocks: the next block goes to the wrong address.\<close>

theorem tftp_wrap_repeat:
  assumes "TftpState t = STATE_DATA" and "\<not> TftpWriting t" and "udp_handler t" and "TftpOurPort t = port"
    and "TftpRemotePort t = src" and "TftpLastBlock t = 0"
  shows "\<exists>t2 t1' t2'. net_event_step c (raw_block port src 1 b) t = Some t2 \<and>
    net_ram t2 = ram_write (load_addr (ctx_env c) + TftpBlockWrapOffset t) b (net_ram t) \<and>
    net_event_step c (raw_block port src 0 b0) t = Some t1' \<and> net_sent t1' = net_sent t \<and>
    net_event_step c (raw_block port src 1 b) t1' = Some t2' \<and>
    net_ram t2' = ram_write (load_addr (ctx_env c) + TftpBlockWrapOffset t + ucast (TftpBlkSize t) * 65536) b (net_ram t)"
proof -
  let ?t0 = "update_block_number (t\<lparr>TftpBlock := 0\<rparr>)"
  have handler: "net_event_step c (raw_block port src n b) s = tftp_data c (htons n @ b @ []) (2 + length b) src s"
    if "udp_handler s" "TftpOurPort s = port" "TftpRemotePort s = src" for n b s
    using that ntohs_htons [of TFTP_DATA "htons n @ b"]
    by (simp add: raw_block_def net_event_step_def TftpHandler_def TFTP_DATA_def TFTP_ACK_def TFTP_OACK_def)
  have one: "tftp_data c (htons 1 @ b @ []) (2 + length b) src s = Some (tftp_accept c b (s\<lparr>TftpBlock := 1\<rparr>))"
    if "TftpState s = STATE_DATA" "TftpLastBlock s = 0" for s
    using data_next [of s 1 c b "[]" src] that by simp
  have rep: "net_event_step c (raw_block port src 0 b0) t = Some ?t0"
    using handler [of t 0 b0] assms(1-6) ntohs_htons [of 0 "b0"]
    by (simp add: tftp_data_def update_block_number_def)
  have t0: "TftpState ?t0 = STATE_DATA" "\<not> TftpWriting ?t0" "udp_handler ?t0" "TftpOurPort ?t0 = port"
    "TftpRemotePort ?t0 = src" "TftpLastBlock ?t0 = 0" "net_sent ?t0 = net_sent t" "net_ram ?t0 = net_ram t"
    "TftpBlkSize ?t0 = TftpBlkSize t"
    "TftpBlockWrapOffset ?t0 = TftpBlockWrapOffset t + ucast (TftpBlkSize t) * 65536"
    using assms(1-6) by (simp_all add: update_block_number_def TFTP_SEQUENCE_SIZE_def)
  have store: "net_ram (tftp_accept c b (s\<lparr>TftpBlock := 1\<rparr>)) =
      ram_write (load_addr (ctx_env c) + TftpBlockWrapOffset s) b (net_ram s)"
    if "TftpState s = STATE_DATA" "\<not> TftpWriting s" for s
    using accept_fields(1) [of "s\<lparr>TftpBlock := 1\<rparr>" _ c b] that by simp
  show ?thesis
    using handler [of t 1 b] handler [of ?t0 1 b] one [of t] one [of ?t0] rep t0 store [of t] store [of ?t0] assms(1-6)
    by (simp add: add.assoc)
qed


theorem tftp_wrap_repeat_witness:
  "\<exists>t2 t1' t2'.
    net_event_step nas_ctx (raw_block 0 69 1 [7]) (idle_tftp\<lparr>TftpState := STATE_DATA, udp_handler := True\<rparr>) = Some t2 \<and>
    net_ram t2 = ram_write 0 [7] (\<lambda>_. 0) \<and>
    net_event_step nas_ctx (raw_block 0 69 0 []) (idle_tftp\<lparr>TftpState := STATE_DATA, udp_handler := True\<rparr>) = Some t1' \<and>
    net_event_step nas_ctx (raw_block 0 69 1 [7]) t1' = Some t2' \<and>
    net_ram t2' = ram_write 0x2000000 [7] (\<lambda>_. 0)"
  using tftp_wrap_repeat [of "idle_tftp\<lparr>TftpState := STATE_DATA, udp_handler := True\<rparr>" 0 69 nas_ctx "[7]" "[]"]
  by (auto simp: idle_tftp_def nas_ctx_def nas_env_def)

end
