(* ===== verification/Digest_Stream.thy ===== *)
theory Digest_Stream
  imports Boot_Prelude "HOL-Library.Monad_Syntax"
begin

unbundle bit_operations_syntax

text \<open>
  What the digests of \<^verbatim>\<open>lib/md5.c\<close> and \<^verbatim>\<open>lib/sha1.c\<close> share: a message is cut into blocks of 64 bytes, a
  compression function folds the blocks into a state, and a context keeps the state, the bytes of
  the block that is not complete yet and the length so far. The locale \<open>digest_context\<close> is the contract
  of such a context; its lemmas say that a message can be fed in pieces of any size.
\<close>

section \<open>Blocks\<close>

text \<open>The \<open>n\<close> bytes a source pointer \<open>i\<close> bytes into its area points to; None when the area ends before.\<close>

definition bytes_at :: "byte list \<Rightarrow> nat \<Rightarrow> nat \<Rightarrow> byte list option" where
  "bytes_at p i n = (if i + n \<le> length p then Some (take n (drop i p)) else None)"

lemma bytes_at_inside [simp]: "i + n \<le> length p \<Longrightarrow> bytes_at p i n = Some (take n (drop i p))"
  by (simp add: bytes_at_def)

text \<open>The blocks of a message folded into the state, and the bytes left over.\<close>

function absorb :: "('s \<Rightarrow> byte list \<Rightarrow> 's) \<Rightarrow> 's \<Rightarrow> byte list \<Rightarrow> 's \<times> byte list" where
  "absorb compress s m =
    (if length m < 64 then (s, m) else absorb compress (compress s (take 64 m)) (drop 64 m))"
  by pat_completeness auto
termination
  by (relation "measure (\<lambda>(compress, s, m). length m)") auto

declare absorb.simps [simp del]

lemma absorb_short [simp]: "length m < 64 \<Longrightarrow> absorb compress s m = (s, m)"
  by (simp add: absorb.simps)

lemma absorb_block: "length b = 64 \<Longrightarrow> absorb compress s (b @ m) = absorb compress (compress s b) m"
  by (subst absorb.simps) simp

lemma absorb_append:
  "absorb compress s (m @ x) = (let (s', r) = absorb compress s m in absorb compress s' (r @ x))"
proof (induction compress s m rule: absorb.induct)
  case (1 compress s m)
  show ?case
  proof (cases "length m < 64")
    case False
    have m: "m = take 64 m @ drop 64 m" and len: "length (take 64 m) = 64"
      using False by simp_all
    have "absorb compress s (m @ x) = absorb compress (compress s (take 64 m)) (drop 64 m @ x)"
      using absorb_block [OF len, of compress s "drop 64 m @ x"] append_take_drop_id [of 64 m]
      by (metis append.assoc)
    moreover have "absorb compress s m = absorb compress (compress s (take 64 m)) (drop 64 m)"
      using absorb_block [OF len, of compress s "drop 64 m"] by simp
    ultimately show ?thesis
      using 1 False by simp
  qed simp
qed

lemma absorb_rest: "length (snd (absorb compress s m)) = length m mod 64"
proof (induction compress s m rule: absorb.induct)
  case (1 compress s m)
  then show ?case
    by (cases "length m < 64") (simp_all add: absorb.simps [of compress s m] le_mod_geq)
qed

lemma absorb_blocks2: "length a = 64 \<Longrightarrow> length b = 64 \<Longrightarrow> absorb compress s (a @ b) = (compress (compress s a) b, [])"
  using absorb_block [of a compress s b] absorb_block [of b compress "compress s a" "[]"] by simp

lemma absorb_blocks1: "length a = 64 \<Longrightarrow> absorb compress s a = (compress s a, [])"
  using absorb_block [of a compress s "[]"] by simp

section \<open>Words and counts\<close>

lemma rotl_shifts:
  fixes x :: u32
  assumes "0 < n" "n < 32"
  shows "push_bit n x OR drop_bit (32 - n) x = word_rotl n x"
proof (rule bit_word_eqI)
  fix k
  assume "k < LENGTH(32)"
  then have k: "k < 32" by simp
  have e: "32 + k - n = k + 32 - n" by simp
  show "bit (push_bit n x OR drop_bit (32 - n) x) k = bit (word_rotl n x) k"
  proof (cases "k < n")
    case True
    then have "(k + 32 - n) mod 32 = k + 32 - n" using assms by simp
    then show ?thesis
      using assms k True by (simp add: bit_word_rotl_iff bit_simps e)
  next
    case False
    then have "(k + 32 - n) mod 32 = k - n"
      using k assms by (metis add.commute diff_add_assoc le_add_diff_inverse less_imp_diff_less mod_add_self1 mod_less not_less)
    moreover have "\<not> bit x (32 + k - n)" using False by (auto dest: bit_imp_le_length)
    ultimately show ?thesis
      using assms k False by (simp add: bit_word_rotl_iff bit_simps e)
  qed
qed

lemma rd32_bytes:
  "ucast (a::byte) OR push_bit 8 (ucast (b::byte)) OR push_bit 16 (ucast (c::byte)) OR push_bit 24 (ucast (d::byte)) =
   (of_nat (unat a + unat b * 256 + unat c * 256 ^ 2 + unat d * 256 ^ 3) :: u32)"
proof -
  have "ucast a + push_bit 8 (ucast b) = (ucast a OR push_bit 8 (ucast b) :: u32)"
    by (rule disjunctive_add) (auto simp: bit_simps dest: bit_imp_le_length)
  moreover have "(ucast a OR push_bit 8 (ucast b)) + push_bit 16 (ucast c) =
      (ucast a OR push_bit 8 (ucast b) OR push_bit 16 (ucast c) :: u32)"
    by (subst disjunctive_add) (auto simp: bit_simps or.assoc dest: bit_imp_le_length)
  moreover have "(ucast a OR push_bit 8 (ucast b) OR push_bit 16 (ucast c)) + push_bit 24 (ucast d) =
      (ucast a OR push_bit 8 (ucast b) OR push_bit 16 (ucast c) OR push_bit 24 (ucast d) :: u32)"
    by (subst disjunctive_add) (auto simp: bit_simps or.assoc dest: bit_imp_le_length)
  ultimately have "(ucast a OR push_bit 8 (ucast b) OR push_bit 16 (ucast c) OR push_bit 24 (ucast d) :: u32) =
      ucast a + push_bit 8 (ucast b) + push_bit 16 (ucast c) + push_bit 24 (ucast d)"
    by simp
  also have "\<dots> = of_nat (unat a + unat b * 256 + unat c * 256 ^ 2 + unat d * 256 ^ 3)"
    by (simp add: push_bit_eq_mult unsigned_ucast_eq)
  finally show ?thesis .
qed

lemma sum_4: "(\<Sum>j<(4::nat). f j) = f 0 + f 1 + f 2 + (f 3 :: nat)"
  by (simp add: eval_nat_numeral)

lemma and_3F: "unat ((x::u32) AND 0x3F) = unat x mod 64"
proof -
  have "(0x3F::u32) = mask 6" by (simp add: mask_eq_exp_minus_1)
  then have "x AND 0x3F = take_bit 6 x" by (simp only: take_bit_eq_mask)
  then show ?thesis
    by (simp add: take_bit_eq_mod unat_mod)
qed

lemma unat_mod_64: "unat (of_nat n :: u32) mod 64 = n mod 64"
  by (simp add: unsigned_of_nat take_bit_eq_mod mod_mod_cancel)

lemma pad_length: "r < 56 \<Longrightarrow> (119 - r) mod 64 = (55 - r :: nat)"
proof -
  assume r: "r < 56"
  then have "119 - r = 55 - r + 64" by simp
  then have "(119 - r) mod 64 = (55 - r) mod 64" by (simp only: mod_add_self2)
  then show ?thesis by simp
qed

section \<open>The contract of a context\<close>

primrec feed :: "(byte list \<Rightarrow> 'c \<Rightarrow> 'c option) \<Rightarrow> byte list list \<Rightarrow> 'c \<Rightarrow> 'c option" where
  "feed update [] c = Some c"
| "feed update (x # xs) c = do { c \<leftarrow> update x c; feed update xs c }"

locale digest_context =
  fixes fed :: "byte list \<Rightarrow> 'c \<Rightarrow> bool"
    and start :: "'c \<Rightarrow> bool"
    and update :: "byte list \<Rightarrow> 'c \<Rightarrow> 'c option"
    and finish :: "'c \<Rightarrow> byte list option"
    and digest :: "byte list \<Rightarrow> byte list"
  assumes start_law: "start c \<Longrightarrow> fed [] c"
    and update_law: "fed m c \<Longrightarrow> length x < 2 ^ 31 \<Longrightarrow> \<exists>c'. update x c = Some c' \<and> fed (m @ x) c'"
    and finish_law: "fed m c \<Longrightarrow> finish c = Some (digest m)"
begin

lemma feed_law:
  "fed m c \<Longrightarrow> \<forall>x\<in>set xs. length x < 2 ^ 31 \<Longrightarrow> \<exists>c'. feed update xs c = Some c' \<and> fed (m @ concat xs) c'"
proof (induction xs arbitrary: m c)
  case (Cons x xs)
  then obtain c1 where "update x c = Some c1" "fed (m @ x) c1"
    using update_law [of m c x] by auto
  then show ?case
    using Cons.IH [of "m @ x" c1] Cons.prems(2) by simp
qed simp

theorem digest_pieces:
  "start c \<Longrightarrow> \<forall>x\<in>set xs. length x < 2 ^ 31 \<Longrightarrow>
    do { c \<leftarrow> feed update xs c; finish c } = Some (digest (concat xs))"
  using feed_law [OF start_law, of c xs] finish_law by fastforce

end

end
