(* ===== verification/Sha1.thy ===== *)
theory Sha1
  imports Digest_Stream
begin

unbundle bit_operations_syntax

text \<open>
  The SHA-1 digest of \<^verbatim>\<open>lib/sha1.c\<close> (\<^verbatim>\<open>CONFIG_SHA1\<close>, selected by \<^verbatim>\<open>CONFIG_FIT\<close>), with the context of
  \<^verbatim>\<open>include/sha1.h\<close>. \<^verbatim>\<open>unsigned long\<close> has 32 bits on the target. A context starts as an uninitialised
  local variable, so every entry point takes the context it finds; the theorems hold for all of them.
  The specification is the one of FIPS 180: an expanded schedule of 80 words, one step that shifts the five
  working variables, the padding with the bit count.
\<close>

section \<open>Model\<close>

record sha1_context =
  total0 :: u32
  total1 :: u32
  sha1_state :: "u32 \<times> u32 \<times> u32 \<times> u32 \<times> u32"
  sha1_buffer :: "byte list"

definition GET_UINT32_BE :: "byte list \<Rightarrow> nat \<Rightarrow> u32" where
  "GET_UINT32_BE b i =
    push_bit 24 (ucast (rd b i)) OR push_bit 16 (ucast (rd b (i + 1))) OR push_bit 8 (ucast (rd b (i + 2))) OR
    ucast (rd b (i + 3))"

definition PUT_UINT32_BE :: "u32 \<Rightarrow> byte list" where
  "PUT_UINT32_BE n = [ucast (drop_bit 24 n), ucast (drop_bit 16 n), ucast (drop_bit 8 n), ucast n]"

definition sha1_starts :: "sha1_context \<Rightarrow> sha1_context" where
  "sha1_starts ctx = ctx
    \<lparr>total0 := 0, total1 := 0, sha1_state := (0x67452301, 0xEFCDAB89, 0x98BADCFE, 0x10325476, 0xC3D2E1F0)\<rparr>"

text \<open>The macros of \<^verbatim>\<open>sha1_process\<close>: \<^verbatim>\<open>S\<close> rotates, \<^verbatim>\<open>R\<close> computes a schedule word in place of the one sixteen
  rounds before, \<^verbatim>\<open>P\<close> assigns to its second and its last argument. \<^verbatim>\<open>F\<close> and \<^verbatim>\<open>K\<close> are redefined every
  twenty rounds.\<close>

definition sha1_S :: "u32 \<Rightarrow> nat \<Rightarrow> u32" where
  "sha1_S x n = push_bit n x OR drop_bit (32 - n) (x AND 0xFFFFFFFF)"

definition sha1_R :: "u32 list \<Rightarrow> nat \<Rightarrow> u32 list \<times> u32" where
  "sha1_R W t =
    (let temp = W ! ((t - 3) mod 16) XOR W ! ((t - 8) mod 16) XOR W ! ((t - 14) mod 16) XOR W ! (t mod 16);
         v = sha1_S temp 1
     in (W[t mod 16 := v], v))"

definition sha1_F :: "nat \<Rightarrow> u32 \<Rightarrow> u32 \<Rightarrow> u32 \<Rightarrow> u32" where
  "sha1_F t x y z =
    (if t < 20 then z XOR (x AND (y XOR z))
     else if t < 40 then x XOR y XOR z
     else if t < 60 then (x AND y) OR (z AND (x OR y))
     else x XOR y XOR z)"

definition sha1_K :: "nat \<Rightarrow> u32" where
  "sha1_K t =
    (if t < 20 then 0x5A827999 else if t < 40 then 0x6ED9EBA1 else if t < 60 then 0x8F1BBCDC else 0xCA62C1D6)"

definition sha1_P :: "nat \<Rightarrow> u32 \<Rightarrow> u32 \<Rightarrow> u32 \<Rightarrow> u32 \<Rightarrow> u32 \<Rightarrow> u32 \<Rightarrow> u32 \<times> u32" where
  "sha1_P t a b c d e x = (sha1_S b 30, e + (sha1_S a 5 + sha1_F t b c d + sha1_K t + x))"

text \<open>The word of round \<open>t\<close>: \<^verbatim>\<open>W[t]\<close> in the first sixteen, \<^verbatim>\<open>R (t)\<close> after.\<close>

definition sha1_word :: "u32 list \<Rightarrow> nat \<Rightarrow> u32 list \<times> u32" where
  "sha1_word W t = (if t < 16 then (W, W ! t) else sha1_R W t)"

text \<open>Five consecutive lines of the listing, which use the five variables in every role once.\<close>

definition sha1_five ::
    "nat \<Rightarrow> u32 list \<times> (u32 \<times> u32 \<times> u32 \<times> u32 \<times> u32) \<Rightarrow> u32 list \<times> (u32 \<times> u32 \<times> u32 \<times> u32 \<times> u32)" where
  "sha1_five t = (\<lambda>(W, A, B, C, D, E).
    let (W, x) = sha1_word W t;       (B, E) = sha1_P t A B C D E x;
        (W, x) = sha1_word W (t + 1); (A, D) = sha1_P (t + 1) E A B C D x;
        (W, x) = sha1_word W (t + 2); (E, C) = sha1_P (t + 2) D E A B C x;
        (W, x) = sha1_word W (t + 3); (D, B) = sha1_P (t + 3) C D E A B x;
        (W, x) = sha1_word W (t + 4); (C, A) = sha1_P (t + 4) B C D E A x
    in (W, A, B, C, D, E))"

definition sha1_process :: "sha1_context \<Rightarrow> byte list \<Rightarrow> sha1_context" where
  "sha1_process ctx data =
    (let W = map (\<lambda>i. GET_UINT32_BE data (4 * i)) [0..<16];
         (A, B, C, D, E) = sha1_state ctx;
         (W, A', B', C', D', E') = fold (\<lambda>i. sha1_five (5 * i)) [0..<16] (W, A, B, C, D, E)
     in ctx\<lparr>sha1_state := (A + A', B + B', C + C', D + D', E + E')\<rparr>)"

text \<open>\<^verbatim>\<open>sha1_update\<close>: the loop over whole blocks and the copy of the rest, then the function. The input is the
  memory the pointer points to, \<open>i\<close> the offset the pointer has reached.\<close>

function sha1_update_blocks :: "byte list \<Rightarrow> nat \<Rightarrow> nat \<Rightarrow> nat \<Rightarrow> sha1_context \<Rightarrow> sha1_context option" where
  "sha1_update_blocks input i ilen left ctx =
    (if 64 \<le> ilen then do {
       data \<leftarrow> bytes_at input i 64;
       sha1_update_blocks input (i + 64) (ilen - 64) left (sha1_process ctx data)
     }
     else if 0 < ilen then do {
       x \<leftarrow> bytes_at input i ilen;
       buffer \<leftarrow> memcpy_at left x (sha1_buffer ctx);
       Some (ctx\<lparr>sha1_buffer := buffer\<rparr>)
     }
     else Some ctx)"
  by pat_completeness auto
termination
  by (relation "measure (\<lambda>(input, i, ilen, left, ctx). ilen)") auto

definition sha1_update :: "byte list \<Rightarrow> int \<Rightarrow> sha1_context \<Rightarrow> sha1_context option" where
  "sha1_update input ilen ctx =
    (if ilen \<le> 0 then Some ctx
     else
       let left = unat (total0 ctx AND 0x3F);
           fill = 64 - left;
           t0 = (total0 ctx + word_of_int ilen) AND 0xFFFFFFFF;
           ctx = ctx\<lparr>total0 := t0, total1 := (if t0 < word_of_int ilen then total1 ctx + 1 else total1 ctx)\<rparr>;
           n = nat ilen
       in if left \<noteq> 0 \<and> fill \<le> n then do {
            x \<leftarrow> bytes_at input 0 fill;
            buffer \<leftarrow> memcpy_at left x (sha1_buffer ctx);
            let ctx = sha1_process (ctx\<lparr>sha1_buffer := buffer\<rparr>) buffer;
            sha1_update_blocks input fill (n - fill) 0 ctx
          }
          else sha1_update_blocks input 0 n left ctx)"

definition sha1_padding :: "byte list" where
  "sha1_padding = 0x80 # replicate 63 0"

definition sha1_output :: "u32 \<times> u32 \<times> u32 \<times> u32 \<times> u32 \<Rightarrow> byte list" where
  "sha1_output = (\<lambda>(a, b, c, d, e).
    PUT_UINT32_BE a @ PUT_UINT32_BE b @ PUT_UINT32_BE c @ PUT_UINT32_BE d @ PUT_UINT32_BE e)"

definition sha1_finish :: "sha1_context \<Rightarrow> (sha1_context \<times> byte list) option" where
  "sha1_finish ctx =
    (let high = drop_bit 29 (total0 ctx) OR push_bit 3 (total1 ctx);
         low = push_bit 3 (total0 ctx);
         msglen = PUT_UINT32_BE high @ PUT_UINT32_BE low;
         last = total0 ctx AND 0x3F;
         padn = (if last < 56 then 56 - last else 120 - last)
     in do {
       ctx \<leftarrow> sha1_update sha1_padding (sint padn) ctx;
       ctx \<leftarrow> sha1_update msglen 8 ctx;
       Some (ctx, sha1_output (sha1_state ctx))
     })"

definition sha1_csum :: "sha1_context \<Rightarrow> byte list \<Rightarrow> int \<Rightarrow> byte list option" where
  "sha1_csum ctx input ilen = do {
     ctx \<leftarrow> sha1_update input ilen (sha1_starts ctx);
     (ctx, output) \<leftarrow> sha1_finish ctx;
     Some output
   }"

text \<open>Without \<^verbatim>\<open>CONFIG_WATCHDOG\<close> the chunk size plays no role.\<close>

definition sha1_csum_wd :: "sha1_context \<Rightarrow> byte list \<Rightarrow> int \<Rightarrow> u32 \<Rightarrow> byte list option" where
  "sha1_csum_wd ctx input ilen chunk_sz = do {
     ctx \<leftarrow> sha1_update input ilen (sha1_starts ctx);
     (ctx, output) \<leftarrow> sha1_finish ctx;
     Some output
   }"

text \<open>\<^verbatim>\<open>sha1_hmac\<close>; the two pads are filled by the loop over the key, which stops after 64 bytes.\<close>

function hmac_pads :: "byte list \<Rightarrow> int \<Rightarrow> nat \<Rightarrow> byte list \<Rightarrow> byte list \<Rightarrow> (byte list \<times> byte list) option" where
  "hmac_pads key keylen i k_ipad k_opad =
    (if int i < keylen \<and> i < 64 then
       if i < length key
       then hmac_pads key keylen (i + 1) (k_ipad[i := k_ipad ! i XOR key ! i]) (k_opad[i := k_opad ! i XOR key ! i])
       else None
     else Some (k_ipad, k_opad))"
  by pat_completeness auto
termination
  by (relation "measure (\<lambda>(key, keylen, i, k_ipad, k_opad). 64 - i)") auto

definition sha1_hmac :: "sha1_context \<Rightarrow> byte list \<Rightarrow> int \<Rightarrow> byte list \<Rightarrow> int \<Rightarrow> byte list option" where
  "sha1_hmac ctx key keylen input ilen = do {
     (k_ipad, k_opad) \<leftarrow> hmac_pads key keylen 0 (replicate 64 0x36) (replicate 64 0x5C);
     ctx \<leftarrow> sha1_update k_ipad 64 (sha1_starts ctx);
     ctx \<leftarrow> sha1_update input ilen ctx;
     (ctx, tmpbuf) \<leftarrow> sha1_finish ctx;
     ctx \<leftarrow> sha1_update k_opad 64 (sha1_starts ctx);
     ctx \<leftarrow> sha1_update tmpbuf 20 ctx;
     (ctx, output) \<leftarrow> sha1_finish ctx;
     Some output
   }"

section \<open>The standard\<close>

text \<open>FIPS 180: the functions, the schedule, one step and the compression function.\<close>

definition fips_f :: "nat \<Rightarrow> u32 \<Rightarrow> u32 \<Rightarrow> u32 \<Rightarrow> u32" where
  "fips_f t x y z =
    (if t < 20 then (x AND y) XOR (NOT x AND z)
     else if 40 \<le> t \<and> t < 60 then (x AND y) XOR (x AND z) XOR (y AND z)
     else x XOR y XOR z)"

definition fips_K :: "nat \<Rightarrow> u32" where
  "fips_K t = [0x5A827999, 0x6ED9EBA1, 0x8F1BBCDC, 0xCA62C1D6] ! (t div 20)"

fun fips_W :: "byte list \<Rightarrow> nat \<Rightarrow> u32" where
  "fips_W b t =
    (if t < 16 then of_nat (\<Sum>j<4. unat (b ! (4 * t + j)) * 256 ^ (3 - j))
     else word_rotl 1 (fips_W b (t - 3) XOR fips_W b (t - 8) XOR fips_W b (t - 14) XOR fips_W b (t - 16)))"

declare fips_W.simps [simp del]

definition fips_step :: "byte list \<Rightarrow> nat \<Rightarrow> u32 \<times> u32 \<times> u32 \<times> u32 \<times> u32 \<Rightarrow> u32 \<times> u32 \<times> u32 \<times> u32 \<times> u32" where
  "fips_step b t = (\<lambda>(a, b', c, d, e).
    (word_rotl 5 a + fips_f t b' c d + e + fips_K t + fips_W b t, a, word_rotl 30 b', c, d))"

definition fips_compress :: "u32 \<times> u32 \<times> u32 \<times> u32 \<times> u32 \<Rightarrow> byte list \<Rightarrow> u32 \<times> u32 \<times> u32 \<times> u32 \<times> u32" where
  "fips_compress h b = (case h of (h0, h1, h2, h3, h4) \<Rightarrow>
    case fold (fips_step b) [0..<80] h of (a, b', c, d, e) \<Rightarrow> (h0 + a, h1 + b', h2 + c, h3 + d, h4 + e))"

text \<open>A number as \<open>n\<close> bytes, the most significant first; the padded message; the digest.\<close>

primrec be_bytes :: "nat \<Rightarrow> nat \<Rightarrow> byte list" where
  "be_bytes 0 v = []"
| "be_bytes (Suc n) v = be_bytes n (v div 256) @ [of_nat v]"

definition fips_pad :: "byte list \<Rightarrow> byte list" where
  "fips_pad m = 0x80 # replicate ((119 - length m mod 64) mod 64) 0 @ be_bytes 8 (8 * length m)"

definition fips_H0 :: "u32 \<times> u32 \<times> u32 \<times> u32 \<times> u32" where
  "fips_H0 = (0x67452301, 0xEFCDAB89, 0x98BADCFE, 0x10325476, 0xC3D2E1F0)"

definition fips_sha1 :: "byte list \<Rightarrow> byte list" where
  "fips_sha1 m = (case fst (absorb fips_compress fips_H0 (m @ fips_pad m)) of (a, b, c, d, e) \<Rightarrow>
     concat (map (\<lambda>w. be_bytes 4 (unat w)) [a, b, c, d, e]))"

text \<open>FIPS 198 for keys of at most one block: the key padded with zeros, and the two nested digests.\<close>

definition fips_hmac :: "byte list \<Rightarrow> byte list \<Rightarrow> byte list" where
  "fips_hmac key m =
    (let K0 = key @ replicate (64 - length key) 0
     in fips_sha1 (map (\<lambda>k. k XOR 0x5C) K0 @ fips_sha1 (map (\<lambda>k. k XOR 0x36) K0 @ m)))"

section \<open>The compression function\<close>

lemma and_ones [simp]: "(x::u32) AND 0xFFFFFFFF = x"
proof -
  have "(0xFFFFFFFF::u32) = - 1" by simp
  then show ?thesis by (simp only: and.right_neutral)
qed

lemma sha1_S_rotl: "0 < n \<Longrightarrow> n < 32 \<Longrightarrow> sha1_S x n = word_rotl n x"
  by (simp only: sha1_S_def and_ones rotl_shifts)

lemma GET_UINT32_BE_bytes:
  "push_bit 24 (ucast (a::byte)) OR push_bit 16 (ucast (b::byte)) OR push_bit 8 (ucast (c::byte)) OR ucast (d::byte) =
   (of_nat (unat a * 256 ^ 3 + unat b * 256 ^ 2 + unat c * 256 + unat d) :: u32)"
  using rd32_bytes [of d c b a] by (simp add: ac_simps)

lemma GET_UINT32_BE_value:
  assumes "i + 4 \<le> length b"
  shows "GET_UINT32_BE b i = of_nat (\<Sum>j<4. unat (b ! (i + j)) * 256 ^ (3 - j))"
proof -
  have "(\<Sum>j<4. unat (b ! (i + j)) * 256 ^ (3 - j)) =
      unat (rd b i) * 256 ^ 3 + unat (rd b (i + 1)) * 256 ^ 2 + unat (rd b (i + 2)) * 256 + unat (rd b (i + 3))"
    using assms by (simp add: sum_4 rd_nth)
  then show ?thesis
    by (simp only: GET_UINT32_BE_def GET_UINT32_BE_bytes)
qed

lemma sha1_F_fips: "sha1_F t x y z = fips_f t x y z"
  by (auto simp: sha1_F_def fips_f_def intro!: bit_word_eqI simp: bit_simps)

lemma sha1_K_fips:
  assumes "t < 80"
  shows "sha1_K t = fips_K t"
proof -
  consider "t < 20" | "20 \<le> t" "t < 40" | "40 \<le> t" "t < 60" | "60 \<le> t" by linarith
  then show ?thesis
  proof cases
    case 1
    then show ?thesis by (simp add: sha1_K_def fips_K_def)
  next
    case 2
    then have "t div 20 = 1" by linarith
    with 2 show ?thesis by (simp add: sha1_K_def fips_K_def)
  next
    case 3
    then have "t div 20 = 2" by linarith
    with 3 show ?thesis by (simp add: sha1_K_def fips_K_def)
  next
    case 4
    then have "t div 20 = 3" using assms by linarith
    with 4 show ?thesis by (simp add: sha1_K_def fips_K_def)
  qed
qed

text \<open>The circular buffer holds the sixteen words before round \<open>t\<close>.\<close>

definition window :: "byte list \<Rightarrow> nat \<Rightarrow> u32 list \<Rightarrow> bool" where
  "window b t W \<longleftrightarrow> length W = 16 \<and> (\<forall>s. s < max 16 t \<and> t \<le> s + 16 \<longrightarrow> W ! (s mod 16) = fips_W b s)"

lemma window_start:
  assumes "length b = 64"
  shows "window b 0 (map (\<lambda>i. GET_UINT32_BE b (4 * i)) [0..<16])"
  unfolding window_def
proof (intro conjI allI impI)
  fix s :: nat
  assume "s < max 16 0 \<and> 0 \<le> s + 16"
  then have "s < 16" "4 * s + 4 \<le> length b" using assms by simp_all
  then show "map (\<lambda>i. GET_UINT32_BE b (4 * i)) [0..<16] ! (s mod 16) = fips_W b s"
    by (simp add: fips_W.simps [of b s] GET_UINT32_BE_value del: upt_rec_numeral)
qed simp

lemma window_nth: "window b t W \<Longrightarrow> s < max 16 t \<Longrightarrow> t \<le> s + 16 \<Longrightarrow> W ! (s mod 16) = fips_W b s"
  by (simp add: window_def)

lemma mod_16_inj: "s mod 16 = t mod 16 \<Longrightarrow> s < t \<Longrightarrow> (t::nat) \<le> s + 16 \<Longrightarrow> t = s + 16"
  using mod_eq_dvd_iff_nat [of s t 16] dvd_imp_le [of 16 "t - s"] by simp

lemma sha1_word_fips:
  assumes w: "window b t W"
  shows "\<exists>W'. sha1_word W t = (W', fips_W b t) \<and> window b (Suc t) W'"
proof (cases "t < 16")
  case True
  then have "W ! t = fips_W b t" using window_nth [OF w, of t] by simp
  moreover have "window b (Suc t) W" using True w by (auto simp: window_def)
  ultimately show ?thesis using True by (simp add: sha1_word_def)
next
  case False
  have len: "length W = 16" using w by (simp add: window_def)
  have "t mod 16 = (t - 16) mod 16" using False le_mod_geq [of 16 t] by simp
  then have old: "W ! (t mod 16) = fips_W b (t - 16)" using window_nth [OF w, of "t - 16"] False by simp
  have v: "sha1_R W t = (W[t mod 16 := fips_W b t], fips_W b t)"
    using False by (simp add: sha1_R_def old window_nth [OF w] sha1_S_rotl fips_W.simps [of b t] Let_def)
  have "window b (Suc t) (W[t mod 16 := fips_W b t])"
    unfolding window_def
  proof (intro conjI allI impI)
    fix s
    assume s: "s < max 16 (Suc t) \<and> Suc t \<le> s + 16"
    show "W[t mod 16 := fips_W b t] ! (s mod 16) = fips_W b s"
    proof (cases "s = t")
      case False
      then have "s < t" using s \<open>\<not> t < 16\<close> by simp
      then have "s mod 16 \<noteq> t mod 16" using mod_16_inj [of s t] s by auto
      then show ?thesis using window_nth [OF w, of s] s \<open>s < t\<close> by simp
    qed (simp add: len)
  qed (simp add: len)
  then show ?thesis using False v by (simp add: sha1_word_def)
qed

lemma fips_step_P:
  assumes "t < 80"
  shows "fips_step m t (a, b, c, d, e) =
    (snd (sha1_P t a b c d e (fips_W m t)), a, fst (sha1_P t a b c d e (fips_W m t)), c, d)"
  using assms by (simp add: fips_step_def sha1_P_def sha1_S_rotl sha1_F_fips sha1_K_fips ac_simps)

lemma sha1_five_fips:
  assumes "window b t W" "t + 4 < 80"
  shows "\<exists>W'. sha1_five t (W, h) = (W', fold (fips_step b) [t..<t + 5] h) \<and> window b (t + 5) W'"
proof -
  obtain W1 where 1: "sha1_word W t = (W1, fips_W b t)" "window b (t + 1) W1"
    using sha1_word_fips [OF assms(1)] by auto
  obtain W2 where 2: "sha1_word W1 (t + 1) = (W2, fips_W b (t + 1))" "window b (t + 2) W2"
    using sha1_word_fips [OF 1(2)] by auto
  obtain W3 where 3: "sha1_word W2 (t + 2) = (W3, fips_W b (t + 2))" "window b (t + 3) W3"
    using sha1_word_fips [OF 2(2)] by (auto simp: eval_nat_numeral)
  obtain W4 where 4: "sha1_word W3 (t + 3) = (W4, fips_W b (t + 3))" "window b (t + 4) W4"
    using sha1_word_fips [OF 3(2)] by (auto simp: eval_nat_numeral)
  obtain W5 where 5: "sha1_word W4 (t + 4) = (W5, fips_W b (t + 4))" "window b (t + 5) W5"
    using sha1_word_fips [OF 4(2)] by (auto simp: eval_nat_numeral)
  have upt: "[t..<t + 5] = [t, t + 1, t + 2, t + 3, t + 4]"
    by (simp add: upt_rec)
  obtain A B C D E where h: "h = (A, B, C, D, E)" by (cases h)
  have "sha1_five t (W, h) = (W5, fold (fips_step b) [t..<t + 5] h)"
    unfolding h upt using assms(2)
    by (simp add: sha1_five_def 1 2 3 4 5 fips_step_P case_prod_unfold Let_def
      del: One_nat_def add_2_eq_Suc' add_2_eq_Suc)
  then show ?thesis using 5 by blast
qed

lemma sha1_rounds_fips:
  assumes "window b 0 W" "n \<le> 16"
  shows "\<exists>W'. fold (\<lambda>i. sha1_five (5 * i)) [0..<n] (W, h) = (W', fold (fips_step b) [0..<5 * n] h) \<and> window b (5 * n) W'"
  using assms(2)
proof (induction n)
  case (Suc n)
  then obtain W1 where 1: "fold (\<lambda>i. sha1_five (5 * i)) [0..<n] (W, h) = (W1, fold (fips_step b) [0..<5 * n] h)"
    "window b (5 * n) W1" by auto
  obtain W2 where 2: "sha1_five (5 * n) (W1, fold (fips_step b) [0..<5 * n] h) =
      (W2, fold (fips_step b) [5 * n..<5 * n + 5] (fold (fips_step b) [0..<5 * n] h))" "window b (5 * n + 5) W2"
    using sha1_five_fips [OF 1(2)] Suc.prems by fastforce
  have "[0..<5 * Suc n] = [0..<5 * n] @ [5 * n..<5 * n + 5]"
    using upt_add_eq_append [of 0 "5 * n" 5] by (simp add: add.commute [of 5])
  then show ?case using 1 2 by (simp add: add.commute)
qed (use assms in simp)

lemma sha1_process_fips:
  assumes "length b = 64"
  shows "sha1_process ctx b = ctx\<lparr>sha1_state := fips_compress (sha1_state ctx) b\<rparr>"
proof -
  obtain W where "fold (\<lambda>i. sha1_five (5 * i)) [0..<16] (map (\<lambda>i. GET_UINT32_BE b (4 * i)) [0..<16], sha1_state ctx)
      = (W, fold (fips_step b) [0..<80] (sha1_state ctx))"
    using sha1_rounds_fips [OF window_start [OF assms], of 16 "sha1_state ctx"] by auto
  then show ?thesis
    by (cases "sha1_state ctx"; cases "fold (fips_step b) [0..<80] (sha1_state ctx)")
      (simp add: sha1_process_def fips_compress_def)
qed

section \<open>The context\<close>

text \<open>What a context holds after the message \<open>m\<close>: the byte count modulo \<open>2^64\<close>, the state after its whole blocks
  and the bytes left over.\<close>

definition sha1_fed :: "byte list \<Rightarrow> sha1_context \<Rightarrow> bool" where
  "sha1_fed m ctx \<longleftrightarrow>
    total0 ctx = of_nat (length m) \<and> total1 ctx = of_nat (length m div 2 ^ 32) \<and> length (sha1_buffer ctx) = 64 \<and>
    sha1_state ctx = fst (absorb fips_compress fips_H0 m) \<and>
    take (length m mod 64) (sha1_buffer ctx) = snd (absorb fips_compress fips_H0 m)"

lemma sha1_fed_starts: "length (sha1_buffer ctx) = 64 \<Longrightarrow> sha1_fed [] (sha1_starts ctx)"
  by (simp add: sha1_fed_def sha1_starts_def fips_H0_def)

declare sha1_update_blocks.simps [simp del]

lemma sha1_update_blocks_absorb:
  assumes "i + n \<le> length input" "left + n < 64 \<or> left = 0" "length (sha1_buffer ctx) = 64"
  shows "\<exists>buffer. length buffer = 64 \<and>
    sha1_update_blocks input i n left ctx =
      Some (ctx\<lparr>sha1_state := fst (absorb fips_compress (sha1_state ctx) (take n (drop i input))), sha1_buffer := buffer\<rparr>) \<and>
    take (left + n mod 64) buffer =
      take left (sha1_buffer ctx) @ snd (absorb fips_compress (sha1_state ctx) (take n (drop i input)))"
  using assms
proof (induction input i n left ctx rule: sha1_update_blocks.induct)
  case (1 input i n left ctx)
  show ?case
  proof (cases "64 \<le> n")
    case True
    let ?b = "take 64 (drop i input)"
    have b: "length ?b = 64" using 1 True by simp
    have "take n (drop i input) = ?b @ take (n - 64) (drop (i + 64) input)"
      using True by (metis add.commute drop_drop le_add_diff_inverse take_add)
    then have a: "absorb fips_compress s (take n (drop i input)) =
        absorb fips_compress (fips_compress s ?b) (take (n - 64) (drop (i + 64) input))" for s
      using absorb_block [OF b] by simp
    have m: "(n - 64) mod 64 = n mod 64" using True by (simp add: le_mod_geq)
    show ?thesis
      using 1 True b a by (simp add: sha1_update_blocks.simps [of input i n] sha1_process_fips m)
  next
    case False
    then have "sha1_update_blocks input i n left ctx =
        Some (ctx\<lparr>sha1_buffer := patch left (take n (drop i input)) (sha1_buffer ctx)\<rparr>)"
      using 1 by (subst sha1_update_blocks.simps) (auto simp: memcpy_at_def)
    moreover have "take (left + n) (patch left (take n (drop i input)) (sha1_buffer ctx)) =
        take left (sha1_buffer ctx) @ take n (drop i input)"
      using take_patch_eq [of left "sha1_buffer ctx" "take n (drop i input)"] 1 False by auto
    ultimately show ?thesis
      using 1 False by (auto intro!: exI [of _ "patch left (take n (drop i input)) (sha1_buffer ctx)"])
  qed
qed

lemma count_carry:
  assumes "n < 2 ^ 32"
  shows "(if (of_nat (l + n) :: u32) < of_nat n then of_nat (l div 2 ^ 32) + 1 else of_nat (l div 2 ^ 32)) =
    (of_nat ((l + n) div 2 ^ 32) :: u32)"
proof -
  define M where "M = (2 ^ 32 :: nat)"
  define q a where "q = l div M" and "a = l mod M"
  have l: "l = q * M + a" and a: "a < M" and n: "n < M"
    using assms by (simp_all add: q_def a_def M_def)
  have "(of_nat (l + n) :: u32) < of_nat n \<longleftrightarrow> (l + n) mod M < n mod M"
    by (simp only: word_less_nat_alt unsigned_of_nat take_bit_eq_mod M_def len_num1 len_bit0 len_of_numeral_defs) simp
  also have "\<dots> \<longleftrightarrow> M \<le> a + n"
    using a n by (auto simp: l add.assoc mod_if [of "a + n"])
  finally have lt: "(of_nat (l + n) :: u32) < of_nat n \<longleftrightarrow> M \<le> a + n" .
  have "(l + n) div M = (if M \<le> a + n then q + 1 else q)"
    using a n by (auto simp: l add.assoc le_div_geq)
  then show ?thesis
    using lt by (simp add: q_def M_def)
qed

lemma sha1_update_fed:
  assumes fed: "sha1_fed m ctx" and n: "n < 2 ^ 31" "n \<le> length input"
  shows "\<exists>ctx'. sha1_update input (int n) ctx = Some ctx' \<and> sha1_fed (m @ take n input) ctx'"
proof (cases "n = 0")
  case True
  then show ?thesis using fed by (simp add: sha1_update_def)
next
  case False
  define left s r where "left = length m mod 64" and "s = sha1_state ctx"
    and "r = take left (sha1_buffer ctx)"
  have sr: "absorb fips_compress fips_H0 m = (s, r)"
    using fed by (simp add: sha1_fed_def s_def r_def left_def prod_eq_iff)
  have buf: "length (sha1_buffer ctx) = 64" and left: "left < 64" "unat (total0 ctx AND 0x3F) = left"
    using fed by (simp_all add: sha1_fed_def left_def and_3F unat_mod_64)
  have r: "length r = left" using buf left by (simp add: r_def)
  have app: "absorb fips_compress fips_H0 (m @ x) = absorb fips_compress s (r @ x)" for x
    by (subst absorb_append) (simp add: sr)
  let ?c = "ctx\<lparr>total0 := of_nat (length m + n), total1 := of_nat ((length m + n) div 2 ^ 32)\<rparr>"
  have len: "(length m + n) mod 64 = (left + n) mod 64" by (simp add: left_def mod_add_left_eq)
  have totals: "total0 ctx = of_nat (length m)" "total1 ctx = of_nat (length m div 2 ^ 32)"
    using fed by (simp_all add: sha1_fed_def)
  have n': "n < 2 ^ 32" using n by simp
  have counts: "total0 ctx + word_of_int (int n) = of_nat (length m + n)"
    "(if (of_nat (length m + n) :: u32) < word_of_int (int n) then total1 ctx + 1 else total1 ctx) =
      of_nat ((length m + n) div 2 ^ 32)"
    using n by (simp_all only: totals of_int_of_nat_eq of_nat_add [symmetric] count_carry [OF n'])
  show ?thesis
  proof (cases "left \<noteq> 0 \<and> 64 - left \<le> n")
    case True
    let ?f = "64 - left" and ?b = "r @ take (64 - left) input"
    have b: "length ?b = 64" using r left True n by simp
    have "patch left (take ?f input) (sha1_buffer ctx) = ?b"
      using buf left True n by (simp add: patch_def r_def)
    then have up: "sha1_update input (int n) ctx =
        sha1_update_blocks input ?f (n - ?f) 0 (?c\<lparr>sha1_buffer := ?b, sha1_state := fips_compress s ?b\<rparr>)"
      using False True left n buf r b unfolding sha1_update_def counts and_ones Let_def
      by (simp add: memcpy_at_def sha1_process_fips s_def)
    have "take n input = take ?f input @ take (n - ?f) (drop ?f input)"
      using True by (metis le_add_diff_inverse take_add)
    then have ab: "absorb fips_compress fips_H0 (m @ take n input) =
        absorb fips_compress (fips_compress s ?b) (take (n - ?f) (drop ?f input))"
      using absorb_block [OF b] by (simp add: app)
    have "left + n = (n - ?f) + 64" using True left(1) by linarith
    then have "(left + n) mod 64 = (n - ?f) mod 64" by (simp only: mod_add_self2)
    then show ?thesis
      using sha1_update_blocks_absorb [of ?f "n - ?f" input 0 "?c\<lparr>sha1_buffer := ?b, sha1_state := fips_compress s ?b\<rparr>"] True n b ab
      unfolding up by (auto simp: sha1_fed_def len min_absorb2)
  next
    case no: False
    then have up: "sha1_update input (int n) ctx = sha1_update_blocks input 0 n left ?c"
      using False left n unfolding sha1_update_def counts and_ones Let_def by auto
    have room: "left + n < 64 \<or> left = 0" using no by auto
    then have ab: "absorb fips_compress fips_H0 (m @ take n input) =
        (fst (absorb fips_compress s (take n input)), r @ snd (absorb fips_compress s (take n input)))"
      "(left + n) mod 64 = left + n mod 64"
      using r n by (auto simp: app)
    show ?thesis
      using sha1_update_blocks_absorb [of 0 n input left ?c] room n buf ab
      unfolding up by (auto simp: sha1_fed_def len min_absorb2 s_def r_def)
  qed
qed

lemma sha1_update_fed':
  assumes "sha1_fed m ctx" "0 \<le> n" "n < 2 ^ 31" "n \<le> int (length input)"
  shows "\<exists>ctx'. sha1_update input n ctx = Some ctx' \<and> sha1_fed (m @ take (nat n) input) ctx'"
  using sha1_update_fed [of m ctx "nat n" input] assms by simp

lemma PUT_UINT32_BE_of_nat: "PUT_UINT32_BE (of_nat v) = be_bytes 4 v"
proof -
  have b: "(ucast (drop_bit k (of_nat v :: u32)) :: byte) = of_nat (drop_bit k v)" if "k \<le> 24" for k
    using that by (intro bit_word_eqI) (auto simp: bit_simps)
  have d: "drop_bit 24 v = v div 256 div 256 div 256" "drop_bit 16 v = v div 256 div 256" "drop_bit 8 v = v div 256"
    by (simp_all add: drop_bit_eq_div div_mult2_eq [symmetric])
  have "(4::nat) = Suc (Suc (Suc (Suc 0)))" by simp
  then have "be_bytes 4 v = [of_nat (drop_bit 24 v), of_nat (drop_bit 16 v), of_nat (drop_bit 8 v), of_nat v]"
    by (simp only: be_bytes.simps append.simps d)
  then show ?thesis
    using b [of 24] b [of 16] b [of 8] b [of 0] by (simp add: PUT_UINT32_BE_def)
qed

lemma PUT_UINT32_BE_unat: "PUT_UINT32_BE w = be_bytes 4 (unat w)"
  using PUT_UINT32_BE_of_nat [of "unat w"] by simp

lemma be_bytes_add: "be_bytes (i + j) v = be_bytes i (v div 256 ^ j) @ be_bytes j v"
  by (induction j arbitrary: v) (simp_all add: div_mult2_eq)

lemma length_be_bytes [simp]: "length (be_bytes n v) = n"
  by (induction n arbitrary: v) simp_all

lemma bit_count:
  "drop_bit 29 (of_nat l) OR push_bit 3 (of_nat (l div 2 ^ 32)) = (of_nat ((8 * l) div 2 ^ 32) :: u32)"
proof -
  have "l div 2 ^ 32 = drop_bit 32 l" "(8 * l) div 2 ^ 32 = drop_bit 29 l"
    by (simp_all add: drop_bit_eq_div)
  then show ?thesis
    by (intro bit_word_eqI) (auto simp: bit_simps)
qed

lemma sha1_pad:
  assumes "sha1_fed m ctx"
  defines "padn \<equiv> (if length m mod 64 < 56 then 56 - length m mod 64 else 120 - length m mod 64)"
  shows "take padn sha1_padding @ PUT_UINT32_BE (drop_bit 29 (total0 ctx) OR push_bit 3 (total1 ctx)) @
    PUT_UINT32_BE (push_bit 3 (total0 ctx)) = fips_pad m"
proof -
  have totals: "total0 ctx = of_nat (length m)" "total1 ctx = of_nat (length m div 2 ^ 32)"
    using assms by (simp_all add: sha1_fed_def)
  have "push_bit 3 (of_nat (length m) :: u32) = of_nat (8 * length m)"
    by (simp add: push_bit_eq_mult)
  then have len: "PUT_UINT32_BE (drop_bit 29 (total0 ctx) OR push_bit 3 (total1 ctx)) @
      PUT_UINT32_BE (push_bit 3 (total0 ctx)) = be_bytes 8 (8 * length m)"
    using be_bytes_add [of 4 4 "8 * length m"] by (simp only: totals bit_count PUT_UINT32_BE_of_nat) simp
  have k: "(119 - length m mod 64) mod 64 = padn - 1" "0 < padn" "padn \<le> 64"
  proof -
    show "(119 - length m mod 64) mod 64 = padn - 1"
      by (cases "length m mod 64 < 56") (simp_all add: padn_def pad_length)
  qed (use mod_less_divisor [of 64 "length m"] in \<open>auto simp: padn_def\<close>)
  then have "take padn sha1_padding = 0x80 # replicate (padn - 1) 0"
    by (cases padn) (simp_all add: sha1_padding_def)
  then show ?thesis
    by (simp add: fips_pad_def len k)
qed

lemma sha1_padn:
  fixes last :: u32
  assumes "unat last < 64"
  shows "sint (if last < 56 then 56 - last else 120 - last) = int (if unat last < 56 then 56 - unat last else 120 - unat last)"
proof -
  have lt: "last < 56 \<longleftrightarrow> unat last < 56" by (simp add: word_less_nat_alt)
  have u: "unat (if last < 56 then 56 - last else 120 - last) = (if unat last < 56 then 56 - unat last else 120 - unat last)"
    using assms by (auto simp: lt word_le_nat_alt unat_sub)
  then have "unat (if last < 56 then 56 - last else 120 - last) < 2 ^ 31" using assms by auto
  then show ?thesis by (simp only: sint_eq_unat u)
qed

lemma sha1_finish_fed:
  assumes fed: "sha1_fed m ctx"
  shows "\<exists>ctx'. sha1_finish ctx = Some (ctx', fips_sha1 m) \<and> length (sha1_buffer ctx') = 64"
proof -
  define padn where "padn = (if length m mod 64 < 56 then 56 - length m mod 64 else 120 - length m mod 64)"
  define last where "last = total0 ctx AND 0x3F"
  have last: "unat last = length m mod 64"
    using fed by (simp add: last_def and_3F sha1_fed_def unat_mod_64)
  have padn: "padn \<le> 64" by (auto simp: padn_def)
  have sp: "sint (if last < 56 then 56 - last else 120 - last) = int padn"
    using sha1_padn [of last] last by (simp add: padn_def)
  obtain c1 where c1: "sha1_update sha1_padding (int padn) ctx = Some c1" "sha1_fed (m @ take padn sha1_padding) c1"
    using sha1_update_fed [OF fed, of padn sha1_padding] padn by (auto simp: sha1_padding_def)
  let ?l = "PUT_UINT32_BE (drop_bit 29 (total0 ctx) OR push_bit 3 (total1 ctx)) @ PUT_UINT32_BE (push_bit 3 (total0 ctx))"
  have l: "length ?l = 8" by (simp add: PUT_UINT32_BE_def)
  obtain c2 where c2: "sha1_update ?l 8 c1 = Some c2" "sha1_fed ((m @ take padn sha1_padding) @ ?l) c2"
    using sha1_update_fed' [OF c1(2), of 8 ?l] l by auto
  have "sha1_finish ctx = Some (c2, sha1_output (sha1_state c2))"
    unfolding sha1_finish_def Let_def last_def [symmetric] sp c1(1) by (simp add: c2(1))
  moreover have "sha1_fed (m @ fips_pad m) c2"
    using c2(2) sha1_pad [OF fed] by (simp add: padn_def)
  ultimately show ?thesis
    by (auto simp: sha1_fed_def fips_sha1_def sha1_output_def PUT_UINT32_BE_unat split: prod.split)
qed

interpretation sha1: digest_context sha1_fed
    "\<lambda>ctx. \<exists>ctx0. length (sha1_buffer ctx0) = 64 \<and> ctx = sha1_starts ctx0"
    "\<lambda>x. sha1_update x (int (length x))" "\<lambda>ctx. map_option snd (sha1_finish ctx)" fips_sha1
proof
  fix m ctx
  assume "sha1_fed m ctx"
  then show "map_option snd (sha1_finish ctx) = Some (fips_sha1 m)"
    using sha1_finish_fed [of m ctx] by auto
next
  fix m ctx and x :: "byte list"
  assume "sha1_fed m ctx" "length x < 2 ^ 31"
  then show "\<exists>c'. sha1_update x (int (length x)) ctx = Some c' \<and> sha1_fed (m @ x) c'"
    using sha1_update_fed [of m ctx "length x" x] by simp
qed (auto simp: sha1_fed_starts)

section \<open>The digests are the standard's\<close>

lemma sha1_feed_two:
  assumes "length (sha1_buffer ctx) = 64" "length a < 2 ^ 31" "0 \<le> n" "n < 2 ^ 31" "n \<le> int (length input)"
  shows "\<exists>c1 c2 c3. sha1_update a (int (length a)) (sha1_starts ctx) = Some c1 \<and> sha1_update input n c1 = Some c2 \<and>
    sha1_finish c2 = Some (c3, fips_sha1 (a @ take (nat n) input)) \<and> length (sha1_buffer c3) = 64"
proof -
  obtain c1 where c1: "sha1_update a (int (length a)) (sha1_starts ctx) = Some c1" "sha1_fed a c1"
    using sha1_update_fed [OF sha1_fed_starts [OF assms(1)], of "length a" a] assms(2) by auto
  obtain c2 where "sha1_update input n c1 = Some c2" "sha1_fed (a @ take (nat n) input) c2"
    using sha1_update_fed' [OF c1(2)] assms by blast
  then show ?thesis using c1 sha1_finish_fed by blast
qed

lemma length_fips_sha1 [simp]: "length (fips_sha1 m) = 20"
  by (simp add: fips_sha1_def split: prod.split)

lemma hmac_pads_key:
  assumes "int i \<le> keylen" "keylen \<le> int (length key)" "length ip = 64" "length op = 64" "i \<le> 64"
  shows "hmac_pads key keylen i ip op =
    Some (map (\<lambda>j. if i \<le> j \<and> int j < keylen then ip ! j XOR key ! j else ip ! j) [0..<64],
      map (\<lambda>j. if i \<le> j \<and> int j < keylen then op ! j XOR key ! j else op ! j) [0..<64])"
  using assms
proof (induction key keylen i ip op rule: hmac_pads.induct)
  case (1 key keylen i ip op)
  note unfold = hmac_pads.simps [of key keylen i ip op]
  show ?case
  proof (cases "int i < keylen \<and> i < 64")
    case True
    then show ?thesis
      using 1 by (auto simp: unfold nth_list_update simp del: hmac_pads.simps)
  next
    case False
    have "map (\<lambda>j. if i \<le> j \<and> int j < keylen then f j else xs ! j) [0..<64] = xs" if "length xs = 64" for f and xs :: "byte list"
      using False that 1 by (intro nth_equalityI) auto
    moreover have "hmac_pads key keylen i ip op = Some (ip, op)"
      unfolding unfold if_not_P [OF False] by (rule refl)
    ultimately show ?thesis
      using "1.prems"(3,4) by (simp del: hmac_pads.simps upt_rec_numeral)
  qed
qed

declare hmac_pads.simps [simp del]

lemma hmac_pads_fips:
  assumes "0 \<le> keylen" "keylen \<le> int (length key)"
  defines "K0 \<equiv> take (min 64 (nat keylen)) key @ replicate (64 - min 64 (nat keylen)) 0"
  shows "hmac_pads key keylen 0 (replicate 64 0x36) (replicate 64 0x5C) =
    Some (map (\<lambda>k. k XOR 0x36) K0, map (\<lambda>k. k XOR 0x5C) K0)"
proof -
  have len: "length K0 = 64" using assms by (simp add: K0_def)
  have "map (\<lambda>j. if 0 \<le> j \<and> int j < keylen then replicate 64 c ! j XOR key ! j else replicate 64 c ! j) [0..<64] =
      map (\<lambda>k. k XOR c) K0" for c
  proof (intro nth_equalityI)
    fix j
    assume "j < length (map (\<lambda>j. if 0 \<le> j \<and> int j < keylen then replicate 64 c ! j XOR key ! j else replicate 64 c ! j) [0..<64])"
    then have j: "j < 64" by simp
    moreover have "K0 ! j = (if int j < keylen then key ! j else 0)"
      using assms j by (auto simp: K0_def nth_append)
    ultimately show "map (\<lambda>j. if 0 \<le> j \<and> int j < keylen then replicate 64 c ! j XOR key ! j else replicate 64 c ! j) [0..<64] ! j =
        map (\<lambda>k. k XOR c) K0 ! j"
      by (simp add: len xor.commute del: upt_rec_numeral)
  qed (simp add: len)
  then show ?thesis
    using hmac_pads_key [of 0 keylen key "replicate 64 0x36" "replicate 64 0x5C"] assms by simp
qed

text \<open>C10. The digest that \<^verbatim>\<open>sha1_csum\<close> computes is the one of the standard, whatever the context it starts
  with holds: the schedule kept in sixteen words, the rounds that rename the variables instead of moving them, the
  buffer that is filled in two steps and the padding written by \<^verbatim>\<open>sha1_finish\<close> give the digest of the padded
  message.\<close>

theorem sha1_csum_fips:
  assumes "length (sha1_buffer ctx) = 64" "0 \<le> ilen" "ilen < 2 ^ 31" "ilen \<le> int (length input)"
  shows "sha1_csum ctx input ilen = Some (fips_sha1 (take (nat ilen) input))"
proof -
  obtain c where c: "sha1_update input ilen (sha1_starts ctx) = Some c" "sha1_fed (take (nat ilen) input) c"
    using sha1_update_fed' [OF sha1_fed_starts [OF assms(1)]] assms by fastforce
  then show ?thesis
    using sha1_finish_fed [OF c(2)] by (auto simp: sha1_csum_def)
qed

theorem sha1_csum_fips_witness:
  "sha1_csum \<lparr>total0 = 7, total1 = 9, sha1_state = (1, 2, 3, 4, 5), sha1_buffer = replicate 64 0xAA\<rparr>
     (replicate 100 0x61) 80 = Some (fips_sha1 (replicate 80 0x61))"
  using sha1_csum_fips [of "\<lparr>total0 = 7, total1 = 9, sha1_state = (1, 2, 3, 4, 5), sha1_buffer = replicate 64 0xAA\<rparr>"
      80 "replicate 100 0x61"] by simp

text \<open>C15. A message of any size, fed to the context in pieces of any sizes (also empty ones), gives the digest of
  the whole message; the count of bytes carries into its second word.\<close>

theorem sha1_pieces:
  assumes "length (sha1_buffer ctx) = 64" "\<forall>x\<in>set xs. length x < 2 ^ 31"
  shows "do { ctx \<leftarrow> feed (\<lambda>x. sha1_update x (int (length x))) xs (sha1_starts ctx);
      map_option snd (sha1_finish ctx) } = Some (fips_sha1 (concat xs))"
  using sha1.digest_pieces [of "sha1_starts ctx" xs] assms by blast

theorem sha1_pieces_witness:
  "do { ctx \<leftarrow> feed (\<lambda>x. sha1_update x (int (length x))) [[0x61], [], replicate 70 0x62]
          (sha1_starts \<lparr>total0 = 7, total1 = 9, sha1_state = (1, 2, 3, 4, 5), sha1_buffer = replicate 64 0xAA\<rparr>);
        map_option snd (sha1_finish ctx) } = Some (fips_sha1 (0x61 # replicate 70 0x62))"
  using sha1_pieces [of "\<lparr>total0 = 7, total1 = 9, sha1_state = (1, 2, 3, 4, 5), sha1_buffer = replicate 64 0xAA\<rparr>"
      "[[0x61], [], replicate 70 0x62]"] by simp

text \<open>C14. \<^verbatim>\<open>sha1_hmac\<close> computes the keyed digest of the standard for the first 64 bytes of the key. For a
  longer key the standard digests the key first; the function drops what follows the 64th byte.\<close>

theorem sha1_hmac_fips:
  assumes "length (sha1_buffer ctx) = 64" "0 \<le> keylen" "keylen \<le> int (length key)"
    and "0 \<le> ilen" "ilen < 2 ^ 31" "ilen \<le> int (length input)"
  shows "sha1_hmac ctx key keylen input ilen =
    Some (fips_hmac (take (min 64 (nat keylen)) key) (take (nat ilen) input))"
proof -
  define K where "K = take (min 64 (nat keylen)) key @ replicate (64 - min 64 (nat keylen)) 0"
  define ip op where "ip = map (\<lambda>k. k XOR 0x36) K" and "op = map (\<lambda>k. k XOR 0x5C) K"
  define inner where "inner = fips_sha1 (ip @ take (nat ilen) input)"
  have len: "length ip = 64" "length op = 64" "length inner = 20"
    using assms(2,3) by (simp_all add: ip_def op_def K_def inner_def)
  obtain c1 c2 c3 where c: "sha1_update ip 64 (sha1_starts ctx) = Some c1" "sha1_update input ilen c1 = Some c2"
      "sha1_finish c2 = Some (c3, inner)" "length (sha1_buffer c3) = 64"
    using sha1_feed_two [OF assms(1), of ip ilen input] assms(4-6) by (auto simp: len inner_def)
  obtain d1 d2 d3 where d: "sha1_update op 64 (sha1_starts c3) = Some d1" "sha1_update inner 20 d1 = Some d2"
      "sha1_finish d2 = Some (d3, fips_sha1 (op @ inner))"
    using sha1_feed_two [OF c(4), of op 20 inner] by (auto simp: len)
  have "hmac_pads key keylen 0 (replicate 64 0x36) (replicate 64 0x5C) = Some (ip, op)"
    using hmac_pads_fips [OF assms(2,3)] by (simp only: ip_def op_def K_def)
  then have "sha1_hmac ctx key keylen input ilen = Some (fips_sha1 (op @ inner))"
    by (simp only: sha1_hmac_def c d Option.bind_lunit prod.case)
  moreover have "fips_hmac (take (min 64 (nat keylen)) key) (take (nat ilen) input) = fips_sha1 (op @ inner)"
  proof -
    have "length (take (min 64 (nat keylen)) key) = min 64 (nat keylen)" using assms(2,3) by simp
    then show ?thesis by (simp only: fips_hmac_def Let_def ip_def op_def inner_def K_def)
  qed
  ultimately show ?thesis by simp
qed

theorem sha1_hmac_fips_witness:
  "sha1_hmac \<lparr>total0 = 7, total1 = 9, sha1_state = (1, 2, 3, 4, 5), sha1_buffer = replicate 64 0xAA\<rparr>
     (replicate 20 0x0B) 20 [0x48, 0x69] 2 = Some (fips_hmac (replicate 20 0x0B) [0x48, 0x69])"
  using sha1_hmac_fips [of "\<lparr>total0 = 7, total1 = 9, sha1_state = (1, 2, 3, 4, 5), sha1_buffer = replicate 64 0xAA\<rparr>"
      20 "replicate 20 0x0B" 2 "[0x48, 0x69]"] by simp

end
