(* ===== verification/Md5_Table.thy ===== *)
theory Md5_Table
  imports Complex_Main
begin

text \<open>
  The constants of MD5. RFC 1321 defines the constant of step \<open>i\<close> as the integer part of \<open>2 ^ 32\<close> times the absolute
  value of the sine of \<open>i\<close> (in radians); the code and the RFC's own program list the 64 values. This theory proves that
  the listed values are the defined ones: the sine and cosine of 1 are bounded with their series, those of the other
  numbers with the addition theorems, in integers scaled by \<open>2 ^ 80\<close>.
\<close>

section \<open>Bounds for the sine and the cosine of 1\<close>

definition sin_1 :: int where
  "sin_1 = 1017275999990815458903785"

definition cos_1 :: int where
  "cos_1 = 653185407961314874212934"

lemma scaled_bound:
  fixes x q e :: real
  assumes "\<bar>x - q\<bar> \<le> e" "\<bar>2 ^ 80 * q - s\<bar> + 2 ^ 80 * e \<le> 1"
  shows "\<bar>2 ^ 80 * x - s\<bar> \<le> 1"
proof -
  have "2 ^ 80 * x - s = 2 ^ 80 * (x - q) + (2 ^ 80 * q - s)" by simp
  moreover have "\<bar>2 ^ 80 * (x - q)\<bar> \<le> 2 ^ 80 * e" using assms(1) by (simp add: abs_mult)
  ultimately show ?thesis using assms(2) by linarith
qed

lemma sin_1_bound: "\<bar>2 ^ 80 * sin 1 - real_of_int sin_1\<bar> \<le> 1"
proof -
  have "\<bar>sin 1 - (\<Sum>m<26. sin_coeff m * 1 ^ m)\<bar> \<le> inverse (fact 26) * \<bar>1\<bar> ^ 26"
    by (rule Maclaurin_sin_bound)
  moreover have "(\<Sum>m<26. sin_coeff m * 1 ^ m) = (13052233190723859821607001 / 15511210043330985984000000 :: real)"
    by (simp add: sin_coeff_def lessThan_nat_numeral fact_numeral)
  ultimately have "\<bar>sin 1 - 13052233190723859821607001 / 15511210043330985984000000\<bar> \<le> inverse (fact 26 :: real)"
    by (simp only: abs_one power_one mult_1_right)
  then show ?thesis
    by (rule scaled_bound) (simp add: sin_1_def fact_numeral)
qed

lemma cos_1_bound: "\<bar>2 ^ 80 * cos 1 - real_of_int cos_1\<bar> \<le> 1"
proof -
  obtain t :: real where "cos 1 = (\<Sum>m<26. cos_coeff m * 1 ^ m) + (cos (t + 1 / 2 * real 26 * pi) / fact 26) * 1 ^ 26"
    using Maclaurin_cos_expansion [of 1 26] by blast
  then have "\<bar>cos 1 - (\<Sum>m<26. cos_coeff m)\<bar> = \<bar>cos (t + 1 / 2 * real 26 * pi)\<bar> / fact 26"
    by simp
  also have "\<dots> \<le> 1 / fact 26"
    by (rule divide_right_mono) simp_all
  finally have "\<bar>cos 1 - (\<Sum>m<26. cos_coeff m)\<bar> \<le> inverse (fact 26)"
    by (simp add: inverse_eq_divide)
  moreover have "(\<Sum>m<26. cos_coeff m) = (335229702128671164345673 / 620448401733239439360000 :: real)"
    by (simp add: cos_coeff_def lessThan_nat_numeral fact_numeral)
  ultimately have "\<bar>cos 1 - 335229702128671164345673 / 620448401733239439360000\<bar> \<le> inverse (fact 26 :: real)"
    by (simp only:)
  then show ?thesis
    by (rule scaled_bound) (simp add: cos_1_def fact_numeral)
qed

section \<open>The other numbers\<close>

text \<open>One entry of the table against the scaled sine \<open>S\<close>, known up to \<open>E\<close>, then the next number.\<close>

fun table_ok :: "int \<Rightarrow> int \<Rightarrow> int \<Rightarrow> int list \<Rightarrow> bool" where
  "table_ok S C E [] = True"
| "table_ok S C E (t # ts) \<longleftrightarrow>
    t * 2 ^ 48 \<le> \<bar>S\<bar> - E \<and> \<bar>S\<bar> + E < (t + 1) * 2 ^ 48 \<and>
    table_ok ((S * cos_1 + C * sin_1) div 2 ^ 80) ((C * cos_1 - S * sin_1) div 2 ^ 80) (3 * E div 2 + 4) ts"

lemma div_error: "\<bar>real_of_int a / 2 ^ 80 - real_of_int (a div 2 ^ 80)\<bar> \<le> 1"
proof -
  have "real_of_int (a div 2 ^ 80) = of_int \<lfloor>real_of_int a / 2 ^ 80\<rfloor>"
    using floor_divide_of_int_eq [of a "2 ^ 80", where ?'a = real] by simp
  then show ?thesis by linarith
qed

lemma product_error:
  fixes x y :: real
  assumes a: "\<bar>2 ^ 80 * x - real_of_int a\<bar> \<le> E" and b: "\<bar>2 ^ 80 * y - real_of_int b\<bar> \<le> 1" and x: "\<bar>x\<bar> \<le> 1"
  shows "\<bar>2 ^ 80 * (x * y) - real_of_int (a * b) / 2 ^ 80\<bar> \<le> E * (\<bar>b\<bar> / 2 ^ 80) + 1"
proof -
  have "2 ^ 80 * (x * y) - real_of_int (a * b) / 2 ^ 80 =
      x * (2 ^ 80 * y - b) + (2 ^ 80 * x - a) * (b / 2 ^ 80)"
    by (simp add: field_simps)
  moreover have "\<bar>x * (2 ^ 80 * y - b)\<bar> \<le> 1 * 1"
    unfolding abs_mult using x b by (intro mult_mono) simp_all
  moreover have "\<bar>(2 ^ 80 * x - a) * (b / 2 ^ 80)\<bar> \<le> E * (\<bar>b\<bar> / 2 ^ 80)"
    unfolding abs_mult using a by (intro mult_mono) simp_all
  ultimately show ?thesis by linarith
qed

lemma addition_error:
  fixes x y :: real and E :: int
  assumes "\<bar>2 ^ 80 * x - real_of_int S\<bar> \<le> E" "\<bar>2 ^ 80 * y - real_of_int C\<bar> \<le> E" "\<bar>x\<bar> \<le> 1" "\<bar>y\<bar> \<le> 1"
  shows "\<bar>2 ^ 80 * (x * cos 1 + y * sin 1) - real_of_int ((S * cos_1 + C * sin_1) div 2 ^ 80)\<bar> \<le> of_int (3 * E div 2 + 4)"
    and "\<bar>2 ^ 80 * (y * cos 1 - x * sin 1) - real_of_int ((C * cos_1 - S * sin_1) div 2 ^ 80)\<bar> \<le> of_int (3 * E div 2 + 4)"
proof -
  have E: "0 \<le> real_of_int E" using assms(1) by linarith
  have c: "E * (\<bar>real_of_int cos_1\<bar> / 2 ^ 80) + E * (\<bar>real_of_int sin_1\<bar> / 2 ^ 80) \<le> E * (7 / 5)"
    unfolding distrib_left [symmetric] using E by (intro mult_left_mono) (simp_all add: cos_1_def sin_1_def)
  have d: "E * (7 / 5) + 3 \<le> real_of_int (3 * E div 2 + 4)"
    using E by linarith
  note p = product_error [OF assms(1) cos_1_bound assms(3)] product_error [OF assms(2) sin_1_bound assms(4)]
    product_error [OF assms(2) cos_1_bound assms(4)] product_error [OF assms(1) sin_1_bound assms(3)]
  have "\<bar>2 ^ 80 * (x * cos 1 + y * sin 1) - real_of_int (S * cos_1 + C * sin_1) / 2 ^ 80\<bar> \<le> E * (7 / 5) + 2"
    using p(1,2) c by (simp add: distrib_left add_divide_distrib)
  with div_error [of "S * cos_1 + C * sin_1"] d
  show "\<bar>2 ^ 80 * (x * cos 1 + y * sin 1) - real_of_int ((S * cos_1 + C * sin_1) div 2 ^ 80)\<bar> \<le> of_int (3 * E div 2 + 4)"
    by linarith
  have "\<bar>2 ^ 80 * (y * cos 1 - x * sin 1) - real_of_int (C * cos_1 - S * sin_1) / 2 ^ 80\<bar> \<le> E * (7 / 5) + 2"
    using p(3,4) c by (simp add: right_diff_distrib diff_divide_distrib)
  with div_error [of "C * cos_1 - S * sin_1"] d
  show "\<bar>2 ^ 80 * (y * cos 1 - x * sin 1) - real_of_int ((C * cos_1 - S * sin_1) div 2 ^ 80)\<bar> \<le> of_int (3 * E div 2 + 4)"
    by linarith
qed

text \<open>A table that passes holds the integer parts, from the number \<open>n\<close> on.\<close>

lemma table_ok_floor:
  assumes "table_ok S C E ts" "\<bar>2 ^ 80 * sin (real n) - real_of_int S\<bar> \<le> E" "\<bar>2 ^ 80 * cos (real n) - real_of_int C\<bar> \<le> E"
    and "k < length ts"
  shows "\<lfloor>2 ^ 32 * \<bar>sin (real (n + k))\<bar>\<rfloor> = ts ! k"
  using assms
proof (induction S C E ts arbitrary: n k rule: table_ok.induct)
  case (2 S C E t ts)
  show ?case
  proof (cases k)
    case 0
    have s: "real_of_int \<bar>S\<bar> - E \<le> 2 ^ 80 * \<bar>sin (real n)\<bar>" "2 ^ 80 * \<bar>sin (real n)\<bar> \<le> real_of_int \<bar>S\<bar> + E"
      using "2.prems"(2) by (auto simp: abs_if split: if_splits)
    have "t * 2 ^ 48 \<le> \<bar>S\<bar> - E" "\<bar>S\<bar> + E < (t + 1) * 2 ^ 48"
      using "2.prems"(1) by simp_all
    then have "real_of_int (t * 2 ^ 48) \<le> real_of_int (\<bar>S\<bar> - E)" "real_of_int (\<bar>S\<bar> + E) < real_of_int ((t + 1) * 2 ^ 48)"
      by (simp_all only: of_int_le_iff of_int_less_iff)
    then have "real_of_int t \<le> 2 ^ 32 * \<bar>sin (real n)\<bar>" "2 ^ 32 * \<bar>sin (real n)\<bar> < real_of_int t + 1"
      using s by simp_all
    then show ?thesis using 0 by (simp add: floor_eq_iff)
  next
    case (Suc j)
    have next_trig: "sin (real (Suc n)) = sin (real n) * cos 1 + cos (real n) * sin 1"
      "cos (real (Suc n)) = cos (real n) * cos 1 - sin (real n) * sin 1"
      using sin_add [of "real n" 1] cos_add [of "real n" 1] by (simp_all add: add.commute)
    have ok: "table_ok ((S * cos_1 + C * sin_1) div 2 ^ 80) ((C * cos_1 - S * sin_1) div 2 ^ 80) (3 * E div 2 + 4) ts"
      using "2.prems"(1) by (simp only: table_ok.simps)
    have "\<lfloor>2 ^ 32 * \<bar>sin (real (Suc n + j))\<bar>\<rfloor> = ts ! j"
    proof (rule "2.IH" [OF ok])
      show "j < length ts" using "2.prems"(4) Suc by simp
    qed (unfold next_trig, (rule addition_error [OF "2.prems"(2,3)]; simp)+)
    then show ?thesis using Suc by simp
  qed
qed simp

definition md5_table :: "int list" where
  "md5_table =
   [0xd76aa478, 0xe8c7b756, 0x242070db, 0xc1bdceee, 0xf57c0faf, 0x4787c62a, 0xa8304613, 0xfd469501, 
    0x698098d8, 0x8b44f7af, 0xffff5bb1, 0x895cd7be, 0x6b901122, 0xfd987193, 0xa679438e, 0x49b40821, 
    0xf61e2562, 0xc040b340, 0x265e5a51, 0xe9b6c7aa, 0xd62f105d, 0x02441453, 0xd8a1e681, 0xe7d3fbc8, 
    0x21e1cde6, 0xc33707d6, 0xf4d50d87, 0x455a14ed, 0xa9e3e905, 0xfcefa3f8, 0x676f02d9, 0x8d2a4c8a, 
    0xfffa3942, 0x8771f681, 0x6d9d6122, 0xfde5380c, 0xa4beea44, 0x4bdecfa9, 0xf6bb4b60, 0xbebfbc70, 
    0x289b7ec6, 0xeaa127fa, 0xd4ef3085, 0x04881d05, 0xd9d4d039, 0xe6db99e5, 0x1fa27cf8, 0xc4ac5665, 
    0xf4292244, 0x432aff97, 0xab9423a7, 0xfc93a039, 0x655b59c3, 0x8f0ccc92, 0xffeff47d, 0x85845dd1, 
    0x6fa87e4f, 0xfe2ce6e0, 0xa3014314, 0x4e0811a1, 0xf7537e82, 0xbd3af235, 0x2ad7d2bb, 0xeb86d391]"

lemma table_ok_md5: "table_ok sin_1 cos_1 1 md5_table"
  by code_simp

theorem md5_table_sine: "k < 64 \<Longrightarrow> \<lfloor>2 ^ 32 * \<bar>sin (real (Suc k))\<bar>\<rfloor> = md5_table ! k"
  using table_ok_floor [OF table_ok_md5, of 1 k] sin_1_bound cos_1_bound by (simp add: md5_table_def)

end
