(* ===== verification/Md5.thy ===== *)
theory Md5
  imports Digest_Stream Md5_Table
begin

unbundle bit_operations_syntax

text \<open>
  The MD5 digest of \<^verbatim>\<open>lib/md5.c\<close>, behind the command \<^verbatim>\<open>md5sum\<close> and the hashes of images, with the context of
  \<^verbatim>\<open>include/u-boot/md5.h\<close>. The target is little-endian; the union of the context is its 64 bytes, and a word of it is
  read and written through \<open>rd32\<close> and \<open>le32\<close>. The specification is RFC 1321, with its table of constants computed from
  the sine.
\<close>

section \<open>Model\<close>

type_synonym md5_words = "u32 \<times> u32 \<times> u32 \<times> u32"

record MD5Context =
  md5_buf :: md5_words
  md5_bits0 :: u32
  md5_bits1 :: u32
  md5_in :: "byte list"

text \<open>\<^verbatim>\<open>byteReverse\<close>: every word of the buffer is composed from its bytes and stored again. The loop ends when the counter
  reaches 0 after a turn, so it is entered with at least one word.\<close>

primrec byteReverse_at :: "byte list \<Rightarrow> nat \<Rightarrow> nat \<Rightarrow> byte list option" where
  "byteReverse_at p i 0 = Some p"
| "byteReverse_at p i (Suc longs) =
    (let t = push_bit 16 (push_bit 8 (ucast (rd p (i + 3))) OR ucast (rd p (i + 2))) OR
             (push_bit 8 (ucast (rd p (i + 1))) OR ucast (rd p i))
     in do { p \<leftarrow> memcpy_at i (le32 t) p; byteReverse_at p (i + 4) longs })"

definition byteReverse :: "byte list \<Rightarrow> nat \<Rightarrow> byte list option" where
  "byteReverse p longs = byteReverse_at p 0 longs"

definition MD5Init :: "MD5Context \<Rightarrow> MD5Context" where
  "MD5Init ctx = ctx
    \<lparr>md5_buf := (0x67452301, 0xefcdab89, 0x98badcfe, 0x10325476), md5_bits0 := 0, md5_bits1 := 0\<rparr>"

text \<open>The four core functions, the step and the transformation.\<close>

definition F1 :: "u32 \<Rightarrow> u32 \<Rightarrow> u32 \<Rightarrow> u32" where
  "F1 x y z = z XOR (x AND (y XOR z))"

definition F2 :: "u32 \<Rightarrow> u32 \<Rightarrow> u32 \<Rightarrow> u32" where
  "F2 x y z = F1 z x y"

definition F3 :: "u32 \<Rightarrow> u32 \<Rightarrow> u32 \<Rightarrow> u32" where
  "F3 x y z = x XOR y XOR z"

definition F4 :: "u32 \<Rightarrow> u32 \<Rightarrow> u32 \<Rightarrow> u32" where
  "F4 x y z = y XOR (x OR NOT z)"

definition MD5STEP ::
    "(u32 \<Rightarrow> u32 \<Rightarrow> u32 \<Rightarrow> u32) \<Rightarrow> u32 \<Rightarrow> u32 \<Rightarrow> u32 \<Rightarrow> u32 \<Rightarrow> u32 \<Rightarrow> nat \<Rightarrow> u32" where
  "MD5STEP f w x y z data s =
    (let w = w + (f x y z + data); w = push_bit s w OR drop_bit (32 - s) w in w + x)"

definition MD5Transform_1 :: "(nat \<Rightarrow> u32) \<Rightarrow> md5_words \<Rightarrow> md5_words" where
  "MD5Transform_1 w = (\<lambda>(a, b, c, d).
    let
        a = MD5STEP F1 a b c d (w 0 + 0xd76aa478) 7;
        d = MD5STEP F1 d a b c (w 1 + 0xe8c7b756) 12;
        c = MD5STEP F1 c d a b (w 2 + 0x242070db) 17;
        b = MD5STEP F1 b c d a (w 3 + 0xc1bdceee) 22;
        a = MD5STEP F1 a b c d (w 4 + 0xf57c0faf) 7;
        d = MD5STEP F1 d a b c (w 5 + 0x4787c62a) 12;
        c = MD5STEP F1 c d a b (w 6 + 0xa8304613) 17;
        b = MD5STEP F1 b c d a (w 7 + 0xfd469501) 22;
        a = MD5STEP F1 a b c d (w 8 + 0x698098d8) 7;
        d = MD5STEP F1 d a b c (w 9 + 0x8b44f7af) 12;
        c = MD5STEP F1 c d a b (w 10 + 0xffff5bb1) 17;
        b = MD5STEP F1 b c d a (w 11 + 0x895cd7be) 22;
        a = MD5STEP F1 a b c d (w 12 + 0x6b901122) 7;
        d = MD5STEP F1 d a b c (w 13 + 0xfd987193) 12;
        c = MD5STEP F1 c d a b (w 14 + 0xa679438e) 17;
        b = MD5STEP F1 b c d a (w 15 + 0x49b40821) 22
    in (a, b, c, d))"

definition MD5Transform_2 :: "(nat \<Rightarrow> u32) \<Rightarrow> md5_words \<Rightarrow> md5_words" where
  "MD5Transform_2 w = (\<lambda>(a, b, c, d).
    let
        a = MD5STEP F2 a b c d (w 1 + 0xf61e2562) 5;
        d = MD5STEP F2 d a b c (w 6 + 0xc040b340) 9;
        c = MD5STEP F2 c d a b (w 11 + 0x265e5a51) 14;
        b = MD5STEP F2 b c d a (w 0 + 0xe9b6c7aa) 20;
        a = MD5STEP F2 a b c d (w 5 + 0xd62f105d) 5;
        d = MD5STEP F2 d a b c (w 10 + 0x02441453) 9;
        c = MD5STEP F2 c d a b (w 15 + 0xd8a1e681) 14;
        b = MD5STEP F2 b c d a (w 4 + 0xe7d3fbc8) 20;
        a = MD5STEP F2 a b c d (w 9 + 0x21e1cde6) 5;
        d = MD5STEP F2 d a b c (w 14 + 0xc33707d6) 9;
        c = MD5STEP F2 c d a b (w 3 + 0xf4d50d87) 14;
        b = MD5STEP F2 b c d a (w 8 + 0x455a14ed) 20;
        a = MD5STEP F2 a b c d (w 13 + 0xa9e3e905) 5;
        d = MD5STEP F2 d a b c (w 2 + 0xfcefa3f8) 9;
        c = MD5STEP F2 c d a b (w 7 + 0x676f02d9) 14;
        b = MD5STEP F2 b c d a (w 12 + 0x8d2a4c8a) 20
    in (a, b, c, d))"

definition MD5Transform_3 :: "(nat \<Rightarrow> u32) \<Rightarrow> md5_words \<Rightarrow> md5_words" where
  "MD5Transform_3 w = (\<lambda>(a, b, c, d).
    let
        a = MD5STEP F3 a b c d (w 5 + 0xfffa3942) 4;
        d = MD5STEP F3 d a b c (w 8 + 0x8771f681) 11;
        c = MD5STEP F3 c d a b (w 11 + 0x6d9d6122) 16;
        b = MD5STEP F3 b c d a (w 14 + 0xfde5380c) 23;
        a = MD5STEP F3 a b c d (w 1 + 0xa4beea44) 4;
        d = MD5STEP F3 d a b c (w 4 + 0x4bdecfa9) 11;
        c = MD5STEP F3 c d a b (w 7 + 0xf6bb4b60) 16;
        b = MD5STEP F3 b c d a (w 10 + 0xbebfbc70) 23;
        a = MD5STEP F3 a b c d (w 13 + 0x289b7ec6) 4;
        d = MD5STEP F3 d a b c (w 0 + 0xeaa127fa) 11;
        c = MD5STEP F3 c d a b (w 3 + 0xd4ef3085) 16;
        b = MD5STEP F3 b c d a (w 6 + 0x04881d05) 23;
        a = MD5STEP F3 a b c d (w 9 + 0xd9d4d039) 4;
        d = MD5STEP F3 d a b c (w 12 + 0xe6db99e5) 11;
        c = MD5STEP F3 c d a b (w 15 + 0x1fa27cf8) 16;
        b = MD5STEP F3 b c d a (w 2 + 0xc4ac5665) 23
    in (a, b, c, d))"

definition MD5Transform_4 :: "(nat \<Rightarrow> u32) \<Rightarrow> md5_words \<Rightarrow> md5_words" where
  "MD5Transform_4 w = (\<lambda>(a, b, c, d).
    let
        a = MD5STEP F4 a b c d (w 0 + 0xf4292244) 6;
        d = MD5STEP F4 d a b c (w 7 + 0x432aff97) 10;
        c = MD5STEP F4 c d a b (w 14 + 0xab9423a7) 15;
        b = MD5STEP F4 b c d a (w 5 + 0xfc93a039) 21;
        a = MD5STEP F4 a b c d (w 12 + 0x655b59c3) 6;
        d = MD5STEP F4 d a b c (w 3 + 0x8f0ccc92) 10;
        c = MD5STEP F4 c d a b (w 10 + 0xffeff47d) 15;
        b = MD5STEP F4 b c d a (w 1 + 0x85845dd1) 21;
        a = MD5STEP F4 a b c d (w 8 + 0x6fa87e4f) 6;
        d = MD5STEP F4 d a b c (w 15 + 0xfe2ce6e0) 10;
        c = MD5STEP F4 c d a b (w 6 + 0xa3014314) 15;
        b = MD5STEP F4 b c d a (w 13 + 0x4e0811a1) 21;
        a = MD5STEP F4 a b c d (w 4 + 0xf7537e82) 6;
        d = MD5STEP F4 d a b c (w 11 + 0xbd3af235) 10;
        c = MD5STEP F4 c d a b (w 2 + 0x2ad7d2bb) 15;
        b = MD5STEP F4 b c d a (w 9 + 0xeb86d391) 21
    in (a, b, c, d))"

definition MD5Transform :: "md5_words \<Rightarrow> byte list \<Rightarrow> md5_words" where
  "MD5Transform buf data =
    (let w = (\<lambda>i. rd32 data (4 * i));
         (a, b, c, d) = MD5Transform_4 w (MD5Transform_3 w (MD5Transform_2 w (MD5Transform_1 w buf)))
     in case buf of (b0, b1, b2, b3) \<Rightarrow> (b0 + a, b1 + b, b2 + c, b3 + d))"

text \<open>The two lines that follow every full block.\<close>

definition md5_block :: "MD5Context \<Rightarrow> MD5Context option" where
  "md5_block ctx = do {
     p \<leftarrow> byteReverse (md5_in ctx) 16;
     Some (ctx\<lparr>md5_in := p, md5_buf := MD5Transform (md5_buf ctx) p\<rparr>)
   }"

text \<open>\<^verbatim>\<open>MD5Update\<close>: the loop over whole blocks with the copy of the rest, then the function.\<close>

function MD5Update_blocks :: "byte list \<Rightarrow> nat \<Rightarrow> nat \<Rightarrow> MD5Context \<Rightarrow> MD5Context option" where
  "MD5Update_blocks buf i len ctx =
    (if 64 \<le> len then do {
       x \<leftarrow> bytes_at buf i 64;
       p \<leftarrow> memcpy_at 0 x (md5_in ctx);
       ctx \<leftarrow> md5_block (ctx\<lparr>md5_in := p\<rparr>);
       MD5Update_blocks buf (i + 64) (len - 64) ctx
     }
     else do {
       x \<leftarrow> bytes_at buf i len;
       p \<leftarrow> memcpy_at 0 x (md5_in ctx);
       Some (ctx\<lparr>md5_in := p\<rparr>)
     })"
  by pat_completeness auto
termination
  by (relation "measure (\<lambda>(buf, i, len, ctx). len)") auto

definition MD5Update :: "byte list \<Rightarrow> u32 \<Rightarrow> MD5Context \<Rightarrow> MD5Context option" where
  "MD5Update buf len ctx =
    (let t = md5_bits0 ctx;
         b0 = t + push_bit 3 len;
         b1 = (if b0 < t then md5_bits1 ctx + 1 else md5_bits1 ctx) + drop_bit 29 len;
         ctx = ctx\<lparr>md5_bits0 := b0, md5_bits1 := b1\<rparr>;
         t = unat (drop_bit 3 t AND 0x3f);
         len = unat len
     in if t \<noteq> 0 then
          let p = t; t = 64 - t
          in if len < t then do {
               x \<leftarrow> bytes_at buf 0 len;
               p \<leftarrow> memcpy_at p x (md5_in ctx);
               Some (ctx\<lparr>md5_in := p\<rparr>)
             }
             else do {
               x \<leftarrow> bytes_at buf 0 t;
               p \<leftarrow> memcpy_at p x (md5_in ctx);
               ctx \<leftarrow> md5_block (ctx\<lparr>md5_in := p\<rparr>);
               MD5Update_blocks buf t (len - t) ctx
             }
        else MD5Update_blocks buf 0 len ctx)"

text \<open>\<^verbatim>\<open>MD5Final\<close>: the last block, after which the context is wiped, and the function.\<close>

definition MD5Final_last :: "MD5Context \<Rightarrow> (MD5Context \<times> byte list) option" where
  "MD5Final_last ctx = do {
     p \<leftarrow> byteReverse (md5_in ctx) 14;
     p \<leftarrow> memcpy_at 56 (le32 (md5_bits0 ctx)) p;
     p \<leftarrow> memcpy_at 60 (le32 (md5_bits1 ctx)) p;
     let (a, b, c, d) = MD5Transform (md5_buf ctx) p;
     digest \<leftarrow> byteReverse (le32 a @ le32 b @ le32 c @ le32 d) 4;
     Some (\<lparr>md5_buf = (0, 0, 0, 0), md5_bits0 = 0, md5_bits1 = 0, md5_in = replicate 64 0\<rparr>, digest)
   }"

definition MD5Final :: "MD5Context \<Rightarrow> (MD5Context \<times> byte list) option" where
  "MD5Final ctx =
    (let count = unat (drop_bit 3 (md5_bits0 ctx) AND 0x3F) in do {
       p \<leftarrow> memcpy_at count [0x80] (md5_in ctx);
       let i = count + 1;
       let count = 64 - 1 - count;
       ctx \<leftarrow> (if count < 8 then do {
           p \<leftarrow> memcpy_at i (replicate count 0) p;
           ctx \<leftarrow> md5_block (ctx\<lparr>md5_in := p\<rparr>);
           p \<leftarrow> memcpy_at 0 (replicate 56 0) (md5_in ctx);
           Some (ctx\<lparr>md5_in := p\<rparr>)
         }
         else do {
           p \<leftarrow> memcpy_at i (replicate (count - 8) 0) p;
           Some (ctx\<lparr>md5_in := p\<rparr>)
         });
       MD5Final_last ctx
     })"

definition md5 :: "MD5Context \<Rightarrow> byte list \<Rightarrow> int \<Rightarrow> byte list option" where
  "md5 ctx input len = do {
     ctx \<leftarrow> MD5Update input (word_of_int len) (MD5Init ctx);
     (ctx, output) \<leftarrow> MD5Final ctx;
     Some output
   }"

text \<open>Without \<^verbatim>\<open>CONFIG_WATCHDOG\<close> the chunk size plays no role.\<close>

definition md5_wd :: "MD5Context \<Rightarrow> byte list \<Rightarrow> int \<Rightarrow> u32 \<Rightarrow> byte list option" where
  "md5_wd ctx input len chunk_sz = do {
     ctx \<leftarrow> MD5Update input (word_of_int len) (MD5Init ctx);
     (ctx, output) \<leftarrow> MD5Final ctx;
     Some output
   }"

section \<open>The standard\<close>

text \<open>RFC 1321: the constants, the order of the words, the shifts, the auxiliary functions and one operation. The
  operation \<open>j\<close> (from 0) computes \<open>a = b + ((a + F (b, c, d) + X[k] + T[j + 1]) <<< s)\<close>, and the next one
  uses the four words shifted by one place.\<close>

definition rfc_T :: "nat \<Rightarrow> u32" where
  "rfc_T i = word_of_int \<lfloor>2 ^ 32 * \<bar>sin (real i)\<bar>\<rfloor>"

definition rfc_k :: "nat \<Rightarrow> nat" where
  "rfc_k j =
    (if j < 16 then j
     else if j < 32 then (1 + 5 * (j - 16)) mod 16
     else if j < 48 then (5 + 3 * (j - 32)) mod 16
     else (7 * (j - 48)) mod 16)"

definition rfc_s :: "nat \<Rightarrow> nat" where
  "rfc_s j = [[7, 12, 17, 22], [5, 9, 14, 20], [4, 11, 16, 23], [6, 10, 15, 21]] ! (j div 16) ! (j mod 4)"

definition rfc_F :: "nat \<Rightarrow> u32 \<Rightarrow> u32 \<Rightarrow> u32 \<Rightarrow> u32" where
  "rfc_F r x y z =
    (if r = 0 then (x AND y) OR (NOT x AND z)
     else if r = 1 then (x AND z) OR (y AND NOT z)
     else if r = 2 then x XOR y XOR z
     else y XOR (x OR NOT z))"

definition rfc_X :: "byte list \<Rightarrow> nat \<Rightarrow> u32" where
  "rfc_X b k = of_nat (\<Sum>j<4. unat (rd b (4 * k + j)) * 256 ^ j)"

definition rfc_step :: "byte list \<Rightarrow> nat \<Rightarrow> md5_words \<Rightarrow> md5_words" where
  "rfc_step m j = (\<lambda>(a, b, c, d).
    (d, b + word_rotl (rfc_s j) (a + rfc_F (j div 16) b c d + rfc_X m (rfc_k j) + rfc_T (Suc j)), b, c))"

definition rfc_compress :: "md5_words \<Rightarrow> byte list \<Rightarrow> md5_words" where
  "rfc_compress h m = (case h of (h0, h1, h2, h3) \<Rightarrow>
    case fold (rfc_step m) [0..<64] h of (a, b, c, d) \<Rightarrow> (h0 + a, h1 + b, h2 + c, h3 + d))"

text \<open>A number as \<open>n\<close> bytes, the least significant first; the padded message; the digest.\<close>

primrec le_bytes :: "nat \<Rightarrow> nat \<Rightarrow> byte list" where
  "le_bytes 0 v = []"
| "le_bytes (Suc n) v = of_nat v # le_bytes n (v div 256)"

definition rfc_pad :: "byte list \<Rightarrow> byte list" where
  "rfc_pad m = 0x80 # replicate ((119 - length m mod 64) mod 64) 0 @ le_bytes 8 (8 * length m)"

definition rfc_init :: md5_words where
  "rfc_init = (0x67452301, 0xefcdab89, 0x98badcfe, 0x10325476)"

definition rfc_md5 :: "byte list \<Rightarrow> byte list" where
  "rfc_md5 m = (case fst (absorb rfc_compress rfc_init (m @ rfc_pad m)) of (a, b, c, d) \<Rightarrow>
     concat (map (\<lambda>w. le_bytes 4 (unat w)) [a, b, c, d]))"

section \<open>The transformation\<close>

text \<open>One operation as \<^verbatim>\<open>MD5STEP\<close> with its word, its constant and its shift.\<close>

definition step_row :: "(u32 \<Rightarrow> u32 \<Rightarrow> u32 \<Rightarrow> u32) \<Rightarrow> (nat \<Rightarrow> u32) \<Rightarrow> nat \<times> u32 \<times> nat \<Rightarrow> md5_words \<Rightarrow> md5_words" where
  "step_row f w = (\<lambda>(k, t, s) (a, b, c, d). (d, MD5STEP f a b c d (w k + t) s, b, c))"

lemma fold_step_row:
  "fold (step_row f w) ((k, t, s) # rows) (a, b, c, d) =
    (let v = MD5STEP f a b c d (w k + t) s in fold (step_row f w) rows (d, v, b, c))"
  "fold (step_row f w) [] h = h"
  by (simp_all add: step_row_def)

lemma MD5Transform_1_rows:
  "MD5Transform_1 w h = fold (step_row F1 w)
     [(0, 0xd76aa478, 7), (1, 0xe8c7b756, 12), (2, 0x242070db, 17), (3, 0xc1bdceee, 22), 
      (4, 0xf57c0faf, 7), (5, 0x4787c62a, 12), (6, 0xa8304613, 17), (7, 0xfd469501, 22), 
      (8, 0x698098d8, 7), (9, 0x8b44f7af, 12), (10, 0xffff5bb1, 17), (11, 0x895cd7be, 22), 
      (12, 0x6b901122, 7), (13, 0xfd987193, 12), (14, 0xa679438e, 17), (15, 0x49b40821, 22)] h"
  by (cases h) (simp only: MD5Transform_1_def prod.case fold_step_row)

lemma MD5Transform_2_rows:
  "MD5Transform_2 w h = fold (step_row F2 w)
     [(1, 0xf61e2562, 5), (6, 0xc040b340, 9), (11, 0x265e5a51, 14), (0, 0xe9b6c7aa, 20), 
      (5, 0xd62f105d, 5), (10, 0x02441453, 9), (15, 0xd8a1e681, 14), (4, 0xe7d3fbc8, 20), 
      (9, 0x21e1cde6, 5), (14, 0xc33707d6, 9), (3, 0xf4d50d87, 14), (8, 0x455a14ed, 20), 
      (13, 0xa9e3e905, 5), (2, 0xfcefa3f8, 9), (7, 0x676f02d9, 14), (12, 0x8d2a4c8a, 20)] h"
  by (cases h) (simp only: MD5Transform_2_def prod.case fold_step_row)

lemma MD5Transform_3_rows:
  "MD5Transform_3 w h = fold (step_row F3 w)
     [(5, 0xfffa3942, 4), (8, 0x8771f681, 11), (11, 0x6d9d6122, 16), (14, 0xfde5380c, 23), 
      (1, 0xa4beea44, 4), (4, 0x4bdecfa9, 11), (7, 0xf6bb4b60, 16), (10, 0xbebfbc70, 23), 
      (13, 0x289b7ec6, 4), (0, 0xeaa127fa, 11), (3, 0xd4ef3085, 16), (6, 0x04881d05, 23), 
      (9, 0xd9d4d039, 4), (12, 0xe6db99e5, 11), (15, 0x1fa27cf8, 16), (2, 0xc4ac5665, 23)] h"
  by (cases h) (simp only: MD5Transform_3_def prod.case fold_step_row)

lemma MD5Transform_4_rows:
  "MD5Transform_4 w h = fold (step_row F4 w)
     [(0, 0xf4292244, 6), (7, 0x432aff97, 10), (14, 0xab9423a7, 15), (5, 0xfc93a039, 21), 
      (12, 0x655b59c3, 6), (3, 0x8f0ccc92, 10), (10, 0xffeff47d, 15), (1, 0x85845dd1, 21), 
      (8, 0x6fa87e4f, 6), (15, 0xfe2ce6e0, 10), (6, 0xa3014314, 15), (13, 0x4e0811a1, 21), 
      (4, 0xf7537e82, 6), (11, 0xbd3af235, 10), (2, 0x2ad7d2bb, 15), (9, 0xeb86d391, 21)] h"
  by (cases h) (simp only: MD5Transform_4_def prod.case fold_step_row)

definition rfc_row :: "nat \<Rightarrow> nat \<times> u32 \<times> nat" where
  "rfc_row j = (rfc_k j, rfc_T (Suc j), rfc_s j)"

lemma rfc_row_table: "j < 64 \<Longrightarrow> rfc_row j = (rfc_k j, word_of_int (md5_table ! j), rfc_s j)"
  by (simp only: rfc_row_def rfc_T_def md5_table_sine)

lemma rfc_rows_1:
  "map rfc_row [0..<16] =
     [(0, 0xd76aa478, 7), (1, 0xe8c7b756, 12), (2, 0x242070db, 17), (3, 0xc1bdceee, 22), 
      (4, 0xf57c0faf, 7), (5, 0x4787c62a, 12), (6, 0xa8304613, 17), (7, 0xfd469501, 22), 
      (8, 0x698098d8, 7), (9, 0x8b44f7af, 12), (10, 0xffff5bb1, 17), (11, 0x895cd7be, 22), 
      (12, 0x6b901122, 7), (13, 0xfd987193, 12), (14, 0xa679438e, 17), (15, 0x49b40821, 22)]"
  by (simp add: rfc_row_table rfc_k_def rfc_s_def md5_table_def upt_rec)

lemma rfc_rows_2:
  "map rfc_row [16..<32] =
     [(1, 0xf61e2562, 5), (6, 0xc040b340, 9), (11, 0x265e5a51, 14), (0, 0xe9b6c7aa, 20), 
      (5, 0xd62f105d, 5), (10, 0x02441453, 9), (15, 0xd8a1e681, 14), (4, 0xe7d3fbc8, 20), 
      (9, 0x21e1cde6, 5), (14, 0xc33707d6, 9), (3, 0xf4d50d87, 14), (8, 0x455a14ed, 20), 
      (13, 0xa9e3e905, 5), (2, 0xfcefa3f8, 9), (7, 0x676f02d9, 14), (12, 0x8d2a4c8a, 20)]"
  by (simp add: rfc_row_table rfc_k_def rfc_s_def md5_table_def upt_rec)

lemma rfc_rows_3:
  "map rfc_row [32..<48] =
     [(5, 0xfffa3942, 4), (8, 0x8771f681, 11), (11, 0x6d9d6122, 16), (14, 0xfde5380c, 23), 
      (1, 0xa4beea44, 4), (4, 0x4bdecfa9, 11), (7, 0xf6bb4b60, 16), (10, 0xbebfbc70, 23), 
      (13, 0x289b7ec6, 4), (0, 0xeaa127fa, 11), (3, 0xd4ef3085, 16), (6, 0x04881d05, 23), 
      (9, 0xd9d4d039, 4), (12, 0xe6db99e5, 11), (15, 0x1fa27cf8, 16), (2, 0xc4ac5665, 23)]"
  by (simp add: rfc_row_table rfc_k_def rfc_s_def md5_table_def upt_rec)

lemma rfc_rows_4:
  "map rfc_row [48..<64] =
     [(0, 0xf4292244, 6), (7, 0x432aff97, 10), (14, 0xab9423a7, 15), (5, 0xfc93a039, 21), 
      (12, 0x655b59c3, 6), (3, 0x8f0ccc92, 10), (10, 0xffeff47d, 15), (1, 0x85845dd1, 21), 
      (8, 0x6fa87e4f, 6), (15, 0xfe2ce6e0, 10), (6, 0xa3014314, 15), (13, 0x4e0811a1, 21), 
      (4, 0xf7537e82, 6), (11, 0xbd3af235, 10), (2, 0x2ad7d2bb, 15), (9, 0xeb86d391, 21)]"
  by (simp add: rfc_row_table rfc_k_def rfc_s_def md5_table_def upt_rec)


lemma F_rfc: "F1 = rfc_F 0" "F2 = rfc_F 1" "F3 = rfc_F 2" "F4 = rfc_F 3"
  by (auto simp: fun_eq_iff F1_def F2_def F3_def F4_def rfc_F_def intro!: bit_word_eqI simp: bit_simps)

lemma rfc_s_bounds:
  assumes "j < 64"
  shows "0 < rfc_s j \<and> rfc_s j < 32"
proof -
  have "list_all (\<lambda>j. 0 < rfc_s j \<and> rfc_s j < 32) [0..<64]"
    by code_simp
  then show ?thesis using assms by (simp add: list_all_iff)
qed

lemma rfc_step_row: "j < 64 \<Longrightarrow> rfc_step m j = step_row (rfc_F (j div 16)) (rfc_X m) (rfc_row j)"
  using rfc_s_bounds [of j]
  by (auto simp: fun_eq_iff rfc_step_def step_row_def rfc_row_def MD5STEP_def Let_def rotl_shifts ac_simps)

lemma rfc_round:
  assumes "r < 4"
  shows "fold (rfc_step m) [16 * r..<16 * r + 16] h = fold (step_row (rfc_F r) (rfc_X m)) (map rfc_row [16 * r..<16 * r + 16]) h"
proof -
  have "fold (rfc_step m) js h = fold (step_row (rfc_F r) (rfc_X m)) (map rfc_row js) h" if "\<forall>j\<in>set js. j div 16 = r" for js h
    using that
  proof (induction js arbitrary: h)
    case (Cons j js)
    then have "j < 64" using assms by auto
    then show ?case using Cons rfc_step_row [of j m] by simp
  qed simp
  moreover have "\<forall>j\<in>set [16 * r..<16 * r + 16]. j div 16 = r" by auto
  ultimately show ?thesis by blast
qed

lemma MD5Transform_rounds:
  "MD5Transform_1 (rfc_X m) h = fold (rfc_step m) [0..<16] h"
  "MD5Transform_2 (rfc_X m) h = fold (rfc_step m) [16..<32] h"
  "MD5Transform_3 (rfc_X m) h = fold (rfc_step m) [32..<48] h"
  "MD5Transform_4 (rfc_X m) h = fold (rfc_step m) [48..<64] h"
  using rfc_round [of 0 m h] rfc_round [of 1 m h] rfc_round [of 2 m h] rfc_round [of 3 m h]
  by (simp_all add: F_rfc MD5Transform_1_rows MD5Transform_2_rows MD5Transform_3_rows MD5Transform_4_rows
    rfc_rows_1 rfc_rows_2 rfc_rows_3 rfc_rows_4 del: upt_rec_numeral fold_simps)


lemma rd32_rfc_X: "rd32 m (4 * k) = rfc_X m k"
proof -
  have "(\<Sum>j<4. unat (rd m (4 * k + j)) * 256 ^ j) =
      unat (rd m (4 * k)) + unat (rd m (4 * k + 1)) * 256 + unat (rd m (4 * k + 2)) * 256 ^ 2 + unat (rd m (4 * k + 3)) * 256 ^ 3"
    by (simp add: sum_4)
  then show ?thesis
    by (simp only: rd32_def rd32_bytes rfc_X_def)
qed

lemma MD5Transform_rfc: "MD5Transform h m = rfc_compress h m"
proof -
  have "[0..<64] = [0..<16] @ [16..<32] @ [32..<48] @ [48..<64]"
    using upt_add_eq_append [of 0 16 48] upt_add_eq_append [of 16 32 32] upt_add_eq_append [of 32 48 16]
    by (simp add: upt_add_eq_append [of 0 16 48, simplified] upt_add_eq_append [of 16 32 32, simplified]
      upt_add_eq_append [of 32 48 16, simplified] del: upt_rec_numeral)
  then have "fold (rfc_step m) [0..<64] h = MD5Transform_4 (rfc_X m) (MD5Transform_3 (rfc_X m)
      (MD5Transform_2 (rfc_X m) (MD5Transform_1 (rfc_X m) h)))"
    by (simp only: MD5Transform_rounds fold_append comp_apply)
  then show ?thesis
    by (cases h; cases "fold (rfc_step m) [0..<64] h") (simp add: MD5Transform_def rfc_compress_def rd32_rfc_X)
qed

section \<open>The context\<close>

lemma byteReverse_at_id: "i + 4 * n \<le> length p \<Longrightarrow> byteReverse_at p i n = Some p"
proof (induction n arbitrary: i)
  case (Suc n)
  have "push_bit 16 (push_bit 8 (ucast (rd p (i + 3))) OR ucast (rd p (i + 2))) OR
      (push_bit 8 (ucast (rd p (i + 1))) OR ucast (rd p i)) = rd32 p i"
    by (simp add: rd32_def push_bit_or ac_simps)
  moreover have "patch i (le32 (rd32 p i)) p = p"
    using Suc.prems rd32_le32_take [of i p] by (simp add: patch_def) (metis add.commute append_take_drop_id drop_drop)
  ultimately show ?case
    using Suc.IH [of "i + 4"] Suc.prems by (simp add: memcpy_at_def)
qed simp

lemma byteReverse_id: "4 * n \<le> length p \<Longrightarrow> byteReverse p n = Some p"
  by (simp add: byteReverse_def byteReverse_at_id)

lemma md5_block_rfc:
  "length (md5_in ctx) = 64 \<Longrightarrow> md5_block ctx = Some (ctx\<lparr>md5_buf := rfc_compress (md5_buf ctx) (md5_in ctx)\<rparr>)"
  by (simp add: md5_block_def byteReverse_id MD5Transform_rfc)

definition md5_fed :: "byte list \<Rightarrow> MD5Context \<Rightarrow> bool" where
  "md5_fed m ctx \<longleftrightarrow>
    md5_bits0 ctx = of_nat (8 * length m) \<and> md5_bits1 ctx = of_nat ((8 * length m) div 2 ^ 32) \<and>
    length (md5_in ctx) = 64 \<and> md5_buf ctx = fst (absorb rfc_compress rfc_init m) \<and>
    take (length m mod 64) (md5_in ctx) = snd (absorb rfc_compress rfc_init m)"

lemma md5_fed_init: "length (md5_in ctx) = 64 \<Longrightarrow> md5_fed [] (MD5Init ctx)"
  by (simp add: md5_fed_def MD5Init_def rfc_init_def)

declare MD5Update_blocks.simps [simp del]

lemma MD5Update_blocks_absorb:
  assumes "i + n \<le> length buf" "length (md5_in ctx) = 64"
  shows "\<exists>p. length p = 64 \<and>
    MD5Update_blocks buf i n ctx =
      Some (ctx\<lparr>md5_buf := fst (absorb rfc_compress (md5_buf ctx) (take n (drop i buf))), md5_in := p\<rparr>) \<and>
    take (n mod 64) p = snd (absorb rfc_compress (md5_buf ctx) (take n (drop i buf)))"
  using assms
proof (induction buf i n ctx rule: MD5Update_blocks.induct)
  case (1 buf i n ctx)
  show ?case
  proof (cases "64 \<le> n")
    case True
    let ?b = "take 64 (drop i buf)" and ?c = "ctx\<lparr>md5_in := take 64 (drop i buf), md5_buf := rfc_compress (md5_buf ctx) (take 64 (drop i buf))\<rparr>"
    have b: "length ?b = 64" using 1 True by simp
    have p: "patch 0 ?b (md5_in ctx) = ?b" using b 1 by (simp add: patch_def)
    have "take n (drop i buf) = ?b @ take (n - 64) (drop (i + 64) buf)"
      using True by (metis add.commute drop_drop le_add_diff_inverse take_add)
    then have a: "absorb rfc_compress s (take n (drop i buf)) =
        absorb rfc_compress (rfc_compress s ?b) (take (n - 64) (drop (i + 64) buf))" for s
      using absorb_block [OF b] by simp
    have m: "(n - 64) mod 64 = n mod 64" using True by (simp add: le_mod_geq)
    have "MD5Update_blocks buf i n ctx = MD5Update_blocks buf (i + 64) (n - 64) ?c"
      using 1 True b p by (simp add: MD5Update_blocks.simps [of buf i n] memcpy_at_def md5_block_rfc)
    then show ?thesis
      using "1.IH" [OF True, of ?b ?b ?c] "1.prems" True b a p
      by (simp add: m memcpy_at_def md5_block_rfc)
  next
    case False
    then have "MD5Update_blocks buf i n ctx = Some (ctx\<lparr>md5_in := patch 0 (take n (drop i buf)) (md5_in ctx)\<rparr>)"
      using 1 by (subst MD5Update_blocks.simps) (auto simp: memcpy_at_def)
    then show ?thesis
      using 1 False by (auto simp: patch_def intro!: exI [of _ "patch 0 (take n (drop i buf)) (md5_in ctx)"])
  qed
qed

lemma bits_carry:
  assumes "n < 2 ^ 32"
  shows "(if (of_nat (8 * (l + n)) :: u32) < of_nat (8 * l) then of_nat ((8 * l) div 2 ^ 32) + 1 else of_nat ((8 * l) div 2 ^ 32)) +
      drop_bit 29 (of_nat n) = (of_nat ((8 * (l + n)) div 2 ^ 32) :: u32)"
proof -
  define M where "M = (2 ^ 32 :: nat)"
  define q a where "q = 8 * l div M" and "a = 8 * l mod M"
  define q' a' where "q' = 8 * n div M" and "a' = 8 * n mod M"
  have l: "8 * l = q * M + a" and n: "8 * n = q' * M + a'" and a: "a < M" "a' < M"
    unfolding q_def a_def q'_def a'_def div_mult_mod_eq by (simp_all add: M_def)
  have sum: "8 * (l + n) = (q + q') * M + (a + a')"
    using l n by (simp add: algebra_simps)
  have "(of_nat (8 * (l + n)) :: u32) < of_nat (8 * l) \<longleftrightarrow> (8 * (l + n)) mod M < (8 * l) mod M"
    by (simp only: word_less_nat_alt unsigned_of_nat take_bit_eq_mod M_def len_num1 len_bit0 len_of_numeral_defs) simp
  also have "\<dots> \<longleftrightarrow> M \<le> a + a'"
    using a unfolding sum by (auto simp: a_def [symmetric] mod_if [of "a + a'"])
  finally have lt: "(of_nat (8 * (l + n)) :: u32) < of_nat (8 * l) \<longleftrightarrow> M \<le> a + a'" .
  have "(8 * (l + n)) div M = (if M \<le> a + a' then q + q' + 1 else q + q')"
    using a unfolding sum by (auto simp: le_div_geq)
  moreover have "drop_bit 29 (of_nat n :: u32) = of_nat q'"
  proof -
    have "drop_bit 29 (of_nat n :: u32) = of_nat (drop_bit 29 n)"
    proof (rule bit_word_eqI)
      fix k
      assume "k < LENGTH(32)"
      moreover have "29 + k < 32" if "bit n (29 + k)"
        using that assms by (metis bit_take_bit_iff take_bit_nat_eq_self_iff)
      ultimately show "bit (drop_bit 29 (of_nat n :: u32)) k = bit (of_nat (drop_bit 29 n) :: u32) k"
        by (auto simp: bit_simps)
    qed
    then show ?thesis by (simp add: q'_def M_def drop_bit_eq_div)
  qed
  ultimately show ?thesis
    using lt by (simp add: q_def M_def)
qed

lemma bits_used: "unat (drop_bit 3 (of_nat (8 * l) :: u32) AND 0x3F) = l mod 64"
proof -
  have "unat (of_nat (8 * l) :: u32) = (8 * l) mod 2 ^ 32"
    by (simp only: unsigned_of_nat take_bit_eq_mod len_num1 len_bit0 len_of_numeral_defs) simp
  then have "unat (drop_bit 3 (of_nat (8 * l) :: u32)) = (8 * l) mod 2 ^ 32 div 8"
    by (simp add: drop_bit_eq_div unat_div)
  also have "\<dots> = l mod 2 ^ 29"
    by (simp add: mult_mod_right [of 8 l "2 ^ 29", simplified, symmetric])
  finally show ?thesis
    by (simp add: and_3F mod_mod_cancel)
qed

lemma MD5Update_fed:
  assumes fed: "md5_fed m ctx" and n: "n < 2 ^ 32" "n \<le> length buf"
  shows "\<exists>ctx'. MD5Update buf (of_nat n) ctx = Some ctx' \<and> md5_fed (m @ take n buf) ctx'"
proof -
  define left s r where "left = length m mod 64" and "s = md5_buf ctx" and "r = take left (md5_in ctx)"
  have sr: "absorb rfc_compress rfc_init m = (s, r)"
    using fed by (simp add: md5_fed_def s_def r_def left_def prod_eq_iff)
  have len: "length (md5_in ctx) = 64" "left < 64" using fed by (simp_all add: md5_fed_def left_def)
  then have r: "length r = left" by (simp add: r_def)
  have app: "absorb rfc_compress rfc_init (m @ x) = absorb rfc_compress s (r @ x)" for x
    by (subst absorb_append) (simp add: sr)
  let ?c = "ctx\<lparr>md5_bits0 := of_nat (8 * (length m + n)), md5_bits1 := of_nat ((8 * (length m + n)) div 2 ^ 32)\<rparr>"
  have bits: "md5_bits0 ctx = of_nat (8 * length m)" "md5_bits1 ctx = of_nat ((8 * length m) div 2 ^ 32)"
    using fed by (simp_all add: md5_fed_def)
  have b0: "(of_nat (8 * length m) :: u32) + push_bit 3 (of_nat n) = of_nat (8 * (length m + n))"
    by (simp add: push_bit_eq_mult)
  have un: "unat (of_nat n :: u32) = n" using n by (simp add: unsigned_of_nat take_bit_nat_eq_self)
  have mod64: "(length m + n) mod 64 = (left + n) mod 64" by (simp add: left_def mod_add_left_eq)
  note up = MD5Update_def [of buf "of_nat n" ctx, unfolded bits b0 bits_carry [OF n(1)] bits_used un left_def [symmetric] Let_def]
  consider "left = 0" | "left \<noteq> 0" "n < 64 - left" | "left \<noteq> 0" "64 - left \<le> n" by linarith
  then show ?thesis
  proof cases
    case 1
    then have "MD5Update buf (of_nat n) ctx = MD5Update_blocks buf 0 n ?c" by (simp only: up) simp
    then show ?thesis
      using MD5Update_blocks_absorb [of 0 n buf ?c] n len 1 r
      by (auto simp: md5_fed_def mod64 app min_absorb2 s_def)
  next
    case 2
    let ?p = "patch left (take n buf) (md5_in ctx)"
    have "MD5Update buf (of_nat n) ctx = Some (?c\<lparr>md5_in := ?p\<rparr>)"
      using 2 n len by (simp only: up) (simp add: memcpy_at_def)
    moreover have "take (left + n) ?p = r @ take n buf"
      using take_patch_eq [of left "md5_in ctx" "take n buf"] n len by (simp add: r_def)
    ultimately show ?thesis
      using 2 n len r by (auto simp: md5_fed_def mod64 app min_absorb2 s_def)
  next
    case 3
    let ?f = "64 - left" and ?b = "r @ take (64 - left) buf"
    let ?d = "?c\<lparr>md5_in := ?b, md5_buf := rfc_compress s ?b\<rparr>"
    have b: "length ?b = 64" using r len 3 n by simp
    have "patch left (take ?f buf) (md5_in ctx) = ?b"
      using len 3 n by (simp add: patch_def r_def)
    then have "MD5Update buf (of_nat n) ctx = MD5Update_blocks buf ?f (n - ?f) ?d"
      using 3 n len b by (simp only: up) (simp add: memcpy_at_def md5_block_rfc s_def)
    moreover have "take n buf = take ?f buf @ take (n - ?f) (drop ?f buf)"
      using 3 by (metis le_add_diff_inverse take_add)
    then have "absorb rfc_compress rfc_init (m @ take n buf) =
        absorb rfc_compress (rfc_compress s ?b) (take (n - ?f) (drop ?f buf))"
      using absorb_block [OF b] by (simp add: app)
    moreover have "(left + n) mod 64 = (n - ?f) mod 64"
    proof -
      have "left + n = (n - ?f) + 64" using 3 len(2) by linarith
      then show ?thesis by (simp only: mod_add_self2)
    qed
    ultimately show ?thesis
      using MD5Update_blocks_absorb [of ?f "n - ?f" buf ?d] 3 n b
      by (auto simp: md5_fed_def mod64 min_absorb2)
  qed
qed

lemma le32_of_nat: "le32 (of_nat v) = le_bytes 4 v"
proof -
  have b: "(ucast (drop_bit k (of_nat v :: u32)) :: byte) = of_nat (drop_bit k v)" if "k \<le> 24" for k
    using that by (intro bit_word_eqI) (auto simp: bit_simps)
  have d: "drop_bit 24 v = v div 256 div 256 div 256" "drop_bit 16 v = v div 256 div 256" "drop_bit 8 v = v div 256"
    by (simp_all add: drop_bit_eq_div div_mult2_eq [symmetric])
  have "(4::nat) = Suc (Suc (Suc (Suc 0)))" by simp
  then have "le_bytes 4 v = [of_nat v, of_nat (drop_bit 8 v), of_nat (drop_bit 16 v), of_nat (drop_bit 24 v)]"
    by (simp only: le_bytes.simps d)
  then show ?thesis
    using b [of 24] b [of 16] b [of 8] b [of 0] by (simp add: le32_def)
qed

lemma le_bytes_add: "le_bytes (i + j) v = le_bytes i v @ le_bytes j (v div 256 ^ i)"
  by (induction i arbitrary: v) (simp_all add: div_mult2_eq)

lemma length_le_bytes [simp]: "length (le_bytes n v) = n"
  by (induction n arbitrary: v) simp_all

lemma memcpy_at_append:
  "length a = off \<Longrightarrow> length b \<le> length c \<Longrightarrow> memcpy_at off b (a @ c) = Some (a @ b @ drop (length b) c)"
  by (simp add: memcpy_at_def patch_def)

lemma md5_length: "le32 (of_nat (8 * l)) @ le32 (of_nat (8 * l div 2 ^ 32)) = le_bytes 8 (8 * l)"
  using le_bytes_add [of 4 4 "8 * l"] by (simp add: le32_of_nat del: of_nat_mult)

definition le_digest :: "md5_words \<Rightarrow> byte list" where
  "le_digest = (\<lambda>(a, b, c, d). le32 a @ le32 b @ le32 c @ le32 d)"

lemma MD5Final_last_rfc:
  assumes "md5_in ctx = p @ q" "length p = 56" "length q = 8"
  shows "map_option snd (MD5Final_last ctx) =
    Some (le_digest (rfc_compress (md5_buf ctx) (p @ le32 (md5_bits0 ctx) @ le32 (md5_bits1 ctx))))"
proof -
  have "memcpy_at 56 (le32 b0) (p @ q) = Some ((p @ le32 b0) @ drop 4 q)" for b0
    using assms memcpy_at_append [of p 56 "le32 b0" q] by simp
  moreover have "memcpy_at 60 (le32 b1) ((p @ le32 b0) @ drop 4 q) = Some (p @ le32 b0 @ le32 b1)" for b0 b1
    using assms memcpy_at_append [of "p @ le32 b0" 60 "le32 b1" "drop 4 q"] by simp
  ultimately show ?thesis
    using assms by (simp add: MD5Final_last_def byteReverse_id MD5Transform_rfc le_digest_def split: prod.split)
qed

lemma rfc_md5_digest: "rfc_md5 m = le_digest (fst (absorb rfc_compress rfc_init (m @ rfc_pad m)))"
proof -
  have "le32 w = le_bytes 4 (unat w)" for w
    using le32_of_nat [of "unat w"] by simp
  then show ?thesis by (simp add: rfc_md5_def le_digest_def split: prod.split)
qed

lemma MD5Final_fed:
  assumes fed: "md5_fed m ctx"
  shows "map_option snd (MD5Final ctx) = Some (rfc_md5 m)"
proof -
  define left s r q where "left = length m mod 64" and "s = md5_buf ctx" and "r = take left (md5_in ctx)"
    and "q = drop left (md5_in ctx)"
  have sr: "absorb rfc_compress rfc_init m = (s, r)"
    using fed by (simp add: md5_fed_def s_def r_def left_def prod_eq_iff)
  have "length (md5_in ctx) = 64" and left: "left < 64" using fed by (simp_all add: md5_fed_def left_def)
  then have r: "length r = left" "length q = 64 - left" "md5_in ctx = r @ q" by (simp_all add: r_def q_def)
  have bits: "md5_bits0 ctx = of_nat (8 * length m)" "md5_bits1 ctx = of_nat ((8 * length m) div 2 ^ 32)"
    using fed by (simp_all add: md5_fed_def)
  let ?L = "le32 (md5_bits0 ctx) @ le32 (md5_bits1 ctx)"
  have L: "le_bytes 8 (8 * length m) = ?L" unfolding bits md5_length ..
  have digest: "rfc_md5 m = le_digest (fst (absorb rfc_compress s (r @ 0x80 # replicate ((119 - left) mod 64) 0 @ ?L)))"
    unfolding rfc_md5_digest by (subst absorb_append) (simp add: sr rfc_pad_def L left_def)
  have m1: "memcpy_at left [0x80] (md5_in ctx) = Some ((r @ [0x80]) @ drop 1 q)"
    using memcpy_at_append [of r left "[0x80]" q] r left by simp
  note final = MD5Final_def [of ctx, unfolded bits bits_used left_def [symmetric] Let_def]
  show ?thesis
  proof (cases "left < 56")
    case True
    let ?p = "r @ 0x80 # replicate (55 - left) 0" and ?q = "drop (55 - left) (drop 1 q)"
    have few: "(64 - 1 - left < 8) = False" "64 - 1 - left - 8 = 55 - left" using True by auto
    have "memcpy_at (left + 1) (replicate (55 - left) 0) ((r @ [0x80]) @ drop 1 q) = Some (?p @ ?q)"
      using memcpy_at_append [of "r @ [0x80]" "left + 1" "replicate (55 - left) 0" "drop 1 q"] r True by simp
    then have "MD5Final ctx = MD5Final_last (ctx\<lparr>md5_in := ?p @ ?q\<rparr>)"
      using m1 by (simp only: final few if_False) simp
    moreover have "absorb rfc_compress s (?p @ ?L) = (rfc_compress s (?p @ ?L), [])"
      using r True by (intro absorb_blocks1) simp
    ultimately show ?thesis
      using MD5Final_last_rfc [of "ctx\<lparr>md5_in := ?p @ ?q\<rparr>" ?p ?q] r True
      by (simp add: digest pad_length s_def)
  next
    case False
    let ?b = "r @ 0x80 # replicate (63 - left) 0" and ?z = "replicate 56 0 :: byte list"
    have b: "length ?b = 64" using r left by simp
    have few: "64 - 1 - left = 63 - left" "(63 - left < 8) = True" using False by auto
    have "memcpy_at (left + 1) (replicate (63 - left) 0) ((r @ [0x80]) @ drop 1 q) = Some ?b"
      using memcpy_at_append [of "r @ [0x80]" "left + 1" "replicate (63 - left) 0" "drop 1 q"] r left by simp
    moreover have "memcpy_at 0 ?z ?b = Some (?z @ drop 56 ?b)"
      using memcpy_at_append [of "[]" 0 ?z ?b] b by simp
    ultimately have "MD5Final ctx = MD5Final_last (ctx\<lparr>md5_buf := rfc_compress s ?b, md5_in := ?z @ drop 56 ?b\<rparr>)"
      using m1 b by (simp only: final few if_True) (simp add: md5_block_rfc s_def)
    moreover have "r @ 0x80 # replicate ((119 - left) mod 64) 0 @ ?L = ?b @ ?z @ ?L"
    proof -
      have "(119 - left) mod 64 = (63 - left) + 56" using False left by simp
      then show ?thesis by (simp only: replicate_add append.assoc append_Cons)
    qed
    moreover have "absorb rfc_compress s (?b @ ?z @ ?L) = (rfc_compress (rfc_compress s ?b) (?z @ ?L), [])"
      using b by (intro absorb_blocks2) simp_all
    ultimately show ?thesis
      using MD5Final_last_rfc [of "ctx\<lparr>md5_buf := rfc_compress s ?b, md5_in := ?z @ drop 56 ?b\<rparr>" ?z "drop 56 ?b"] b
      by (simp add: digest)
  qed
qed

interpretation md5: digest_context md5_fed
    "\<lambda>ctx. \<exists>ctx0. length (md5_in ctx0) = 64 \<and> ctx = MD5Init ctx0"
    "\<lambda>x. MD5Update x (of_nat (length x))" "\<lambda>ctx. map_option snd (MD5Final ctx)" rfc_md5
proof
  fix m ctx and x :: "byte list"
  assume "md5_fed m ctx" "length x < 2 ^ 31"
  then show "\<exists>c'. MD5Update x (of_nat (length x)) ctx = Some c' \<and> md5_fed (m @ x) c'"
    using MD5Update_fed [of m ctx "length x" x] by simp
qed (auto simp: md5_fed_init MD5Final_fed)

section \<open>The digest is the standard's\<close>

text \<open>C11. The digest that \<^verbatim>\<open>md5\<close> computes is the one of RFC 1321 for every message an \<^verbatim>\<open>int\<close> can measure, whatever
  the context it starts with holds. The 64 constants of the code are the integer parts of \<open>2 ^ 32\<close> times the sine, the
  unrolled steps rename the four variables the way the RFC moves them, and the byte swaps are the identity on a
  little-endian machine.\<close>

theorem md5_rfc1321:
  assumes "length (md5_in ctx) = 64" "0 \<le> len" "len < 2 ^ 31" "len \<le> int (length input)"
  shows "md5 ctx input len = Some (rfc_md5 (take (nat len) input))"
proof -
  have w: "(word_of_int len :: u32) = of_nat (nat len)" using assms(2) by simp
  have n: "nat len < 2 ^ 32" "nat len \<le> length input" using assms by simp_all
  obtain c where c: "MD5Update input (of_nat (nat len)) (MD5Init ctx) = Some c" "md5_fed ([] @ take (nat len) input) c"
    using MD5Update_fed [OF md5_fed_init [OF assms(1)] n] by blast
  show ?thesis
    using MD5Final_fed [OF c(2)] unfolding md5_def w c(1) by (auto simp: map_option_case split: option.splits)
qed

theorem md5_rfc1321_witness:
  "md5 \<lparr>md5_buf = (1, 2, 3, 4), md5_bits0 = 5, md5_bits1 = 6, md5_in = replicate 64 0xAA\<rparr> (replicate 100 0x61) 80 =
    Some (rfc_md5 (replicate 80 0x61))"
  using md5_rfc1321 [of "\<lparr>md5_buf = (1, 2, 3, 4), md5_bits0 = 5, md5_bits1 = 6, md5_in = replicate 64 0xAA\<rparr>" 80
      "replicate 100 0x61"] by simp

text \<open>A message fed to the context in pieces of any sizes gives the digest of the whole message.\<close>

lemma md5_pieces:
  assumes "length (md5_in ctx) = 64" "\<forall>x\<in>set xs. length x < 2 ^ 31"
  shows "do { ctx \<leftarrow> feed (\<lambda>x. MD5Update x (of_nat (length x))) xs (MD5Init ctx);
      map_option snd (MD5Final ctx) } = Some (rfc_md5 (concat xs))"
  using md5.digest_pieces [of "MD5Init ctx" xs] assms by blast

end
