(* ===== verification/Spec2Isabelle.thy ===== *)
theory Spec2Isabelle
  imports Environment Lmb Tftp Sha1 Md5
begin

text \<open>
  Verification of the RTD1195 boot loader of the TerraMaster NAS (\<^verbatim>\<open>src/u-boot32\<close>), in the configuration
  for SPI flash (\<^verbatim>\<open>include/configs/rtd1195_nas_spi.h\<close>).

  \<^bold>\<open>The program.\<close> The loader keeps its environment variables as a file in the factory store. The store is a tar
  archive in RAM, saved in turn to two slots of the boot flash; each slot is sealed with a header that carries a
  sequence number and the archive size. The environment in RAM is a hash table; it is exported as text with a CRC-32
  in front, and imported again at the next start. Files come over the network with TFTP, which writes them to
  the memory at the load address and leaves their size in the environment. Room for the kernel, the device tree and
  the RAM disk is allocated from the tables of logical memory blocks, and images are checked with MD5, SHA-1 or CRC-32.

  \<^bold>\<open>Conventions.\<close> \<^verbatim>\<open>int\<close> and \<^verbatim>\<open>long\<close> have 32 bits and \<^verbatim>\<open>char\<close> is unsigned. Unsigned machine integers are words,
  so they wrap; signed ones are \<open>int\<close> with the wrap-around written out (\<open>s32\<close>) where the code can reach it. A memory
  area is a byte list. \<open>None\<close> is the absence of a defined result: an access outside the area, a NULL pointer that is
  followed, or a loop that does not end. So a theorem that gives \<open>Some\<close> also says that the code returns and stays
  inside its buffers. Failing calls of the source are values: a negative or zero result, or an \<open>Inl\<close>. \<^verbatim>\<open>malloc\<close>,
  the flash chip, the NAND and card controllers and the network are parameters. Loops that trust the data they walk
  are partial functions; no model has fuel.

  \<^bold>\<open>The theories.\<close>

  \<^item> \<open>Boot_Prelude\<close>: machine types, slices of byte lists, C strings, 32-bit words in memory, \<^verbatim>\<open>strcmp\<close> and
    \<^verbatim>\<open>strncmp\<close>; the collections \<open>buf_simps\<close> and \<open>cstr_simps\<close>.
  \<^item> \<open>Vsprintf\<close> (\<^verbatim>\<open>lib/vsprintf.c\<close>, \<^verbatim>\<open>lib/ctype.c\<close>): number parsing and printing. \<^verbatim>\<open>put_dec\<close>, which works with
    shifts and multiplications, prints the decimal digits; parsing inverts printing in octal and hexadecimal.
  \<^item> \<open>Cstring\<close> (\<^verbatim>\<open>lib/string.c\<close>): every string and memory routine on one memory, so that areas may overlap.
    \<^verbatim>\<open>memmove\<close> is right for every overlap; \<^verbatim>\<open>memcpy\<close> by words is the byte copy; \<^verbatim>\<open>strtok\<close>, \<^verbatim>\<open>strstr\<close> and
    \<^verbatim>\<open>strim\<close> meet their descriptions.
  \<^item> \<open>Tar\<close> (\<^verbatim>\<open>lib/tar.c\<close>, \<^verbatim>\<open>include/tar.h\<close>): the archive as bytes, and as a list of entries. The three loops refine
    operations on the list: lookup by name, enumeration, and the rewrite that adds or deletes a file. What was
    stored is read back, other files stay. Two theorems show what the code also does: files are matched by prefix,
    and a size field from -1534 to -1023 makes the walk endless.
  \<^item> \<open>Flash\<close> (\<^verbatim>\<open>common/cmd_rtkspi.c\<close>, \<^verbatim>\<open>drivers/mmc/rtkmmc.c\<close>): read, program and erase of the SPI flash, block
    transfers of the card; each loop equals the update of the byte range it stands for.
  \<^item> \<open>Factory\<close> (\<^verbatim>\<open>arch/arm/cpu/armv7/rtd1195/factorylib.c\<close>): the state of the store and its operations on SPI flash,
    eMMC and NAND, with the console command. \<open>factory_inv\<close> is its invariant.
  \<^item> \<open>Ping_Pong\<close>: the contract of a two-slot medium, the locale \<open>ping_pong\<close> (what is stored is checked again, the other
    slot stays, the newer of two consecutive numbers is picked), interpreted on the SPI flash.
  \<^item> \<open>Power_Loss\<close>: a save as a step relation with one erase or program operation a step. Whatever the
    relation reaches, the next start loads the complete old or the complete new archive; a file written and saved
    is there after a restart, files whose name begins with its name are gone and the others are as before; writes and deletions keep the invariant. Three theorems show failures: the wrap of the
    sequence number in slot 1, a refused save that is reported as done the second time, a read error on eMMC.
  \<^item> \<open>Crc32\<close> (\<^verbatim>\<open>lib/crc32.c\<close>): the table-driven routine equals the bit-serial register for every alignment, and a
    change of one byte changes the checksum.
  \<^item> \<open>Hashtable\<close> (\<^verbatim>\<open>lib/hashtable.c\<close>): creation, search, insertion, deletion and the scans. The locale \<open>var_store\<close> is
    the contract of a variable store, with the sequences of operations proved in it; the table implements it as long
    as a slot is free. Two theorems show what happens otherwise, and when memory runs out.
  \<^item> \<open>Qsort\<close> (\<^verbatim>\<open>lib/qsort.c\<close>): the shell sort returns, permutes and sorts.
  \<^item> \<open>Env_Text\<close> (\<^verbatim>\<open>hexport_r\<close>, \<^verbatim>\<open>himport_r\<close>): importing what was exported gives the same variables; exactly when the
    export overruns its buffer, for every separator, size and buffer.
  \<^item> \<open>Environment\<close> (\<^verbatim>\<open>common/env_common.c\<close>, \<^verbatim>\<open>env_factory.c\<close>, \<^verbatim>\<open>cmd_nvedit.c\<close>): composes all of the above. After
    \<^verbatim>\<open>saveenv\<close> and a restart every variable is back, and when the power fails during \<^verbatim>\<open>saveenv\<close> all variables are the
    old or all are the new ones; a damaged block is replaced by the default; \<^verbatim>\<open>setenv\<close> and \<^verbatim>\<open>getenv\<close> agree, and the text
    scan before relocation gives the values of the table after it, cut after 31 bytes.
  \<^item> \<open>Lmb\<close> (\<^verbatim>\<open>lib/lmb.c\<close>): whatever the arguments of the calls, they return and stay inside the tables, and while the
    calls are orderly the tables are sorted and without overlaps; an allocated block is
    aligned, inside the memory and was free; if a block fits, one is found. What is reserved is the size rounded up, which
    can overlap; freeing the last range breaks the next reservation.
  \<^item> \<open>Tftp\<close> (\<^verbatim>\<open>net/tftp.c\<close>, parts of \<^verbatim>\<open>net/net.c\<close> and \<^verbatim>\<open>lib/net_utils.c\<close>): the client as a handler of packets and
    timeouts under the network loop, in turns of events. A download over a network that loses and repeats packets, with any
    OACK packets before the first block, ends, the
    file is in memory, nothing else changed and \<^verbatim>\<open>filesize\<close> is set; a repeated packet at a wrap of the block number
    misplaces what follows, and an OACK packet after the first block ends the transfer.
  \<^item> \<open>Digest_Stream\<close>: the blocks of a digest and the locale \<open>digest_context\<close>, the contract of a context that is
    started, fed and finished; in it, feeding in pieces of any sizes gives the digest of the whole.
  \<^item> \<open>Sha1\<close> (\<^verbatim>\<open>lib/sha1.c\<close>): interprets the contract; the digest is the one of FIPS 180, the keyed digest that of
    FIPS 198 for the first 64 bytes of the key.
  \<^item> \<open>Md5_Table\<close> and \<open>Md5\<close> (\<^verbatim>\<open>lib/md5.c\<close>): the 64 constants are the integer parts of \<open>2 ^ 32\<close> times the sine, as RFC 1321
    defines them, and the digest is the RFC's; the contract is interpreted here too.

  \<^bold>\<open>Bounds.\<close> The hash table theorem is for tables created for 4 to 520 entries, which covers the 64 to 512 the
  environment code asks for. Digest theorems take inputs below \<open>2 ^ 31\<close> bytes per call, the range of the
  \<^verbatim>\<open>int\<close> arguments. The TFTP theorem is for files of fewer than 65536 blocks, so that the block number does
  not wrap, and for as many timeouts as the retry limits allow. Allocation from the memory blocks is for alignments
  that are powers of two and sizes up to the bound. Power is lost between flash operations, each of which is taken to be
  done or not done. \<^verbatim>\<open>malloc\<close> as a parameter answers by size, the same for each request.

  \<^bold>\<open>Not modelled.\<close> Console input and output, and with it the shell, the printing commands and \<^verbatim>\<open>md5sum\<close> and \<^verbatim>\<open>sha1sum\<close>,
  which only parse numbers and print a digest. The register level of drivers and the start-up code, whose effect is
  that of the hardware. \<^verbatim>\<open>dlmalloc\<close>: callers that test the result of an allocation are modelled for both
  outcomes; the header buffers of the SPI and eMMC paths of \<^verbatim>\<open>factorylib.c\<close>, which are not tested, are taken to be
  there. Ethernet, ARP and
  IP below TFTP: packets enter the model at the UDP handler. Image headers, device tree, decompressors, partition
  tables and other file systems, which the modelled parts do not call. Code under \<^verbatim>\<open>#if 0\<close> or for options the board does
  not set. The rest of the repository (kernel drivers and patches, wireless daemons, web interface, packages and
  host tools) are other programs.
\<close>

end
